(* ===== verification/Prelude.thy ===== *)
theory Prelude
  imports Main "HOL-Library.Word"
begin

text \<open>
  Shared by every theory of the development: the machine types of the C++ code, the
  collections of facts the component proofs share, and generic facts about words,
  bytes, characters and lists.

  Conventions.  A \<open>std::uint8_t\<close> / \<open>unsigned char\<close> that the code
  computes with is an \<open>8 word\<close>; a \<open>char\<close> of protocol text is a HOL
  \<open>char\<close> (256 values), read as a table index by \<open>of_char\<close>.  A
  \<open>std::size_t\<close> that measures a region of memory is a \<open>nat\<close>; a
  \<open>std::size_t\<close> or \<open>std::uint64_t\<close> whose wrap-around can be observed is a
  \<open>64 word\<close>.
\<close>

unbundle bit_operations_syntax

type_synonym u8 = "8 word"
type_synonym u16 = "16 word"
type_synonym u32 = "32 word"
type_synonym u64 = "64 word"
type_synonym bytes = "8 word list"

named_theorems buf_defs \<open>definitions of the buffer models\<close>
named_theorems parse_simps \<open>unfolding rules of the parser models\<close>
named_theorems bit_consts \<open>the bits of the masks\<close>
named_theorems word_consts \<open>numerals of the bit masks as mask and push_bit terms\<close>

section \<open>Characters and bytes\<close>

definition uchar :: "char \<Rightarrow> nat" where
  "uchar c = of_char c"

definition byte_of :: "char \<Rightarrow> u8" where
  "byte_of c = of_char c"

definition char_of_byte :: "u8 \<Rightarrow> char" where
  "char_of_byte b = char_of (unat b)"

lemma uchar_less [intro]: "uchar c < 256"
  by (simp add: uchar_def)

lemma char_of_uchar [simp]: "char_of (uchar c) = c"
  by (simp add: uchar_def)

lemma uchar_char_of [simp]: "n < 256 \<Longrightarrow> uchar (char_of n) = n"
  by (simp add: uchar_def of_char_of)

lemma uchar_inj [simp]: "uchar a = uchar b \<longleftrightarrow> a = b"
  by (simp add: uchar_def)

lemma unat_byte_of [simp]: "unat (byte_of c) = uchar c"
proof -
  have "byte_of c = of_nat (uchar c)"
    by (simp only: byte_of_def uchar_def of_nat_of_char)
  then show ?thesis
    using uchar_less [of c] by (simp add: unat_of_nat)
qed

lemma char_of_byte_of [simp]: "char_of_byte (byte_of c) = c"
  by (simp add: char_of_byte_def)

lemma byte_of_char_of_byte [simp]: "byte_of (char_of_byte b) = b"
proof -
  have "unat b < 256"
    using unsigned_less [of b] by simp
  then have "unat (byte_of (char_of_byte b)) = unat b"
    by (simp add: char_of_byte_def)
  then show ?thesis
    by (simp add: word_unat_eq_iff)
qed

text \<open>A property of every character is checked on the 256 codes.\<close>

lemma char_forall: "(\<forall>c. P c) \<longleftrightarrow> (\<forall>n<256. P (char_of (n::nat)))"
proof
  assume *: "\<forall>n<256. P (char_of (n::nat))"
  show "\<forall>c. P c"
  proof
    fix c
    show "P c"
      using * [rule_format, of "uchar c"] uchar_less [of c] by simp
  qed
qed simp

lemma char_forall_list: "list_all P (map char_of [0..<256::nat]) \<Longrightarrow> P c"
  proof -
  assume "list_all P (map char_of [0..<256::nat])"
  then have "\<forall>n\<in>{0..<256::nat}. P (char_of n)"
    by (simp add: list_all_iff)
  then have "P (char_of (uchar c))"
    using uchar_less [of c] by (metis atLeastLessThan_iff zero_le)
  then show "P c"
    by simp
qed

text \<open>A table with 256 entries, as the code's \<open>tab[256]\<close>.\<close>

lemma table_nth:
  assumes "map f [0..<256] = tab" and "n < 256"
  shows "tab ! n = f n"
  using assms by (metis add_0 length_upt nth_map nth_upt diff_zero)

section \<open>Words\<close>

lemma unat_ucast_le_64 [simp]: "unat (ucast (b :: u8) :: u64) = unat b"
  by (simp add: unsigned_ucast_eq take_bit_nat_eq_self_iff less_trans [OF unsigned_less])

lemma u8_less_256: "unat (b :: u8) < 256"
  using unsigned_less [of b] by simp

lemma mask_consts [word_consts]:
  "(1 :: 'a::len word) = mask 1" "(3 :: 'a::len word) = mask 2"
  "(7 :: 'a::len word) = mask 3" "(15 :: 'a::len word) = mask 4"
  "(31 :: 'a::len word) = mask 5" "(63 :: 'a::len word) = mask 6"
  "(127 :: 'a::len word) = mask 7" "(255 :: 'a::len word) = mask 8"
  by (simp_all add: mask_eq_exp_minus_1)

text \<open>
  The bits of the masks the code uses, as words and as the integers the simplifier
  turns word numerals into.
\<close>

lemma bit_mask_consts [bit_consts]:
  "bit (3 :: 'a::len word) n \<longleftrightarrow> n < 2 \<and> n < LENGTH('a)"
  "bit (7 :: 'a::len word) n \<longleftrightarrow> n < 3 \<and> n < LENGTH('a)"
  "bit (15 :: 'a::len word) n \<longleftrightarrow> n < 4 \<and> n < LENGTH('a)"
  "bit (31 :: 'a::len word) n \<longleftrightarrow> n < 5 \<and> n < LENGTH('a)"
  "bit (63 :: 'a::len word) n \<longleftrightarrow> n < 6 \<and> n < LENGTH('a)"
  "bit (127 :: 'a::len word) n \<longleftrightarrow> n < 7 \<and> n < LENGTH('a)"
  "bit (255 :: 'a::len word) n \<longleftrightarrow> n < 8 \<and> n < LENGTH('a)"
  by (auto simp: word_consts bit_simps)

lemma int_mask_consts:
  "(3 :: int) = mask 2" "(7 :: int) = mask 3" "(15 :: int) = mask 4" "(31 :: int) = mask 5"
  "(63 :: int) = mask 6" "(127 :: int) = mask 7" "(255 :: int) = mask 8"
  by (simp_all add: mask_eq_exp_minus_1)

lemma bit_int_mask_consts [bit_consts]:
  "bit (3 :: int) n \<longleftrightarrow> n < 2"
  "bit (7 :: int) n \<longleftrightarrow> n < 3"
  "bit (15 :: int) n \<longleftrightarrow> n < 4"
  "bit (31 :: int) n \<longleftrightarrow> n < 5"
  "bit (63 :: int) n \<longleftrightarrow> n < 6"
  "bit (127 :: int) n \<longleftrightarrow> n < 7"
  "bit (255 :: int) n \<longleftrightarrow> n < 8"
  by (simp_all add: int_mask_consts bit_mask_iff)

lemma bit_exp_word: "bit (2 ^ k :: 'a::len word) n \<longleftrightarrow> n = k \<and> n < LENGTH('a)"
  by (auto simp: bit_exp_iff)

lemma bit_exp_int: "bit (2 ^ k :: int) n \<longleftrightarrow> n = k"
  by (auto simp: bit_exp_iff)

lemmas bit_pow_consts [bit_consts] =
  bit_exp_word [of 1, simplified] bit_exp_int [of 1, simplified]
  bit_exp_word [of 2, simplified] bit_exp_int [of 2, simplified]
  bit_exp_word [of 3, simplified] bit_exp_int [of 3, simplified]
  bit_exp_word [of 4, simplified] bit_exp_int [of 4, simplified]
  bit_exp_word [of 5, simplified] bit_exp_int [of 5, simplified]
  bit_exp_word [of 6, simplified] bit_exp_int [of 6, simplified]
  bit_exp_word [of 7, simplified] bit_exp_int [of 7, simplified]

lemma and_mask_mod: "(v :: 'a::len word) AND mask n = v mod 2 ^ n"
  by (simp add: take_bit_eq_mod flip: take_bit_eq_mask)

lemma and_127_mod: "(v :: 'a::len word) AND 127 = v mod 128"
  using and_mask_mod [of v 7] by (simp add: mask_eq_exp_minus_1)

text \<open>Equality of bytes, bit by bit.\<close>

lemma u8_eqI:
  assumes "bit (a :: u8) 0 = bit b 0" "bit a 1 = bit b 1" "bit a 2 = bit b 2" "bit a 3 = bit b 3"
    "bit a 4 = bit b 4" "bit a 5 = bit b 5" "bit a 6 = bit b 6" "bit a 7 = bit b 7"
  shows "a = b"
proof (rule bit_word_eqI)
  fix n :: nat
  assume "n < LENGTH(8)"
  then have "n \<in> {0, 1, 2, 3, 4, 5, 6, 7}"
    by auto
  then show "bit a n = bit b n"
    using assms by auto
qed

text \<open>A property of every byte is checked on the 256 values.\<close>

lemma u8_forall_list: "list_all P (map word_of_nat [0..<256]) \<Longrightarrow> P (b :: u8)"
proof -
  assume "list_all P (map word_of_nat [0..<256])"
  then have "\<forall>n\<in>{0..<256}. P (word_of_nat n)"
    by (simp add: list_all_iff)
  then have "P (word_of_nat (unat b))"
    by (metis atLeastLessThan_iff u8_less_256 zero_le)
  then show "P b"
    by simp
qed

section \<open>Lists\<close>

lemma take_drop_split: "take n xs @ take m (drop n xs) = take (n + m) xs"
  by (simp add: take_add)

text \<open>
  Writing a block of bytes at an offset of a region, as \<open>memcpy\<close> does; nothing is
  written past the region's end.
\<close>

definition blit :: "nat \<Rightarrow> 'a list \<Rightarrow> 'a list \<Rightarrow> 'a list" where
  "blit off src mem = take off mem @ take (length mem - off) src @ drop (off + length src) mem"

lemma length_blit [simp]: "off \<le> length mem \<Longrightarrow> length (blit off src mem) = length mem"
  by (auto simp: blit_def min_def)

lemma blit_Nil [simp]: "blit off [] mem = mem"
  by (simp add: blit_def)

lemma take_blit_before [simp]: "n \<le> off \<Longrightarrow> off \<le> length mem \<Longrightarrow> take n (blit off src mem) = take n mem"
  by (simp add: blit_def min_def)

lemma drop_blit_at:
  "off + length src \<le> length mem \<Longrightarrow> take (length src) (drop off (blit off src mem)) = src"
  by (simp add: blit_def)

lemma drop_blit_after [simp]:
  "off + length src \<le> n \<Longrightarrow> off + length src \<le> length mem \<Longrightarrow> drop n (blit off src mem) = drop n mem"
  by (simp add: blit_def drop_append)

lemma take_drop_blit_disjoint:
  assumes "a + n \<le> off" "off \<le> length mem"
  shows "take n (drop a (blit off src mem)) = take n (drop a mem)"
proof -
  have "take n (drop a (blit off src mem)) = drop a (take (a + n) (blit off src mem))"
    by (simp add: drop_take)
  also have "\<dots> = drop a (take (a + n) mem)"
    using assms by simp
  finally show ?thesis
    by (simp add: drop_take)
qed

lemma take_drop_blit_append:
  assumes "a \<le> off" "off + length src \<le> length mem" "k \<le> length src"
  shows "take (off - a + k) (drop a (blit off src mem)) = take (off - a) (drop a mem) @ take k src"
proof -
  have "take (off - a + k) (drop a (blit off src mem))
      = take (off - a) (drop a (blit off src mem)) @ take k (drop (off - a) (drop a (blit off src mem)))"
    by (simp add: take_add)
  also have "take (off - a) (drop a (blit off src mem)) = take (off - a) (drop a mem)"
    using assms by (intro take_drop_blit_disjoint) auto
  also have "take k (drop (off - a) (drop a (blit off src mem))) = take k src"
  proof -
    have "drop (off - a) (drop a (blit off src mem)) = drop off (blit off src mem)"
      using assms by simp
    moreover have "take k (drop off (blit off src mem)) = take k (take (length src) (drop off (blit off src mem)))"
      using assms by (simp add: min_def)
    ultimately show ?thesis
      using assms by (simp add: drop_blit_at)
  qed
  finally show ?thesis .
qed

text \<open>Writing between \<open>p\<close> and \<open>l\<close> leaves what comes before alone.\<close>

lemma blit_out:
  assumes "i \<le> p" "p \<le> l" "l \<le> length m"
  shows "take (p - i) (drop i (blit p (take (l - p) src) m)) = take (p - i) (drop i m)"
    and "take (l - p) (drop p (blit p (take (l - p) src) m))
      = take (l - p) src @ drop (length src) (take (l - p) (drop p m))"
    and "length (blit p (take (l - p) src) m) = length m"
proof -
  show "take (p - i) (drop i (blit p (take (l - p) src) m)) = take (p - i) (drop i m)"
    using assms by (intro take_drop_blit_disjoint) auto
  show "length (blit p (take (l - p) src) m) = length m"
    using assms by simp
  have "drop p (blit p (take (l - p) src) m) = take (l - p) src @ drop (p + min (length src) (l - p)) m"
    using assms by (simp add: blit_def)
  moreover have "take (l - p - min (length src) (l - p)) (drop (p + min (length src) (l - p)) m)
      = drop (length src) (take (l - p) (drop p m))"
    using assms by (cases "length src \<le> l - p") (simp_all add: drop_take add.commute)
  ultimately show "take (l - p) (drop p (blit p (take (l - p) src) m))
      = take (l - p) src @ drop (length src) (take (l - p) (drop p m))"
    by simp
qed


section \<open>Decimal numbers\<close>

text \<open>The value of a run of digits.\<close>

definition dec_value :: "string \<Rightarrow> nat" where
  "dec_value = foldl (\<lambda>v c. 10 * v + (uchar c - 48)) 0"

lemma foldl_dec_mono: "v \<le> foldl (\<lambda>v c. 10 * v + (uchar c - 48)) v s"
proof (induction s arbitrary: v)
  case (Cons c s)
  show ?case
    using Cons.IH [of "10 * v + (uchar c - 48)"] by simp
qed simp

lemma dec_value_snoc: "dec_value (s @ [c]) = 10 * dec_value s + (uchar c - 48)"
  by (simp add: dec_value_def)

section \<open>Bytes of numbers\<close>

text \<open>The \<open>k\<close> low bytes of a number, most significant first, and the number of such bytes.\<close>

definition be_bytes :: "nat \<Rightarrow> nat \<Rightarrow> bytes" where
  "be_bytes k v = map (\<lambda>i. of_nat (v div 256 ^ (k - 1 - i))) [0..<k]"

definition be_nat :: "bytes \<Rightarrow> nat" where
  "be_nat = foldl (\<lambda>n b. n * 256 + unat b) 0"

lemma length_be_bytes [simp]: "length (be_bytes k v) = k"
  by (simp add: be_bytes_def)

lemma be_bytes_0 [simp]: "be_bytes 0 v = []"
  by (simp add: be_bytes_def)

lemma be_bytes_Suc: "be_bytes (Suc k) v = be_bytes k (v div 256) @ [of_nat v]"
proof -
  have "v div 256 ^ (k - i) = v div 256 div 256 ^ (k - 1 - i)" if "i < k" for i
    using that by (simp add: div_mult2_eq [symmetric] Suc_diff_Suc flip: power_Suc)
  then show ?thesis
    by (simp add: be_bytes_def)
qed

lemma be_nat_Nil [simp]: "be_nat [] = 0"
  by (simp add: be_nat_def)

lemma be_nat_snoc [simp]: "be_nat (xs @ [b]) = be_nat xs * 256 + unat b"
  by (simp add: be_nat_def)

lemma be_nat_less: "be_nat xs < 256 ^ length xs"
proof (induction xs rule: rev_induct)
  case (snoc b xs)
  then have "be_nat xs * 256 + unat b < (be_nat xs + 1) * 256" "(be_nat xs + 1) * 256 \<le> 256 ^ length xs * 256"
    using u8_less_256 [of b] by (simp, intro mult_le_mono1, simp)
  then show ?case
    by (simp add: mult.commute)
qed simp

lemma be_nat_bytes: "be_nat (be_bytes k v) = v mod 256 ^ k"
proof (induction k arbitrary: v)
  case (Suc k)
  have "v mod 256 ^ Suc k = 256 * (v div 256 mod 256 ^ k) + v mod 256"
    by (simp add: mod_mult2_eq)
  then show ?case
    by (simp add: be_bytes_Suc Suc unat_of_nat mult.commute)
qed (simp add: be_bytes_def)

lemma be_bytes_nat: "be_bytes (length xs) (be_nat xs) = xs"
proof (induction xs rule: rev_induct)
  case (snoc b xs)
  have "(be_nat xs * 256 + unat b) div 256 = be_nat xs"
    using u8_less_256 [of b] by simp
  moreover have "(of_nat (be_nat xs * 256 + unat b) :: u8) = b"
  proof -
    have "(256 :: u8) = 0"
      by simp
    then show ?thesis
      by (simp only: of_nat_add of_nat_mult of_nat_numeral mult_zero_right add_0) simp
  qed
  ultimately show ?case
    using snoc by (simp add: be_bytes_Suc)
qed simp

lemma unat_drop_bit: "unat (drop_bit k v) = unat v div 2 ^ k" for v :: "'a::len word"
proof -
  have "take_bit LENGTH('a) (unat v) = unat v"
    by (rule take_bit_nat_eq_self) (rule unsigned_less)
  then show ?thesis
    by (simp only: unsigned_drop_bit_eq) (simp only: drop_bit_eq_div)
qed

lemma byte_of_word: "(ucast (drop_bit k v) :: u8) = of_nat (unat v div 2 ^ k)" for v :: "'a::len word"
  using unat_drop_bit [of k v] by (metis of_nat_unat)

lemma byte_of_word_and: "(ucast (drop_bit k v AND 0xff) :: u8) = ucast (drop_bit k v)"
  "(ucast (v AND 0xff) :: u8) = ucast v" for v :: "'a::len word"
  by (rule bit_word_eqI; auto simp: bit_simps bit_consts dest: bit_imp_le_length)+

text \<open>The bytes of the sizes the code stores.\<close>

lemma be_bytes_2: "be_bytes 2 v = [of_nat (v div 256), of_nat v]"
  by (simp add: be_bytes_def upt_rec numeral_2_eq_2)

lemma be_bytes_4: "be_bytes 4 v = [of_nat (v div 256 ^ 3), of_nat (v div 256 ^ 2), of_nat (v div 256), of_nat v]"
  by (simp add: be_bytes_def upt_rec numeral_2_eq_2)

lemma be_bytes_8:
  "be_bytes 8 v = [of_nat (v div 256 ^ 7), of_nat (v div 256 ^ 6), of_nat (v div 256 ^ 5), of_nat (v div 256 ^ 4),
     of_nat (v div 256 ^ 3), of_nat (v div 256 ^ 2), of_nat (v div 256), of_nat v]"
  by (simp add: be_bytes_def upt_rec numeral_2_eq_2)

end
