(* ===== verification/Base64.thy ===== *)
theory Base64
  imports Prelude
begin

text \<open>
  \<open>beast/core/detail/base64.hpp\<close>: the codec behind the WebSocket handshake keys.
  A source pointer with a length is a list; what is written through the destination
  pointer is the returned list, so its length is the number of characters written.
\<close>

section \<open>Tables\<close>

definition get_alphabet :: string where
  "get_alphabet = ''ABCDEFGHIJKLMNOPQRSTUVWXYZabcdefghijklmnopqrstuvwxyz0123456789+/''"

definition get_inverse :: "int list" where
  "get_inverse =
    [-1, -1, -1, -1, -1, -1, -1, -1, -1, -1, -1, -1, -1, -1, -1, -1,
     -1, -1, -1, -1, -1, -1, -1, -1, -1, -1, -1, -1, -1, -1, -1, -1,
     -1, -1, -1, -1, -1, -1, -1, -1, -1, -1, -1, 62, -1, -1, -1, 63,
     52, 53, 54, 55, 56, 57, 58, 59, 60, 61, -1, -1, -1, -1, -1, -1,
     -1, 0, 1, 2, 3, 4, 5, 6, 7, 8, 9, 10, 11, 12, 13, 14,
     15, 16, 17, 18, 19, 20, 21, 22, 23, 24, 25, -1, -1, -1, -1, -1,
     -1, 26, 27, 28, 29, 30, 31, 32, 33, 34, 35, 36, 37, 38, 39, 40,
     41, 42, 43, 44, 45, 46, 47, 48, 49, 50, 51, -1, -1, -1, -1, -1,
     -1, -1, -1, -1, -1, -1, -1, -1, -1, -1, -1, -1, -1, -1, -1, -1,
     -1, -1, -1, -1, -1, -1, -1, -1, -1, -1, -1, -1, -1, -1, -1, -1,
     -1, -1, -1, -1, -1, -1, -1, -1, -1, -1, -1, -1, -1, -1, -1, -1,
     -1, -1, -1, -1, -1, -1, -1, -1, -1, -1, -1, -1, -1, -1, -1, -1,
     -1, -1, -1, -1, -1, -1, -1, -1, -1, -1, -1, -1, -1, -1, -1, -1,
     -1, -1, -1, -1, -1, -1, -1, -1, -1, -1, -1, -1, -1, -1, -1, -1,
     -1, -1, -1, -1, -1, -1, -1, -1, -1, -1, -1, -1, -1, -1, -1, -1,
     -1, -1, -1, -1, -1, -1, -1, -1, -1, -1, -1, -1, -1, -1, -1, -1]"

definition encoded_size :: "nat \<Rightarrow> nat" where
  "encoded_size n = 4 * ((n + 2) div 3)"

definition decoded_size :: "nat \<Rightarrow> nat" where
  "decoded_size n = n div 4 * 3"

section \<open>encode\<close>

abbreviation tab64 :: "u8 \<Rightarrow> char" where
  "tab64 i \<equiv> get_alphabet ! unat i"

fun encode :: "bytes \<Rightarrow> string" where
  "encode (a # b # c # src) =
     [tab64 (drop_bit 2 (a AND 0xfc)),
      tab64 (push_bit 4 (a AND 0x03) + drop_bit 4 (b AND 0xf0)),
      tab64 (drop_bit 6 (c AND 0xc0) + push_bit 2 (b AND 0x0f)),
      tab64 (c AND 0x3f)] @ encode src"
| "encode [a, b] =
     [tab64 (drop_bit 2 (a AND 0xfc)),
      tab64 (push_bit 4 (a AND 0x03) + drop_bit 4 (b AND 0xf0)),
      tab64 (push_bit 2 (b AND 0x0f)),
      CHR ''='']"
| "encode [a] =
     [tab64 (drop_bit 2 (a AND 0xfc)),
      tab64 (push_bit 4 (a AND 0x03)),
      CHR ''='', CHR ''='']"
| "encode [] = []"

section \<open>decode\<close>

text \<open>
  \<open>c4\<close> keeps what the array held before, so that the final partial group reads the
  stale entries the code reads; \<open>decode\<close> takes the uninitialised array as an
  argument.  The result is what was written and how many characters were read.
\<close>

definition c3_of :: "u8 list \<Rightarrow> bytes" where
  "c3_of c4 =
     [push_bit 2 (c4 ! 0) + drop_bit 4 ((c4 ! 1) AND 0x30),
      push_bit 4 ((c4 ! 1) AND 0xf) + drop_bit 2 ((c4 ! 2) AND 0x3c),
      push_bit 6 ((c4 ! 2) AND 0x3) + c4 ! 3]"

definition decode_tail :: "u8 list \<Rightarrow> nat \<Rightarrow> bytes" where
  "decode_tail c4 i = (if i \<noteq> 0 then take (i - 1) (c3_of c4) else [])"

fun decode_loop :: "string \<Rightarrow> u8 list \<Rightarrow> nat \<Rightarrow> bytes \<Rightarrow> nat \<Rightarrow> bytes \<times> nat" where
  "decode_loop [] c4 i out n = (out @ decode_tail c4 i, n)"
| "decode_loop (ch # src) c4 i out n =
     (if ch = CHR ''='' then (out @ decode_tail c4 i, n)
      else let v = get_inverse ! uchar ch in
        if v = -1 then (out @ decode_tail c4 i, n)
        else let c4 = c4[i := word_of_int v] in
          if i + 1 = 4 then decode_loop src c4 0 (out @ c3_of c4) (n + 1)
          else decode_loop src c4 (i + 1) out (n + 1))"

definition decode :: "u8 list \<Rightarrow> string \<Rightarrow> bytes \<times> nat" where
  "decode c4 src = decode_loop src c4 0 [] 0"

definition base64_encode :: "bytes \<Rightarrow> string" where
  "base64_encode data = encode data"

text \<open>
  \<open>base64_decode\<close> gives \<open>decode\<close> a string of \<open>decoded_size\<close> bytes to
  write to.  \<open>None\<close> is a write past its end, which C++ leaves undefined.
\<close>

definition base64_decode :: "u8 list \<Rightarrow> string \<Rightarrow> bytes option" where
  "base64_decode c4 data =
     (let out = fst (decode c4 data) in
      if length out \<le> decoded_size (length data) then Some out else None)"

section \<open>Lemmas\<close>

lemma alphabet_inverse_list:
  "list_all (\<lambda>k. get_alphabet ! k \<noteq> CHR ''='' \<and> get_inverse ! uchar (get_alphabet ! k) = int k) [0..<64]"
  by code_simp

lemma alphabet_inverse:
  "k < 64 \<Longrightarrow> get_alphabet ! k \<noteq> CHR ''='' \<and> get_inverse ! uchar (get_alphabet ! k) = int k"
  using alphabet_inverse_list by (auto simp: list_all_iff)

lemma bit_b64_consts [bit_consts]:
  "bit (252 :: int) n \<longleftrightarrow> 2 \<le> n \<and> n < 8" "bit (240 :: int) n \<longleftrightarrow> 4 \<le> n \<and> n < 8"
  "bit (192 :: int) n \<longleftrightarrow> 6 \<le> n \<and> n < 8" "bit (48 :: int) n \<longleftrightarrow> 4 \<le> n \<and> n < 6"
  "bit (60 :: int) n \<longleftrightarrow> 2 \<le> n \<and> n < 6"
proof -
  have "(252 :: int) = push_bit 2 (mask 6)" "(240 :: int) = push_bit 4 (mask 4)"
    "(192 :: int) = push_bit 6 (mask 2)" "(48 :: int) = push_bit 4 (mask 2)"
    "(60 :: int) = push_bit 2 (mask 4)"
    by (simp_all add: mask_eq_exp_minus_1)
  then show "bit (252 :: int) n \<longleftrightarrow> 2 \<le> n \<and> n < 8" "bit (240 :: int) n \<longleftrightarrow> 4 \<le> n \<and> n < 8"
    "bit (192 :: int) n \<longleftrightarrow> 6 \<le> n \<and> n < 8" "bit (48 :: int) n \<longleftrightarrow> 4 \<le> n \<and> n < 6"
    "bit (60 :: int) n \<longleftrightarrow> 2 \<le> n \<and> n < 6"
    by (simp_all only: bit_push_bit_iff bit_mask_iff possible_bit_int) auto
qed

text \<open>
  The six-bit groups of three bytes, named so that the simplifier keeps them apart:
  each sum is a disjoint union of bits.
\<close>

definition sx0 :: "u8 \<Rightarrow> u8" where
  "sx0 a = drop_bit 2 (a AND 0xfc)"

definition sx1 :: "u8 \<Rightarrow> u8 \<Rightarrow> u8" where
  "sx1 a b = push_bit 4 (a AND 0x03) + drop_bit 4 (b AND 0xf0)"

definition sx2 :: "u8 \<Rightarrow> u8 \<Rightarrow> u8" where
  "sx2 b c = drop_bit 6 (c AND 0xc0) + push_bit 2 (b AND 0x0f)"

definition sx3 :: "u8 \<Rightarrow> u8" where
  "sx3 c = c AND 0x3f"

definition sx1t :: "u8 \<Rightarrow> u8" where
  "sx1t a = push_bit 4 (a AND 0x03)"

definition sx2t :: "u8 \<Rightarrow> u8" where
  "sx2t b = push_bit 2 (b AND 0x0f)"

lemma encode_groups:
  "encode (a # b # c # src) = tab64 (sx0 a) # tab64 (sx1 a b) # tab64 (sx2 b c) # tab64 (sx3 c) # encode src"
  "encode [a, b] = [tab64 (sx0 a), tab64 (sx1 a b), tab64 (sx2t b), CHR ''='']"
  "encode [a] = [tab64 (sx0 a), tab64 (sx1t a), CHR ''='', CHR ''='']"
  by (simp_all only: encode.simps sx0_def sx1_def sx2_def sx3_def sx1t_def sx2t_def append_Cons append_Nil)

lemma sx_or:
  "sx1 a b = push_bit 4 (a AND 0x03) OR drop_bit 4 (b AND 0xf0)"
  "sx2 b c = drop_bit 6 (c AND 0xc0) OR push_bit 2 (b AND 0x0f)"
  unfolding sx1_def sx2_def
  by (rule disjunctive_add_eq_or, rule bit_word_eqI, auto simp: bit_simps bit_consts)+

lemma small_word: "(\<And>n. bit (x :: u8) n \<Longrightarrow> n < 6) \<Longrightarrow> unat x < 64"
proof -
  assume "\<And>n. bit x n \<Longrightarrow> n < 6"
  then have "take_bit 6 x = x"
    by (intro bit_word_eqI) (auto simp: bit_simps)
  then have "take_bit 6 (unat x) = unat x"
    by (metis unsigned_take_bit_eq)
  then show "unat x < 64"
    by (simp add: take_bit_nat_eq_self_iff)
qed

lemma sx_small:
  "unat (sx0 a) < 64" "unat (sx1 a b) < 64" "unat (sx2 b c) < 64" "unat (sx3 c) < 64"
  "unat (sx1t a) < 64" "unat (sx2t b) < 64"
  unfolding sx_or sx0_def sx3_def sx1t_def sx2t_def
  by (rule small_word, auto simp: bit_simps bit_consts)+

lemma tab64_props:
  "unat i < 64 \<Longrightarrow> tab64 i \<noteq> CHR ''='' \<and> get_inverse ! uchar (tab64 i) = int (unat i)"
  by (rule alphabet_inverse)

lemma decode_step:
  assumes "unat k < 64" "length c4 = 4" "i < 4"
  shows "decode_loop (tab64 k # src) c4 i out n =
    (if i = 3 then decode_loop src (c4[3 := k]) 0 (out @ c3_of (c4[3 := k])) (n + 1)
     else decode_loop src (c4[i := k]) (i + 1) out (n + 1))"
proof -
  have "uint k \<noteq> - 1"
    using unsigned_greater_eq [of k, where ?'a = int] by linarith
  then show ?thesis
    using assms tab64_props [of k] by (simp add: Let_def)
qed

text \<open>Each decoded byte is the byte that was encoded.\<close>

definition gr0 :: "u8 \<Rightarrow> u8 \<Rightarrow> u8" where
  "gr0 w x = push_bit 2 w + drop_bit 4 (x AND 0x30)"

definition gr1 :: "u8 \<Rightarrow> u8 \<Rightarrow> u8" where
  "gr1 x y = push_bit 4 (x AND 0xf) + drop_bit 2 (y AND 0x3c)"

definition gr2 :: "u8 \<Rightarrow> u8 \<Rightarrow> u8" where
  "gr2 y z = push_bit 6 (y AND 0x3) + z"

lemma c3_of_groups: "c3_of [w, x, y, z] = [gr0 w x, gr1 x y, gr2 y z]"
  by (simp only: c3_of_def gr0_def gr1_def gr2_def) (simp add: numeral_eq_Suc)

lemma gr0_or: "gr0 w x = push_bit 2 w OR drop_bit 4 (x AND 0x30)"
  and gr1_or: "gr1 x y = push_bit 4 (x AND 0xf) OR drop_bit 2 (y AND 0x3c)"
  unfolding gr0_def gr1_def
  by (rule disjunctive_add_eq_or, rule u8_eqI; simp add: bit_simps bit_consts)+

lemma gr2_or: "gr2 y (sx3 c) = push_bit 6 (y AND 0x3) OR sx3 c"
  unfolding gr2_def sx3_def
  by (rule disjunctive_add_eq_or, rule u8_eqI; simp add: bit_simps bit_consts)

lemma regroup:
  "gr0 (sx0 a) (sx1 a b) = a" "gr1 (sx1 a b) (sx2 b c) = b" "gr2 (sx2 b c) (sx3 c) = c"
  "gr0 (sx0 a) (sx1t a) = a" "gr1 (sx1 a b) (sx2t b) = b"
  unfolding gr0_or gr1_or gr2_or
  unfolding sx_or sx0_def sx3_def sx1t_def sx2t_def
  by (rule u8_eqI; simp add: bit_simps bit_consts)+

lemma length4E:
  assumes "length c4 = 4" obtains w x y z where "c4 = [w, x, y, z]"
  using assms by (auto simp: numeral_eq_Suc length_Suc_conv)

lemma decode_pad: "decode_loop (CHR ''='' # src) c4 i out n = (out @ decode_tail c4 i, n)"
  by simp

lemmas decode_run = decode_step sx_small c3_of_groups regroup decode_tail_def decode_pad encode_groups

lemma decode_encode_loop:
  "length c4 = 4 \<Longrightarrow>
    decode_loop (encode xs) c4 0 out n = (out @ xs, n + (4 * length xs + 2) div 3)"
proof (induction xs arbitrary: c4 out n rule: encode.induct)
  case (1 a b c src)
  obtain w x y z where c4: "c4 = [w, x, y, z]"
    using "1.prems" by (rule length4E)
  have "(4 * length (a # b # c # src) + 2) div 3 = 4 + (4 * length src + 2) div 3"
    by simp
  then show ?case
    using "1.IH" [of "[sx0 a, sx1 a b, sx2 b c, sx3 c]" "out @ [a, b, c]" "Suc (Suc (Suc (Suc n)))"]
    by (simp add: c4 decode_run del: decode_loop.simps encode.simps)
next
  case (2 a b)
  obtain w x y z where c4: "c4 = [w, x, y, z]"
    using "2.prems" by (rule length4E)
  show ?case
    by (simp add: c4 decode_run del: decode_loop.simps encode.simps)
next
  case (3 a)
  obtain w x y z where c4: "c4 = [w, x, y, z]"
    using "3.prems" by (rule length4E)
  show ?case
    by (simp add: c4 decode_run del: decode_loop.simps encode.simps)
next
  case 4
  then show ?case
    by (simp add: decode_tail_def)
qed

lemma length_encode [simp]: "length (encode xs) = encoded_size (length xs)"
proof (induction xs rule: encode.induct)
  case (1 a b c src)
  have "(length (a # b # c # src) + 2) div 3 = 1 + (length src + 2) div 3"
    by simp
  then show ?case
    using 1 by (simp add: encoded_size_def)
qed (auto simp: encoded_size_def)

lemma length_c3_of [simp]: "length (c3_of c4) = 3"
  by (simp add: c3_of_def)

lemma decode_tail_bound: "i < 4 \<Longrightarrow> length (decode_tail c4 i) \<le> 3 * ((k + i) div 4) + ((k + i) mod 4 - 1)"
proof -
  assume "i < 4"
  then have "length (decode_tail c4 i) = i - 1"
    by (simp add: decode_tail_def)
  also have "i - 1 \<le> 3 * ((k + i) div 4) + ((k + i) mod 4 - 1)"
  proof (cases "k + i < 4")
    case False
    then have "1 \<le> (k + i) div 4"
      by (simp add: Suc_le_eq div_greater_zero_iff)
    then show ?thesis
      using \<open>i < 4\<close> by linarith
  qed simp
  finally show ?thesis .
qed

lemma decode_loop_length:
  "length c4 = 4 \<Longrightarrow> i < 4 \<Longrightarrow>
    length (fst (decode_loop src c4 i out n))
      \<le> length out + (3 * ((length src + i) div 4) + ((length src + i) mod 4 - 1))"
proof (induction src c4 i out n rule: decode_loop.induct)
  case (1 c4 i out n)
  then show ?case
    using decode_tail_bound [of i c4 0] by simp
next
  case (2 ch src c4 i out n)
  have stop: "length (out @ decode_tail c4 i)
      \<le> length out + (3 * ((Suc (length src) + i) div 4) + ((Suc (length src) + i) mod 4 - 1))"
    using 2 decode_tail_bound [of i c4 "Suc (length src)"] by simp
  show ?case
  proof (cases "ch = CHR ''='' \<or> get_inverse ! uchar ch = -1")
    case True
    then show ?thesis
      using stop by (auto simp: Let_def)
  next
    case False
    let ?c4 = "c4[i := word_of_int (get_inverse ! uchar ch)]"
    show ?thesis
    proof (cases "i + 1 = 4")
      case True
      then have "length (fst (decode_loop src ?c4 0 (out @ c3_of ?c4) (n + 1)))
          \<le> length (out @ c3_of ?c4) + (3 * ((length src + 0) div 4) + ((length src + 0) mod 4 - 1))"
        by (intro "2.IH"(1)) (use False "2.prems" in simp_all)
      moreover have "(Suc (length src) + i) div 4 = Suc (length src div 4)"
          "(Suc (length src) + i) mod 4 = length src mod 4"
        using True by presburger+
      ultimately show ?thesis
        using False True by (simp add: Let_def)
    next
      case i: False
      then have "length (fst (decode_loop src ?c4 (i + 1) out (n + 1)))
          \<le> length out + (3 * ((length src + (i + 1)) div 4) + ((length src + (i + 1)) mod 4 - 1))"
        by (intro "2.IH"(2)) (use False i "2.prems" in simp_all)
      then show ?thesis
        using False i by (simp add: Let_def)
    qed
  qed
qed

lemma decode_length_mod4:
  assumes "length c4 = 4" "length src mod 4 = 0"
  shows "length (fst (decode c4 src)) \<le> decoded_size (length src)"
  using decode_loop_length [OF assms(1), of 0 src "[]" 0] assms(2)
  by (simp add: decode_def decoded_size_def)

lemma encoded_size_mod4 [simp]: "encoded_size n mod 4 = 0"
  by (simp add: encoded_size_def)

section \<open>Properties\<close>

text \<open>
  Decoding what was encoded gives the bytes back, whatever the uninitialised group
  array held; the decoder reads exactly the characters before the padding, and the
  encoder writes exactly \<open>encoded_size\<close> characters.
\<close>

theorem base64_roundtrip:
  assumes "length c4 = 4"
  shows "base64_decode c4 (base64_encode data) = Some data
    \<and> snd (decode c4 (base64_encode data)) = (4 * length data + 2) div 3
    \<and> length (base64_encode data) = encoded_size (length data)"
  using assms decode_length_mod4 [OF assms, of "encode data"]
  by (simp add: base64_decode_def base64_encode_def decode_def decode_encode_loop)

theorem base64_roundtrip_witness:
  "base64_decode [0, 0, 0, 0] (base64_encode [0x4d, 0x61]) = Some [0x4d, 0x61]
    \<and> base64_encode [0x4d, 0x61] = ''TWE=''"
proof
  have "length [0, 0, 0, 0 :: u8] = 4"
    by simp
  from base64_roundtrip [OF this] show "base64_decode [0, 0, 0, 0] (base64_encode [0x4d, 0x61]) = Some [0x4d, 0x61]"
    by blast
  show "base64_encode [0x4d, 0x61] = ''TWE=''"
    by (simp add: base64_encode_def get_alphabet_def)
qed

text \<open>
  On input whose length is a multiple of four the decoder stays within the
  \<open>decoded_size\<close> bytes \<open>base64_decode\<close> allocates.  Without that condition it does
  not: on three alphabet characters two bytes are written where none are allocated.
\<close>

theorem base64_decode_bounds:
  assumes "length c4 = 4"
  shows "(length src mod 4 = 0 \<longrightarrow> base64_decode c4 src = Some (fst (decode c4 src)))
    \<and> length (fst (decode c4 ''AAA'')) = 2 \<and> decoded_size (length ''AAA'') = 0
    \<and> base64_decode c4 ''AAA'' = None"
proof -
  have *: "get_inverse ! uchar (CHR ''A'') = 0"
    by (simp add: uchar_def get_inverse_def)
  have "length (fst (decode c4 ''AAA'')) = 2"
    using assms * by (simp add: decode_def Let_def decode_tail_def)
  moreover have "decoded_size (length ''AAA'') = 0"
    by (simp add: decoded_size_def)
  ultimately show ?thesis
    using decode_length_mod4 [OF assms, of src]
    by (simp add: base64_decode_def Let_def flip: length_0_conv)
qed

theorem base64_decode_bounds_witness:
  "base64_decode [0, 0, 0, 0] ''TWE='' = Some (fst (decode [0, 0, 0, 0] ''TWE=''))"
proof -
  have "length [0, 0, 0, 0 :: u8] = 4"
    by simp
  from base64_decode_bounds [OF this, of "''TWE=''"] show ?thesis
    by simp
qed

end
