(* ===== verification/Chacha.thy ===== *)
theory Chacha
  imports Prelude
begin

text \<open>
  \<open>beast/core/detail/chacha.hpp\<close>: the generator behind the WebSocket masking keys.
  The template parameter \<open>R\<close>, the number of rounds, is an argument.
\<close>

record chacha =
  block :: "u32 list"
  keysetup :: "u32 list"
  ctr :: u64
  idx :: nat

text \<open>The constructor; \<open>b\<close> is what the uninitialised block array held.\<close>

definition chacha_ctor :: "u32 list \<Rightarrow> u32 list \<Rightarrow> u64 \<Rightarrow> chacha" where
  "chacha_ctor b v stream =
     \<lparr>block = b,
      keysetup = map (\<lambda>i. v ! i) [0..<6] @
        [v ! 6 + ucast (stream AND 0xffffffff),
         v ! 7 + ucast (drop_bit 32 stream AND 0xffffffff)],
      ctr = 0, idx = 16\<rparr>"

definition rotl32 :: "u32 \<Rightarrow> nat \<Rightarrow> u32" where
  "rotl32 x n = push_bit n x OR drop_bit (32 - n) x"

definition quarterround :: "nat \<Rightarrow> nat \<Rightarrow> nat \<Rightarrow> nat \<Rightarrow> u32 list \<Rightarrow> u32 list" where
  "quarterround a b c d x =
     (let x = x[a := x ! a + x ! b]; x = x[d := x ! d XOR x ! a]; x = x[d := rotl32 (x ! d) 16];
          x = x[c := x ! c + x ! d]; x = x[b := x ! b XOR x ! c]; x = x[b := rotl32 (x ! b) 12];
          x = x[a := x ! a + x ! b]; x = x[d := x ! d XOR x ! a]; x = x[d := rotl32 (x ! d) 8];
          x = x[c := x ! c + x ! d]; x = x[b := x ! b XOR x ! c]; x = x[b := rotl32 (x ! b) 7]
      in x)"

definition double_round :: "u32 list \<Rightarrow> u32 list" where
  "double_round x =
     (let x = quarterround 0 4 8 12 x; x = quarterround 1 5 9 13 x;
          x = quarterround 2 6 10 14 x; x = quarterround 3 7 11 15 x;
          x = quarterround 0 5 10 15 x; x = quarterround 1 6 11 12 x;
          x = quarterround 2 7 8 13 x; x = quarterround 3 4 9 14 x
      in x)"

function core_loop :: "nat \<Rightarrow> nat \<Rightarrow> u32 list \<Rightarrow> u32 list" where
  "core_loop R i x = (if i < R then core_loop R (i + 2) (double_round x) else x)"
  by auto
termination by (relation "measure (\<lambda>(R, i, x). R - i)") auto

declare core_loop.simps [simp del]

definition chacha_core :: "nat \<Rightarrow> u32 list \<Rightarrow> u32 list" where
  "chacha_core R x = core_loop R 0 x"

definition block_input :: "u32 list \<Rightarrow> u64 \<Rightarrow> u32 list" where
  "block_input key c =
     [0x61707865, 0x3320646e, 0x79622d32, 0x6b206574] @ key @
     [ucast ((c div 16) AND 0xffffffff), ucast (drop_bit 32 (c div 16)), 0xdeadbeef, 0xdeadbeef]"

definition generate_block :: "nat \<Rightarrow> chacha \<Rightarrow> chacha" where
  "generate_block R g =
     (let input = block_input (keysetup g) (ctr g)
      in g\<lparr>block := map2 (+) (chacha_core R input) input\<rparr>)"

definition chacha_call :: "nat \<Rightarrow> chacha \<Rightarrow> u32 \<times> chacha" where
  "chacha_call R g =
     (let g = (if idx g = 16 then generate_block R (g\<lparr>idx := 0, ctr := ctr g + 1\<rparr>) else g)
      in (block g ! idx g, g\<lparr>idx := idx g + 1\<rparr>))"

fun chacha_calls :: "nat \<Rightarrow> nat \<Rightarrow> chacha \<Rightarrow> u32 list \<times> chacha" where
  "chacha_calls R 0 g = ([], g)"
| "chacha_calls R (Suc n) g =
     (case chacha_call R g of (w, g') \<Rightarrow> case chacha_calls R n g' of (ws, g'') \<Rightarrow> (w # ws, g''))"

section \<open>The words drawn\<close>

definition keystream_block :: "nat \<Rightarrow> u32 list \<Rightarrow> u64 \<Rightarrow> u32 list" where
  "keystream_block R key c =
     (let input = block_input key c in map2 (+) (chacha_core R input) input)"

lemma generate_block_eq: "generate_block R g = g\<lparr>block := keystream_block R (keysetup g) (ctr g)\<rparr>"
  by (simp add: generate_block_def keystream_block_def Let_def)

text \<open>The state before the \<open>n\<close>th word is drawn.\<close>

definition at_word :: "nat \<Rightarrow> u32 list \<Rightarrow> nat \<Rightarrow> chacha \<Rightarrow> bool" where
  "at_word R key n g \<longleftrightarrow> keysetup g = key \<and> ctr g = of_nat ((n + 15) div 16) \<and>
     idx g = (if n mod 16 = 0 then 16 else n mod 16) \<and>
     (n mod 16 \<noteq> 0 \<longrightarrow> block g = keystream_block R key (ctr g))"

lemma at_word_step:
  assumes "at_word R key n g" and "chacha_call R g = (w, g')"
  shows "w = keystream_block R key (of_nat (n div 16 + 1)) ! (n mod 16) \<and> at_word R key (Suc n) g'"
proof (cases "n mod 16 = 0")
  case True
  then obtain k where k: "n = 16 * k"
    by (auto simp: mod_eq_0_iff_dvd elim: dvdE)
  then show ?thesis
    using assms by (auto simp: at_word_def chacha_call_def generate_block_eq Let_def add.commute)
next
  case False
  then obtain k r where k: "n = 16 * k + r" "0 < r" "r < 16"
    by (metis gr0I mod_less_divisor mult_div_mod_eq zero_less_numeral)
  then have "n div 16 = k" "n mod 16 = r" "(n + 15) div 16 = k + 1" "(Suc n + 15) div 16 = k + 1"
    by auto
  moreover have "Suc n mod 16 = (if r = 15 then 0 else Suc r)"
    using k by auto
  ultimately show ?thesis
    using assms k by (auto simp: at_word_def chacha_call_def Let_def)
qed

lemma calls_from:
  "at_word R key n g \<Longrightarrow> fst (chacha_calls R m g) =
    map (\<lambda>i. keystream_block R key (of_nat (i div 16 + 1)) ! (i mod 16)) [n..<n + m]"
proof (induction m arbitrary: n g)
  case (Suc m)
  obtain w g' where call: "chacha_call R g = (w, g')"
    by (cases "chacha_call R g")
  then have "fst (chacha_calls R m g') =
      map (\<lambda>i. keystream_block R key (of_nat (i div 16 + 1)) ! (i mod 16)) [Suc n..<Suc n + m]"
    using Suc at_word_step by blast
  then show ?case
  proof -
    have "[n..<n + Suc m] = n # [Suc n..<Suc n + m]"
      by (simp add: upt_conv_Cons del: upt_Suc)
    then show ?thesis
      using at_word_step [OF Suc.prems call] call \<open>fst (chacha_calls R m g') = _\<close>
      by (cases "chacha_calls R m g'") (simp del: upt_Suc)
  qed
qed simp

lemma at_word_ctor: "at_word R (keysetup (chacha_ctor b v stream)) 0 (chacha_ctor b v stream)"
  by (simp add: at_word_def chacha_ctor_def)

lemma div16_u64: "k < 2 ^ 64 \<Longrightarrow> (of_nat k :: u64) div 16 = of_nat (k div 16)"
  by (simp add: word_arith_nat_div unat_of_nat)

lemma keystream_block_cong:
  "j < 2 ^ 64 \<Longrightarrow> k < 2 ^ 64 \<Longrightarrow> j div 16 = k div 16
    \<Longrightarrow> keystream_block R key (of_nat j) = keystream_block R key (of_nat k)"
  by (simp add: keystream_block_def block_input_def div16_u64)

section \<open>Properties\<close>

text \<open>
  The words drawn from a fresh generator.  The block counter is incremented once for
  each block and divided by sixteen when the block is made, so the block of words
  \<open>16 k\<close> to \<open>16 k + 15\<close> is the keystream block of \<open>(k + 1) div 16\<close>: each
  block is produced again, fifteen times in all for the first one and sixteen for the rest.
\<close>

theorem chacha_blocks_repeat:
  "fst (chacha_calls R n (chacha_ctor b v stream)) =
     map (\<lambda>i. keystream_block R (keysetup (chacha_ctor b v stream)) (of_nat (i div 16 + 1)) ! (i mod 16)) [0..<n]
   \<and> concat (replicate 15 (fst (chacha_calls R 16 (chacha_ctor b v stream))))
     = fst (chacha_calls R 240 (chacha_ctor b v stream))"
proof
  let ?key = "keysetup (chacha_ctor b v stream)"
  have all: "fst (chacha_calls R m (chacha_ctor b v stream)) =
      map (\<lambda>i. keystream_block R ?key (of_nat (i div 16 + 1)) ! (i mod 16)) [0..<m]" for m
    using calls_from [OF at_word_ctor] by simp
  then show "fst (chacha_calls R n (chacha_ctor b v stream)) =
      map (\<lambda>i. keystream_block R ?key (of_nat (i div 16 + 1)) ! (i mod 16)) [0..<n]"
    by simp
  let ?row = "map (\<lambda>i. keystream_block R ?key 1 ! i) [0..<16]"
  have row: "map (\<lambda>i. keystream_block R ?key (of_nat (i div 16 + 1)) ! (i mod 16)) [0..<16 * m] =
      concat (replicate m ?row)" if "m \<le> 15" for m
    using that
  proof (induction m)
    case (Suc m)
    have *: "keystream_block R ?key (of_nat (i div 16 + 1)) ! (i mod 16) = keystream_block R ?key 1 ! (i - 16 * m)"
      if "16 * m \<le> i" "i < 16 * m + 16" for i
    proof -
      have "i div 16 = m"
        using that by auto
      moreover have "i mod 16 = i - 16 * m"
        using that \<open>i div 16 = m\<close> by (metis minus_mult_div_eq_mod)
      ultimately show ?thesis
        using Suc.prems keystream_block_cong [of "m + 1" 1 R ?key] by simp
    qed
    have "map (\<lambda>i. keystream_block R ?key (of_nat (i div 16 + 1)) ! (i mod 16)) [16 * m..<16 * m + 16] = ?row"
    proof (rule nth_equalityI)
      fix i
      assume "i < length (map (\<lambda>i. keystream_block R ?key (of_nat (i div 16 + 1)) ! (i mod 16)) [16 * m..<16 * m + 16])"
      then show "map (\<lambda>i. keystream_block R ?key (of_nat (i div 16 + 1)) ! (i mod 16)) [16 * m..<16 * m + 16] ! i
          = ?row ! i"
        using * [of "16 * m + i"] by (simp del: upt_Suc)
    qed simp
    moreover have "[0..<16 * Suc m] = [0..<16 * m] @ [16 * m..<16 * m + 16]"
      by (metis add.commute le0 mult_Suc_right upt_add_eq_append)
    ultimately show ?case
      using Suc by (simp add: replicate_append_same [symmetric] del: replicate_Suc add: replicate_Suc)
  qed simp
  show "concat (replicate 15 (fst (chacha_calls R 16 (chacha_ctor b v stream))))
     = fst (chacha_calls R 240 (chacha_ctor b v stream))"
  proof -
    have "fst (chacha_calls R 16 (chacha_ctor b v stream)) = ?row"
      using row [of 1] unfolding all by (simp del: upt_Suc add: replicate_Suc [of 0])
    then show ?thesis
      using row [of 15] all [of 240] by simp
  qed
qed

end
