(* ===== verification/Sha1.thy ===== *)
theory Sha1
  imports Prelude
begin

text \<open>
  \<open>beast/core/detail/sha1.hpp\<close>: the streaming SHA-1 of the WebSocket handshake, and
  the specification of FIPS 180-4 it implements.  The block array that the rounds
  overwrite in place is passed along as a list of sixteen words.
\<close>

section \<open>Rounds\<close>

definition rol :: "u32 \<Rightarrow> nat \<Rightarrow> u32" where
  "rol v n = push_bit n v OR drop_bit (32 - n) v"

definition blk :: "u32 list \<Rightarrow> nat \<Rightarrow> u32" where
  "blk block i =
     rol (block ! ((i + 13) mod 16) XOR block ! ((i + 8) mod 16) XOR
          block ! ((i + 2) mod 16) XOR block ! i) 1"

text \<open>Each round returns the new \<open>w\<close>, the new \<open>z\<close> and the block.\<close>

type_synonym round =
  "u32 list \<Rightarrow> u32 \<Rightarrow> u32 \<Rightarrow> u32 \<Rightarrow> u32 \<Rightarrow> u32 \<Rightarrow> nat \<Rightarrow> u32 \<times> u32 \<times> u32 list"

definition R0 :: round where
  "R0 block v w x y z i =
     (rol w 30,
      z + (((w AND (x XOR y)) XOR y) + block ! i + 0x5a827999 + rol v 5),
      block)"

definition R1 :: round where
  "R1 block v w x y z i =
     (let block = block[i := blk block i] in
      (rol w 30,
       z + (((w AND (x XOR y)) XOR y) + block ! i + 0x5a827999 + rol v 5),
       block))"

definition R2 :: round where
  "R2 block v w x y z i =
     (let block = block[i := blk block i] in
      (rol w 30,
       z + ((w XOR x XOR y) + block ! i + 0x6ed9eba1 + rol v 5),
       block))"

definition R3 :: round where
  "R3 block v w x y z i =
     (let block = block[i := blk block i] in
      (rol w 30,
       z + ((((w OR x) AND y) OR (w AND x)) + block ! i + 0x8f1bbcdc + rol v 5),
       block))"

definition R4 :: round where
  "R4 block v w x y z i =
     (let block = block[i := blk block i] in
      (rol w 30,
       z + ((w XOR x XOR y) + block ! i + 0xca62c1d6 + rol v 5),
       block))"

definition make_block :: "bytes \<Rightarrow> u32 list" where
  "make_block p =
     map (\<lambda>i. ucast (p ! (4 * i + 3)) OR
               push_bit 8 (ucast (p ! (4 * i + 2))) OR
               push_bit 16 (ucast (p ! (4 * i + 1))) OR
               push_bit 24 (ucast (p ! (4 * i)))) [0..<16]"

text \<open>
  The local variables \<open>a\<close> to \<open>e\<close> of \<open>transform\<close> are a register list, and
  its eighty calls are a table of the round and the registers it is called with.
\<close>

abbreviation (input) ra :: nat where "ra \<equiv> 0"
abbreviation (input) rb :: nat where "rb \<equiv> 1"
abbreviation (input) rc :: nat where "rc \<equiv> 2"
abbreviation (input) rd :: nat where "rd \<equiv> 3"
abbreviation (input) re :: nat where "re \<equiv> 4"

definition rounds :: "(round \<times> nat \<times> nat \<times> nat \<times> nat \<times> nat \<times> nat) list" where
  "rounds =
    [(R0, ra, rb, rc, rd, re, 0), (R0, re, ra, rb, rc, rd, 1),
     (R0, rd, re, ra, rb, rc, 2), (R0, rc, rd, re, ra, rb, 3),
     (R0, rb, rc, rd, re, ra, 4), (R0, ra, rb, rc, rd, re, 5),
     (R0, re, ra, rb, rc, rd, 6), (R0, rd, re, ra, rb, rc, 7),
     (R0, rc, rd, re, ra, rb, 8), (R0, rb, rc, rd, re, ra, 9),
     (R0, ra, rb, rc, rd, re, 10), (R0, re, ra, rb, rc, rd, 11),
     (R0, rd, re, ra, rb, rc, 12), (R0, rc, rd, re, ra, rb, 13),
     (R0, rb, rc, rd, re, ra, 14), (R0, ra, rb, rc, rd, re, 15),
     (R1, re, ra, rb, rc, rd, 0), (R1, rd, re, ra, rb, rc, 1),
     (R1, rc, rd, re, ra, rb, 2), (R1, rb, rc, rd, re, ra, 3),
     (R2, ra, rb, rc, rd, re, 4), (R2, re, ra, rb, rc, rd, 5),
     (R2, rd, re, ra, rb, rc, 6), (R2, rc, rd, re, ra, rb, 7),
     (R2, rb, rc, rd, re, ra, 8), (R2, ra, rb, rc, rd, re, 9),
     (R2, re, ra, rb, rc, rd, 10), (R2, rd, re, ra, rb, rc, 11),
     (R2, rc, rd, re, ra, rb, 12), (R2, rb, rc, rd, re, ra, 13),
     (R2, ra, rb, rc, rd, re, 14), (R2, re, ra, rb, rc, rd, 15),
     (R2, rd, re, ra, rb, rc, 0), (R2, rc, rd, re, ra, rb, 1),
     (R2, rb, rc, rd, re, ra, 2), (R2, ra, rb, rc, rd, re, 3),
     (R2, re, ra, rb, rc, rd, 4), (R2, rd, re, ra, rb, rc, 5),
     (R2, rc, rd, re, ra, rb, 6), (R2, rb, rc, rd, re, ra, 7),
     (R3, ra, rb, rc, rd, re, 8), (R3, re, ra, rb, rc, rd, 9),
     (R3, rd, re, ra, rb, rc, 10), (R3, rc, rd, re, ra, rb, 11),
     (R3, rb, rc, rd, re, ra, 12), (R3, ra, rb, rc, rd, re, 13),
     (R3, re, ra, rb, rc, rd, 14), (R3, rd, re, ra, rb, rc, 15),
     (R3, rc, rd, re, ra, rb, 0), (R3, rb, rc, rd, re, ra, 1),
     (R3, ra, rb, rc, rd, re, 2), (R3, re, ra, rb, rc, rd, 3),
     (R3, rd, re, ra, rb, rc, 4), (R3, rc, rd, re, ra, rb, 5),
     (R3, rb, rc, rd, re, ra, 6), (R3, ra, rb, rc, rd, re, 7),
     (R3, re, ra, rb, rc, rd, 8), (R3, rd, re, ra, rb, rc, 9),
     (R3, rc, rd, re, ra, rb, 10), (R3, rb, rc, rd, re, ra, 11),
     (R4, ra, rb, rc, rd, re, 12), (R4, re, ra, rb, rc, rd, 13),
     (R4, rd, re, ra, rb, rc, 14), (R4, rc, rd, re, ra, rb, 15),
     (R4, rb, rc, rd, re, ra, 0), (R4, ra, rb, rc, rd, re, 1),
     (R4, re, ra, rb, rc, rd, 2), (R4, rd, re, ra, rb, rc, 3),
     (R4, rc, rd, re, ra, rb, 4), (R4, rb, rc, rd, re, ra, 5),
     (R4, ra, rb, rc, rd, re, 6), (R4, re, ra, rb, rc, rd, 7),
     (R4, rd, re, ra, rb, rc, 8), (R4, rc, rd, re, ra, rb, 9),
     (R4, rb, rc, rd, re, ra, 10), (R4, ra, rb, rc, rd, re, 11),
     (R4, re, ra, rb, rc, rd, 12), (R4, rd, re, ra, rb, rc, 13),
     (R4, rc, rd, re, ra, rb, 14), (R4, rb, rc, rd, re, ra, 15)]"

fun run_round ::
  "round \<times> nat \<times> nat \<times> nat \<times> nat \<times> nat \<times> nat \<Rightarrow> u32 list \<times> u32 list \<Rightarrow> u32 list \<times> u32 list"
where
  "run_round (R, v, w, x, y, z, i) (r, block) =
     (case R block (r ! v) (r ! w) (r ! x) (r ! y) (r ! z) i of
        (w', z', block') \<Rightarrow> (r[w := w', z := z'], block'))"

definition transform :: "u32 list \<Rightarrow> u32 list \<Rightarrow> u32 list \<times> u32 list" where
  "transform digest block =
     (case fold run_round rounds (digest, block) of
        (r, block') \<Rightarrow> (map2 (+) digest r, block'))"

section \<open>The streaming context\<close>

record sha1_context =
  buflen :: nat
  blocks :: u64
  digest :: "u32 list"
  buf :: bytes

definition sha1_init :: "sha1_context \<Rightarrow> sha1_context" where
  "sha1_init ctx = ctx\<lparr>buflen := 0, blocks := 0,
     digest := [0x67452301, 0xefcdab89, 0x98badcfe, 0x10325476, 0xc3d2e1f0]\<rparr>"

function sha1_update :: "sha1_context \<Rightarrow> bytes \<Rightarrow> sha1_context" where
  "sha1_update ctx p =
     (let n = min (length p) (64 - buflen ctx);
          ctx = ctx\<lparr>buf := blit (buflen ctx) (take n p) (buf ctx), buflen := buflen ctx + n\<rparr>
      in if buflen ctx \<noteq> 64 then ctx
         else sha1_update
           (ctx\<lparr>buflen := 0, digest := fst (transform (digest ctx) (make_block (buf ctx))),
                blocks := blocks ctx + 1\<rparr>) (drop n p))"
  by auto

termination
  by (relation "measure (\<lambda>(ctx, p). 2 * length p + (if buflen ctx \<ge> 64 then 1 else 0))") auto

declare sha1_update.simps [simp del]

definition put_be32 :: "u32 \<Rightarrow> bytes" where
  "put_be32 v =
     [ucast (drop_bit 24 v AND 0xff), ucast (drop_bit 16 v AND 0xff),
      ucast (drop_bit 8 v AND 0xff), ucast (v AND 0xff)]"

text \<open>\<open>finish\<close> returns the twenty digest bytes it writes to its argument.\<close>

definition sha1_finish :: "sha1_context \<Rightarrow> bytes" where
  "sha1_finish ctx =
     (let total_bits = (blocks ctx * 64 + of_nat (buflen ctx)) * 8;
          b = (buf ctx)[buflen ctx := 0x80];
          n = buflen ctx + 1;
          b = blit n (replicate (64 - n) 0) b;
          block = make_block b;
          (d, block) = (if n > 64 - 8
             then (case transform (digest ctx) block of
                     (d, bl) \<Rightarrow> (d, replicate 14 0 @ drop 14 bl))
             else (digest ctx, block));
          block = block[15 := ucast (total_bits AND 0xffffffff)];
          block = block[14 := ucast (drop_bit 32 total_bits)];
          d = fst (transform d block)
      in concat (map put_be32 d))"

section \<open>FIPS 180-4\<close>

text \<open>The standard's message schedule, round functions, compression and padding.\<close>

function W :: "u32 list \<Rightarrow> nat \<Rightarrow> u32" where
  "W m t = (if t < 16 then m ! t
     else rol (W m (t - 3) XOR W m (t - 8) XOR W m (t - 14) XOR W m (t - 16)) 1)"
  by auto
termination by (relation "measure snd") auto

declare W.simps [simp del]

definition f_fips :: "nat \<Rightarrow> u32 \<Rightarrow> u32 \<Rightarrow> u32 \<Rightarrow> u32" where
  "f_fips t x y z =
     (if t < 20 then (x AND y) XOR (NOT x AND z)
      else if t < 40 then x XOR y XOR z
      else if t < 60 then (x AND y) XOR (x AND z) XOR (y AND z)
      else x XOR y XOR z)"

definition K_fips :: "nat \<Rightarrow> u32" where
  "K_fips t = (if t < 20 then 0x5a827999 else if t < 40 then 0x6ed9eba1
     else if t < 60 then 0x8f1bbcdc else 0xca62c1d6)"

fun rounds_fips :: "u32 list \<Rightarrow> nat \<Rightarrow> u32 \<times> u32 \<times> u32 \<times> u32 \<times> u32 \<Rightarrow> u32 \<times> u32 \<times> u32 \<times> u32 \<times> u32" where
  "rounds_fips m 0 h = h"
| "rounds_fips m (Suc t) h =
     (case rounds_fips m t h of (a, b, c, d, e) \<Rightarrow>
        (rol a 5 + f_fips t b c d + e + K_fips t + W m t, a, rol b 30, c, d))"

definition compress_fips :: "u32 list \<Rightarrow> u32 list \<Rightarrow> u32 list" where
  "compress_fips h m =
     (case rounds_fips m 80 (h ! 0, h ! 1, h ! 2, h ! 3, h ! 4) of
        (a, b, c, d, e) \<Rightarrow> [h ! 0 + a, h ! 1 + b, h ! 2 + c, h ! 3 + d, h ! 4 + e])"

text \<open>Padding to a multiple of 64 bytes: a one bit, zeros, and the 64-bit length.\<close>

definition pad_fips :: "bytes \<Rightarrow> bytes" where
  "pad_fips msg = msg @ [0x80] @ replicate ((119 - length msg mod 64) mod 64) 0
     @ be_bytes 8 (8 * length msg)"

function chunks64 :: "bytes \<Rightarrow> bytes list" where
  "chunks64 xs = (if length xs < 64 then [] else take 64 xs # chunks64 (drop 64 xs))"
  by auto
termination by (relation "measure length") auto

declare chunks64.simps [simp del]

definition be_words :: "bytes \<Rightarrow> u32 list" where
  "be_words p = map (\<lambda>i. of_nat (unat (p ! (4 * i)) * 256 ^ 3 + unat (p ! (4 * i + 1)) * 256 ^ 2
     + unat (p ! (4 * i + 2)) * 256 + unat (p ! (4 * i + 3)))) [0..<16]"

definition iv_fips :: "u32 list" where
  "iv_fips = [0x67452301, 0xefcdab89, 0x98badcfe, 0x10325476, 0xc3d2e1f0]"

definition hash_fips :: "bytes \<Rightarrow> u32 list" where
  "hash_fips msg = foldl compress_fips iv_fips (map be_words (chunks64 msg))"

definition sha1_fips :: "bytes \<Rightarrow> bytes" where
  "sha1_fips msg = concat (map (\<lambda>w. be_bytes 4 (unat w)) (hash_fips (pad_fips msg)))"

section \<open>The compression function\<close>

definition kind :: "nat \<Rightarrow> round" where
  "kind t = (if t < 16 then R0 else if t < 20 then R1 else if t < 40 then R2
     else if t < 60 then R3 else R4)"

text \<open>The registers of round \<open>t\<close> are those of round zero, rotated.\<close>

lemma upt80:
  "[0..<80] = [0, 1, 2, 3, 4, 5, 6, 7, 8, 9, 10, 11, 12, 13, 14, 15, 16, 17, 18, 19,
     20, 21, 22, 23, 24, 25, 26, 27, 28, 29, 30, 31, 32, 33, 34, 35, 36, 37, 38, 39,
     40, 41, 42, 43, 44, 45, 46, 47, 48, 49, 50, 51, 52, 53, 54, 55, 56, 57, 58, 59,
     60, 61, 62, 63, 64, 65, 66, 67, 68, 69, 70, 71, 72, 73, 74, 75, 76, 77, 78, 79]"
  by code_simp

lemma rounds_eq:
  "rounds = map (\<lambda>t. (kind t, (4 * t) mod 5, (4 * t + 1) mod 5, (4 * t + 2) mod 5,
     (4 * t + 3) mod 5, (4 * t + 4) mod 5, t mod 16)) [0..<80]"
  by (simp add: rounds_def kind_def upt80)

lemma ch_eq: "((w AND (x XOR y)) XOR y) = ((w AND x) XOR (NOT w AND y) :: u32)"
  by (rule bit_word_eqI) (auto simp: bit_simps)

lemma maj_eq: "(((w OR x) AND y) OR (w AND x)) = ((w AND x) XOR (w AND y) XOR (x AND y) :: u32)"
  by (rule bit_word_eqI) (auto simp: bit_simps)

definition sim :: "u32 list \<Rightarrow> nat \<Rightarrow> u32 list \<times> u32 list \<Rightarrow> u32 \<times> u32 \<times> u32 \<times> u32 \<times> u32 \<Rightarrow> bool" where
  "sim m t s h \<longleftrightarrow> (case s of (r, block) \<Rightarrow> case h of (a, b, c, d, e) \<Rightarrow>
     length r = 5 \<and> length block = 16 \<and>
     r ! ((4 * t) mod 5) = a \<and> r ! ((4 * t + 1) mod 5) = b \<and> r ! ((4 * t + 2) mod 5) = c \<and>
     r ! ((4 * t + 3) mod 5) = d \<and> r ! ((4 * t + 4) mod 5) = e \<and>
     (\<forall>k < max 16 t. max 16 t - 16 \<le> k \<longrightarrow> block ! (k mod 16) = W m k))"

lemma window_index: "j + k = 16 \<Longrightarrow> k \<le> t \<Longrightarrow> (t mod 16 + j) mod 16 = (t - k) mod (16 :: nat)"
proof -
  assume "j + k = 16" "k \<le> t"
  then have "t + j = (t - k) + 16"
    by simp
  then show ?thesis
    by (metis mod_add_left_eq mod_add_self2)
qed

text \<open>The sixteen-word window of the schedule moves on by one word.\<close>

lemma window_step:
  assumes "length block = 16" "16 \<le> t"
    and w: "\<forall>k < t. t - 16 \<le> k \<longrightarrow> block ! (k mod 16) = W m k"
  shows "blk block (t mod 16) = W m t"
    and "\<forall>k < Suc t. Suc t - 16 \<le> k \<longrightarrow> block[t mod 16 := W m t] ! (k mod 16) = W m k"
proof -
  have idx: "(t mod 16 + 13) mod 16 = (t - 3) mod 16" "(t mod 16 + 8) mod 16 = (t - 8) mod 16"
    "(t mod 16 + 2) mod 16 = (t - 14) mod 16" "t mod 16 = (t - 16) mod 16"
    using \<open>16 \<le> t\<close> window_index [of 2 14 t] by (auto intro!: window_index le_mod_geq)
  have "blk block (t mod 16) = rol (W m (t - 3) XOR W m (t - 8) XOR W m (t - 14) XOR W m (t - 16)) 1"
  proof -
    have le: "t - 16 \<le> t - 3" "t - 16 \<le> t - 8" "t - 16 \<le> t - 14"
      by (rule diff_le_mono2, simp)+
    show ?thesis
      using w [rule_format, of "t - 3"] w [rule_format, of "t - 8"] w [rule_format, of "t - 14"]
        w [rule_format, of "t - 16"] \<open>16 \<le> t\<close> le
      unfolding blk_def idx(1,2,3) by (simp add: idx(4))
  qed
  then show "blk block (t mod 16) = W m t"
    using \<open>16 \<le> t\<close> by (simp add: W.simps [of m t])
  show "\<forall>k < Suc t. Suc t - 16 \<le> k \<longrightarrow> block[t mod 16 := W m t] ! (k mod 16) = W m k"
  proof (intro allI impI)
    fix k
    assume k: "k < Suc t" "Suc t - 16 \<le> k"
    show "block[t mod 16 := W m t] ! (k mod 16) = W m k"
    proof (cases "k = t")
      case True
      then show ?thesis using assms(1) by simp
    next
      case False
      then have "0 < t - k" "t - k < 16" "k \<le> t"
        using k by auto
      then have "k mod 16 \<noteq> t mod 16"
        by (metis mod_eq_dvd_iff_nat dvd_imp_le not_less)
      then show ?thesis
        using w k False by (simp add: nth_list_update_neq)
    qed
  qed
qed


lemma kind_step:
  assumes "length block = 16" "t < 80"
    and w: "\<forall>k < max 16 t. max 16 t - 16 \<le> k \<longrightarrow> block ! (k mod 16) = W m k"
  obtains block' where "kind t block a b c d e (t mod 16)
      = (rol b 30, rol a 5 + f_fips t b c d + e + K_fips t + W m t, block')"
    "length block' = 16"
    "\<forall>k < max 16 (Suc t). max 16 (Suc t) - 16 \<le> k \<longrightarrow> block' ! (k mod 16) = W m k"
proof (cases "t < 16")
  case True
  then have "block ! t = W m t"
    using w [rule_format, of t] by (simp add: max_def)
  then have "kind t block a b c d e (t mod 16)
      = (rol b 30, rol a 5 + f_fips t b c d + e + K_fips t + W m t, block)"
    using True by (simp add: kind_def R0_def ch_eq f_fips_def K_fips_def)
  then show ?thesis
    using that assms True by (simp add: max_def)
next
  case False
  let ?b = "block[t mod 16 := W m t]"
  have "blk block (t mod 16) = W m t"
    using window_step(1) [of block t m] assms False by (simp add: max_def)
  then have "kind t block a b c d e (t mod 16)
      = (rol b 30, rol a 5 + f_fips t b c d + e + K_fips t + W m t, ?b)"
    using False assms(1, 2)
    by (auto simp: kind_def R1_def R2_def R3_def R4_def Let_def ch_eq maj_eq f_fips_def K_fips_def
        xor.assoc)
  moreover have "\<forall>k < max 16 (Suc t). max 16 (Suc t) - 16 \<le> k \<longrightarrow> ?b ! (k mod 16) = W m k"
    using window_step(2) [of block t m] assms False by (simp add: max_def)
  ultimately show ?thesis
    using that assms(1) by simp
qed

lemma shift5: "a = b + 5 \<Longrightarrow> a mod 5 = b mod (5 :: nat)"
  by simp

text \<open>Updating roles one and four of a rotated register list.\<close>

lemma rotate_update:
  fixes r :: "u32 list" and t :: nat
  assumes "length r = 5"
  defines "g \<equiv> \<lambda>j. (4 * t + j) mod 5"
  shows "r[g 1 := w, g 4 := z] ! g 4 = z" "r[g 1 := w, g 4 := z] ! g 0 = r ! g 0"
    "r[g 1 := w, g 4 := z] ! g 1 = w" "r[g 1 := w, g 4 := z] ! g 2 = r ! g 2"
    "r[g 1 := w, g 4 := z] ! g 3 = r ! g 3"
proof -
  have "g j < 5" for j
    by (simp add: g_def)
  moreover have "g i \<noteq> g j" if "i < 5" "j < 5" "i < j" for i j
  proof
    assume "g i = g j"
    then have "(4 * t + j) mod 5 = (4 * t + i) mod 5"
      by (simp add: g_def)
    then have "5 dvd (4 * t + j) - (4 * t + i)"
      using that by (intro mod_eq_dvd_iff_nat [THEN iffD1]) auto
    then show False
      using that by (auto dest: dvd_imp_le)
  qed
  then have "g 0 \<noteq> g 1" "g 0 \<noteq> g 4" "g 1 \<noteq> g 2" "g 1 \<noteq> g 3" "g 1 \<noteq> g 4" "g 2 \<noteq> g 4" "g 3 \<noteq> g 4"
    by force+
  ultimately show "r[g 1 := w, g 4 := z] ! g 4 = z" "r[g 1 := w, g 4 := z] ! g 0 = r ! g 0"
    "r[g 1 := w, g 4 := z] ! g 1 = w" "r[g 1 := w, g 4 := z] ! g 2 = r ! g 2"
    "r[g 1 := w, g 4 := z] ! g 3 = r ! g 3"
    using assms(1) by (metis length_list_update nth_list_update_eq nth_list_update_neq)+
qed

lemma round_sim:
  assumes sim: "sim m t (r, block) (rounds_fips m t h0)" and t: "t < 80"
  shows "sim m (Suc t) (run_round (rounds ! t) (r, block)) (rounds_fips m (Suc t) h0)"
proof -
  obtain a b c d e where h: "rounds_fips m t h0 = (a, b, c, d, e)"
    by (cases "rounds_fips m t h0") auto
  note s = sim [unfolded h sim_def prod.case]
  obtain block' where k: "kind t block a b c d e (t mod 16)
      = (rol b 30, rol a 5 + f_fips t b c d + e + K_fips t + W m t, block')"
    "length block' = 16"
    "\<forall>k < max 16 (Suc t). max 16 (Suc t) - 16 \<le> k \<longrightarrow> block' ! (k mod 16) = W m k"
    using kind_step [of block t m a b c d e] s t by blast
  have round: "rounds ! t = (kind t, (4 * t) mod 5, (4 * t + 1) mod 5, (4 * t + 2) mod 5,
      (4 * t + 3) mod 5, (4 * t + 4) mod 5, t mod 16)"
    using t by (simp add: rounds_eq)
  have run: "run_round (rounds ! t) (r, block)
      = (r[(4 * t + 1) mod 5 := rol b 30,
           (4 * t + 4) mod 5 := rol a 5 + f_fips t b c d + e + K_fips t + W m t], block')"
    using s k by (simp add: round)
  have "(4 * Suc t) mod 5 = (4 * t + 4) mod 5"
    by (simp add: add.commute)
  moreover have "(4 * Suc t + 1) mod 5 = (4 * t) mod 5" "(4 * Suc t + 2) mod 5 = (4 * t + 1) mod 5"
    "(4 * Suc t + 3) mod 5 = (4 * t + 2) mod 5" "(4 * Suc t + 4) mod 5 = (4 * t + 3) mod 5"
    by (rule shift5, simp)+
  ultimately have roles: "(4 * Suc t) mod 5 = (4 * t + 4) mod 5" "(4 * Suc t + 1) mod 5 = (4 * t) mod 5"
    "(4 * Suc t + 2) mod 5 = (4 * t + 1) mod 5" "(4 * Suc t + 3) mod 5 = (4 * t + 2) mod 5"
    "(4 * Suc t + 4) mod 5 = (4 * t + 3) mod 5"
    .
  have next_h: "rounds_fips m (Suc t) h0 = (rol a 5 + f_fips t b c d + e + K_fips t + W m t, a, rol b 30, c, d)"
    by (simp add: h)
  show ?thesis
    unfolding run next_h sim_def prod.case roles
    using s k(2, 3) rotate_update [of r t "rol b 30" "rol a 5 + f_fips t b c d + e + K_fips t + W m t"]
    by (simp only: length_list_update add_0_right simp_thms)
qed

lemma rounds_sim:
  assumes "length h = 5" "length m = 16" "t \<le> 80"
  shows "sim m t (fold run_round (take t rounds) (h, m)) (rounds_fips m t (h ! 0, h ! 1, h ! 2, h ! 3, h ! 4))"
  using assms(3)
proof (induction t)
  case 0
  have "W m k = m ! (k mod 16)" if "k < 16" for k
    using that by (simp add: W.simps)
  then show ?case
    using assms by (simp add: sim_def numeral_2_eq_2)
next
  case (Suc t)
  then have "take (Suc t) rounds = take t rounds @ [rounds ! t]"
    by (intro take_Suc_conv_app_nth) (simp add: rounds_eq)
  moreover obtain r block where "fold run_round (take t rounds) (h, m) = (r, block)"
    by (cases "fold run_round (take t rounds) (h, m)")
  ultimately show ?case
    using Suc round_sim [of m t r block] by simp
qed

lemma transform_fips:
  assumes "length h = 5" "length m = 16"
  shows "fst (transform h m) = compress_fips h m"
    and "length (snd (transform h m)) = 16"
proof -
  obtain r block where run: "fold run_round rounds (h, m) = (r, block)"
    by (cases "fold run_round rounds (h, m)")
  obtain a b c d e where f: "rounds_fips m 80 (h ! 0, h ! 1, h ! 2, h ! 3, h ! 4) = (a, b, c, d, e)"
    by (cases "rounds_fips m 80 (h ! 0, h ! 1, h ! 2, h ! 3, h ! 4)") auto
  have "sim m 80 (r, block) (a, b, c, d, e)"
    using rounds_sim [OF assms, of 80] run f by (simp add: rounds_eq)
  then have "length r = 5" "length block = 16" "r ! 0 = a" "r ! 1 = b" "r ! 2 = c" "r ! 3 = d" "r ! 4 = e"
    by (simp_all add: sim_def)
  then have "map2 (+) h r = [h ! 0 + a, h ! 1 + b, h ! 2 + c, h ! 3 + d, h ! 4 + e]"
    using assms(1) by (intro nth_equalityI) (auto simp: less_Suc_eq numeral_eq_Suc)
  then show "fst (transform h m) = compress_fips h m"
    unfolding transform_def run compress_fips_def f by simp
  show "length (snd (transform h m)) = 16"
    using \<open>length block = 16\<close> by (simp add: transform_def run)
qed


section \<open>Streaming\<close>

lemma unat_rcat4:
  "(ucast d OR push_bit 8 (ucast c) OR push_bit 16 (ucast b) OR push_bit 24 (ucast a) :: u32)
    = of_nat (unat a * 256 ^ 3 + unat b * 256 ^ 2 + unat c * 256 + unat (d :: u8))" for a b c :: u8
proof -
  have or_add: "(x :: u32) OR y = x + y" if "x AND y = 0" for x y
    using that by (rule disjunctive_add_eq_or [symmetric])
  have "(ucast d OR push_bit 8 (ucast c) OR push_bit 16 (ucast b) OR push_bit 24 (ucast a) :: u32)
      = ucast d + (push_bit 8 (ucast c) + (push_bit 16 (ucast b) + push_bit 24 (ucast a)))"
  proof -
    have "push_bit 16 (ucast b :: u32) OR push_bit 24 (ucast a) = push_bit 16 (ucast b) + push_bit 24 (ucast a)"
      by (rule or_add, rule bit_word_eqI) (auto simp: bit_simps dest: bit_imp_le_length)
    moreover have "push_bit 8 (ucast c :: u32) OR (push_bit 16 (ucast b) OR push_bit 24 (ucast a))
        = push_bit 8 (ucast c) + (push_bit 16 (ucast b) OR push_bit 24 (ucast a))"
      by (rule or_add, rule bit_word_eqI) (auto simp: bit_simps dest: bit_imp_le_length)
    moreover have "ucast d OR (push_bit 8 (ucast c :: u32) OR (push_bit 16 (ucast b) OR push_bit 24 (ucast a)))
        = ucast d + (push_bit 8 (ucast c) OR (push_bit 16 (ucast b) OR push_bit 24 (ucast a)))"
      by (rule or_add, rule bit_word_eqI) (auto simp: bit_simps dest: bit_imp_le_length)
    ultimately show ?thesis
      by simp
  qed
  also have "\<dots> = of_nat (unat a * 256 ^ 3 + unat b * 256 ^ 2 + unat c * 256 + unat d)"
  proof -
    have "(ucast x :: u32) = of_nat (unat x)" for x :: u8
      by simp
    then show ?thesis
      by (simp only: push_bit_eq_mult of_nat_add of_nat_mult of_nat_power of_nat_numeral) simp
  qed
  finally show ?thesis .
qed

lemma make_block_be: "make_block p = be_words p"
  by (simp add: make_block_def be_words_def unat_rcat4)

lemma length_be_words [simp]: "length (be_words p) = 16"
  by (simp add: be_words_def)

lemma put_be32_be: "put_be32 v = be_bytes 4 (unat v)"
  using byte_of_word [of 24 v] byte_of_word [of 16 v] byte_of_word [of 8 v]
  by (simp add: put_be32_def byte_of_word_and be_bytes_4)

lemma map_put_be32: "map put_be32 ws = map (\<lambda>w. be_bytes 4 (unat w)) ws"
  by (simp add: put_be32_be)

lemma length_compress_fips [simp]: "length (compress_fips h m) = 5"
  by (simp add: compress_fips_def split: prod.split)

lemma length_hash_fips [simp]: "length (hash_fips msg) = 5"
proof -
  have "length h = 5 \<Longrightarrow> length (foldl compress_fips h ms) = 5" for h ms
    by (induction ms arbitrary: h) auto
  then show ?thesis
    by (simp add: hash_fips_def iv_fips_def)
qed

lemma chunks64_append:
  "length xs mod 64 = 0 \<Longrightarrow> chunks64 (xs @ ys) = chunks64 xs @ chunks64 ys"
proof (induction xs rule: chunks64.induct)
  case (1 xs)
  show ?case
  proof (cases "length xs < 64")
    case True
    then show ?thesis
      using 1 by (simp add: chunks64.simps [of "[]"])
  next
    case False
    then have "chunks64 (drop 64 xs @ ys) = chunks64 (drop 64 xs) @ chunks64 ys"
      using 1 by (simp add: mod_if)
    then show ?thesis
      using False by (simp add: chunks64.simps [of xs] chunks64.simps [of "xs @ ys"])
  qed
qed

lemma chunks64_block: "length xs = 64 \<Longrightarrow> chunks64 xs = [xs]"
  by (simp add: chunks64.simps)

lemma hash_fips_block:
  "length xs mod 64 = 0 \<Longrightarrow> length ys = 64 \<Longrightarrow> hash_fips (xs @ ys) = compress_fips (hash_fips xs) (be_words ys)"
  by (simp add: hash_fips_def chunks64_append chunks64_block)

text \<open>
  The context after a message: the digest covers the whole blocks, the buffer holds
  the rest.
\<close>

definition absorbed :: "sha1_context \<Rightarrow> bytes \<Rightarrow> bool" where
  "absorbed ctx msg \<longleftrightarrow>
     (\<exists>full rest. msg = full @ rest \<and> length full mod 64 = 0 \<and> length rest = buflen ctx \<and>
       buflen ctx < 64 \<and> length (buf ctx) = 64 \<and> take (buflen ctx) (buf ctx) = rest \<and>
       blocks ctx = of_nat (length full div 64) \<and> digest ctx = hash_fips full)"

lemma absorbedE:
  assumes "absorbed ctx msg"
  obtains full rest where "msg = full @ rest" "length full mod 64 = 0" "length rest = buflen ctx"
    "buflen ctx < 64" "length (buf ctx) = 64" "take (buflen ctx) (buf ctx) = rest"
    "blocks ctx = of_nat (length full div 64)" "digest ctx = hash_fips full"
proof -
  from assms obtain full rest where c: "msg = full @ rest \<and> length full mod 64 = 0 \<and>
      length rest = buflen ctx \<and> buflen ctx < 64 \<and> length (buf ctx) = 64 \<and>
      take (buflen ctx) (buf ctx) = rest \<and> blocks ctx = of_nat (length full div 64) \<and>
      digest ctx = hash_fips full"
    unfolding absorbed_def by (elim exE) (rule that)
  note c2 = c [THEN conjunct2]
  note c3 = c2 [THEN conjunct2]
  note c4 = c3 [THEN conjunct2]
  note c5 = c4 [THEN conjunct2]
  note c6 = c5 [THEN conjunct2]
  note c7 = c6 [THEN conjunct2]
  show ?thesis
    by (rule that [OF c [THEN conjunct1] c2 [THEN conjunct1] c3 [THEN conjunct1] c4 [THEN conjunct1]
        c5 [THEN conjunct1] c6 [THEN conjunct1] c7 [THEN conjunct1] c7 [THEN conjunct2]])
qed

lemma absorbedI:
  "length full mod 64 = 0 \<Longrightarrow> length rest = buflen ctx \<Longrightarrow> buflen ctx < 64 \<Longrightarrow> length (buf ctx) = 64
    \<Longrightarrow> take (buflen ctx) (buf ctx) = rest \<Longrightarrow> blocks ctx = of_nat (length full div 64)
    \<Longrightarrow> digest ctx = hash_fips full \<Longrightarrow> absorbed ctx (full @ rest)"
  unfolding absorbed_def by (rule exI [of _ full], rule exI [of _ rest]) (simp only: simp_thms)

lemma absorbed_init: "length (buf ctx) = 64 \<Longrightarrow> absorbed (sha1_init ctx) []"
  by (simp add: absorbed_def sha1_init_def hash_fips_def iv_fips_def chunks64.simps)

lemma absorbed_update: "absorbed ctx msg \<Longrightarrow> absorbed (sha1_update ctx p) (msg @ p)"
proof (induction ctx p arbitrary: msg rule: sha1_update.induct)
  case (1 ctx p)
  let ?n = "min (length p) (64 - buflen ctx)"
  let ?ctx = "ctx\<lparr>buf := blit (buflen ctx) (take ?n p) (buf ctx), buflen := buflen ctx + ?n\<rparr>"
  obtain full rest where a: "msg = full @ rest" "length full mod 64 = 0" "length rest = buflen ctx"
      "buflen ctx < 64" "length (buf ctx) = 64" "take (buflen ctx) (buf ctx) = rest"
      "blocks ctx = of_nat (length full div 64)" "digest ctx = hash_fips full"
    using "1.prems" by (rule absorbedE)
  have buf: "take (buflen ctx + ?n) (blit (buflen ctx) (take ?n p) (buf ctx)) = rest @ take ?n p"
    using take_drop_blit_append [of 0 "buflen ctx" "take ?n p" "buf ctx" ?n] a by simp
  show ?case
  proof (cases "buflen ?ctx = 64")
    case False
    then have n: "?n = length p"
      using a by auto
    have "absorbed ?ctx (msg @ p)"
      unfolding absorbed_def
      by (rule exI [of _ full], rule exI [of _ "rest @ p"]) (use a n buf False in auto)
    then show ?thesis
      using False by (simp add: sha1_update.simps [of ctx p] Let_def)
  next
    case True
    let ?blk = "blit (buflen ctx) (take ?n p) (buf ctx)"
    have blk: "?blk = rest @ take ?n p"
      using buf True a by simp
    let ?next = "?ctx\<lparr>buflen := 0, digest := fst (transform (digest ?ctx) (make_block (buf ?ctx))),
       blocks := blocks ?ctx + 1\<rparr>"
    have "length (rest @ take ?n p) = 64"
      using True a by auto
    moreover have "digest ?next = fst (transform (digest ctx) (make_block ?blk))"
      by simp
    ultimately have d: "digest ?next = hash_fips (full @ rest @ take ?n p)"
      unfolding blk using a by (simp only: hash_fips_block make_block_be transform_fips length_hash_fips
          length_be_words)
    have len: "length (full @ rest @ take ?n p) = length full + 64"
      using \<open>length (rest @ take ?n p) = 64\<close> by simp
    then have "length (full @ rest @ take ?n p) div 64 = length full div 64 + 1"
      by (metis div_add_self2 zero_neq_numeral)
    then have b: "blocks ?next = of_nat (length (full @ rest @ take ?n p) div 64)"
      using a(7) by simp
    have m: "length (full @ rest @ take ?n p) mod 64 = 0"
      using a(2) len by (metis mod_add_self2)
    have l: "length (buf ?next) = 64" "buflen ?next = 0"
      using a(4,5) by simp_all
    have "absorbed ?next ((full @ rest @ take ?n p) @ [])"
      by (rule absorbedI [OF m _ _ l(1) _ b d]) (simp_all only: l(2) list.size take_0 zero_less_numeral)
    then have "absorbed ?next (msg @ take ?n p)"
      by (simp only: a(1) append_assoc append_Nil2)
    then have "absorbed (sha1_update ?next (drop ?n p)) ((msg @ take ?n p) @ drop ?n p)"
      by (intro "1.IH") (use True in auto)
    moreover have "sha1_update ctx p = sha1_update ?next (drop ?n p)"
      by (subst sha1_update.simps) (simp only: Let_def True simp_thms if_False)
    moreover have "(msg @ take ?n p) @ drop ?n p = msg @ p"
      by simp
    ultimately show ?thesis
      by (simp only:)
  qed
qed

section \<open>Padding\<close>

lemma horner4:
  "(x div 256 ^ 3 mod 256) * 256 ^ 3 + (x div 256 ^ 2 mod 256) * 256 ^ 2 + (x div 256 mod 256) * 256
    + x mod 256 = x mod (256 ^ 4 :: nat)"
proof -
  have "x mod 256 ^ 4 = 256 * (x div 256 mod 256 ^ 3) + x mod 256" for x :: nat
    by (simp add: mod_mult2_eq [of x 256 "256 ^ 3", simplified])
  moreover have "x mod 256 ^ 3 = 256 * (x div 256 mod 256 ^ 2) + x mod 256" for x :: nat
    by (simp add: mod_mult2_eq [of x 256 "256 ^ 2", simplified])
  moreover have "x mod 256 ^ 2 = 256 * (x div 256 mod 256) + x mod 256" for x :: nat
    by (simp add: mod_mult2_eq [of x 256 "256", simplified])
  ultimately show ?thesis
    by (simp add: div_mult2_eq [symmetric])
qed

lemma of_nat_mod32: "(of_nat (x mod 256 ^ 4) :: u32) = of_nat x"
  by (simp add: of_nat_mod word_of_nat_eq_iff take_bit_eq_mod)

lemma be_bytes_nth: "i < 8 \<Longrightarrow> unat (be_bytes 8 L ! i) = L div 256 ^ (7 - i) mod 256"
  by (simp add: be_bytes_def unat_of_nat)

lemma be_words_nthI:
  "i < 16 \<Longrightarrow> unat (p ! (4 * i)) = a \<Longrightarrow> unat (p ! (4 * i + 1)) = b \<Longrightarrow> unat (p ! (4 * i + 2)) = c
    \<Longrightarrow> unat (p ! (4 * i + 3)) = d \<Longrightarrow> be_words p ! i = of_nat (a * 256 ^ 3 + b * 256 ^ 2 + c * 256 + d)"
  unfolding be_words_def by (subst nth_map) (simp_all del: of_nat_add of_nat_mult)

lemma be_words_length:
  assumes "length q = 56"
  shows "be_words (q @ be_bytes 8 L) ! 15 = of_nat L"
    and "be_words (q @ be_bytes 8 L) ! 14 = of_nat (L div 2 ^ 32)"
proof -
  have n: "unat ((q @ be_bytes 8 L) ! (56 + i)) = L div 256 ^ (7 - i) mod 256" if "i < 8" for i
    using that assms be_bytes_nth [of i L] by (simp add: nth_append)
  have "be_words (q @ be_bytes 8 L) ! 15
      = of_nat ((L div 256 ^ 3 mod 256) * 256 ^ 3 + (L div 256 ^ 2 mod 256) * 256 ^ 2
          + (L div 256 mod 256) * 256 + L mod 256)"
    by (rule be_words_nthI) (use n [of 4] n [of 5] n [of 6] n [of 7] in simp_all)
  then show "be_words (q @ be_bytes 8 L) ! 15 = of_nat L"
    unfolding horner4 by (simp only: of_nat_mod32)
  let ?x = "L div 2 ^ 32"
  have "L div 256 ^ 7 = ?x div 256 ^ 3" "L div 256 ^ 6 = ?x div 256 ^ 2" "L div 256 ^ 5 = ?x div 256"
    "L div 256 ^ 4 = ?x"
    by (simp_all add: div_mult2_eq [symmetric])
  moreover have "unat ((q @ be_bytes 8 L) ! 56) = L div 256 ^ 7 mod 256"
      "unat ((q @ be_bytes 8 L) ! 57) = L div 256 ^ 6 mod 256"
      "unat ((q @ be_bytes 8 L) ! 58) = L div 256 ^ 5 mod 256"
      "unat ((q @ be_bytes 8 L) ! 59) = L div 256 ^ 4 mod 256"
    subgoal using n [of 0] by simp
    subgoal using n [of 1] by simp
    subgoal using n [of 2] by simp
    subgoal using n [of 3] by simp
    done
  ultimately have n: "unat ((q @ be_bytes 8 L) ! 56) = ?x div 256 ^ 3 mod 256"
      "unat ((q @ be_bytes 8 L) ! 57) = ?x div 256 ^ 2 mod 256"
      "unat ((q @ be_bytes 8 L) ! 58) = ?x div 256 mod 256" "unat ((q @ be_bytes 8 L) ! 59) = ?x mod 256"
    by (simp_all only:)
  have "be_words (q @ be_bytes 8 L) ! 14
      = of_nat ((?x div 256 ^ 3 mod 256) * 256 ^ 3 + (?x div 256 ^ 2 mod 256) * 256 ^ 2
          + (?x div 256 mod 256) * 256 + ?x mod 256)"
  proof (rule be_words_nthI)
    have "4 * 14 = (56 :: nat)" "4 * 14 + 1 = (57 :: nat)" "4 * 14 + 2 = (58 :: nat)" "4 * 14 + 3 = (59 :: nat)"
      by simp_all
    then show "unat ((q @ be_bytes 8 L) ! (4 * 14)) = ?x div 256 ^ 3 mod 256"
      "unat ((q @ be_bytes 8 L) ! (4 * 14 + 1)) = ?x div 256 ^ 2 mod 256"
      "unat ((q @ be_bytes 8 L) ! (4 * 14 + 2)) = ?x div 256 mod 256"
      "unat ((q @ be_bytes 8 L) ! (4 * 14 + 3)) = ?x mod 256"
      using n by (simp_all only:)
  qed simp
  then show "be_words (q @ be_bytes 8 L) ! 14 = of_nat ?x"
    unfolding horner4 by (simp only: of_nat_mod32)
qed

lemma bit_mask32: "bit (0xffffffff :: int) n \<longleftrightarrow> n < 32"
proof -
  have "(0xffffffff :: int) = mask 32"
    by (simp add: mask_eq_exp_minus_1)
  then show ?thesis
    by (metis bit_mask_iff possible_bit_int)
qed

lemma total_lo: "(ucast ((of_nat L :: u64) AND 0xffffffff) :: u32) = of_nat L"
  by (rule bit_word_eqI) (auto simp: bit_simps bit_mask32)

lemma total_hi: "(ucast (drop_bit 32 (of_nat L :: u64)) :: u32) = of_nat (L div 2 ^ 32)"
proof -
  have "(ucast (drop_bit 32 (of_nat L :: u64)) :: u32) = of_nat (drop_bit 32 L)"
    by (rule bit_word_eqI) (auto simp: bit_simps)
  then show ?thesis
    by (simp only: drop_bit_eq_div)
qed

lemma last_block:
  assumes "length q = 56" "length bl = 16" "take 14 bl = take 14 (be_words (q @ z))"
  shows "bl[15 := ucast ((of_nat L :: u64) AND 0xffffffff), 14 := ucast (drop_bit 32 (of_nat L :: u64))]
    = be_words (q @ be_bytes 8 L)"
proof (rule nth_equalityI)
  fix i
  assume "i < length (bl[15 := ucast ((of_nat L :: u64) AND 0xffffffff), 14 := ucast (drop_bit 32 (of_nat L :: u64))])"
  then have "i < 16"
    using assms by simp
  then consider "i < 14" | "i = 14" | "i = 15"
    by linarith
  then show "bl[15 := ucast ((of_nat L :: u64) AND 0xffffffff), 14 := ucast (drop_bit 32 (of_nat L :: u64))] ! i
    = be_words (q @ be_bytes 8 L) ! i"
  proof cases
    case 1
    then have "bl ! i = be_words (q @ z) ! i"
      using assms(3) by (metis nth_take)
    then show ?thesis
      using 1 assms by (simp add: be_words_def nth_append)
  qed (use assms be_words_length [OF assms(1), of L] in \<open>simp_all add: total_lo total_hi\<close>)
qed (use assms in simp)


lemma make_zeros: "take 14 (be_words (replicate 56 0 @ z)) = replicate 14 0"
  by (rule nth_equalityI) (simp_all add: be_words_def nth_append)

lemma hash_fips_last:
  "length xs mod 64 = 0 \<Longrightarrow> length q = 56 \<Longrightarrow>
    hash_fips (xs @ q @ be_bytes 8 L) = compress_fips (hash_fips xs) (be_words (q @ be_bytes 8 L))"
  by (rule hash_fips_block) auto

text \<open>The buffer after the padding loop of \<open>finish\<close>.\<close>

lemma padded_buf:
  assumes "length b = 64" "k < 64" "take k b = rest" "length rest = k"
  shows "blit (k + 1) (replicate (64 - (k + 1)) 0) (b[k := 0x80]) = rest @ [0x80] @ replicate (63 - k) (0 :: u8)"
proof -
  have "b[k := 0x80] = rest @ [0x80] @ drop (Suc k) b"
    using assms by (simp add: upd_conv_take_nth_drop)
  then show ?thesis
    using assms by (simp add: blit_def)
qed

lemma sha1_finish_fips:
  assumes "absorbed ctx msg"
  shows "sha1_finish ctx = sha1_fips msg"
proof -
  let ?k = "buflen ctx" and ?L = "8 * length msg"
  obtain full rest where a: "msg = full @ rest" "length full mod 64 = 0" "length rest = ?k"
      "?k < 64" "length (buf ctx) = 64" "take ?k (buf ctx) = rest"
      "blocks ctx = of_nat (length full div 64)" "digest ctx = hash_fips full"
    using assms by (rule absorbedE)
  have "length full = 64 * (length full div 64)"
    using div_mult_mod_eq [of "length full" 64] a(2) by simp
  then have total: "(blocks ctx * 64 + of_nat ?k) * 8 = of_nat ?L"
    unfolding a(1,7) length_append a(3) by (metis (no_types, lifting) mult.commute of_nat_add of_nat_mult of_nat_numeral)
  have mod: "length msg mod 64 = ?k"
    using a by (simp add: mod_add_left_eq [of "length full" 64, symmetric])
  let ?b = "rest @ [0x80] @ replicate (63 - ?k) (0 :: u8)"
  note b = padded_buf [OF a(5) a(4) a(6) a(3)]
  show ?thesis
  proof (cases "?k + 1 > 64 - 8")
    case True
    then have k: "(119 - ?k) mod 64 = (63 - ?k) + 56"
      using a(4) by simp
    have len: "length ?b = 64"
      using a by simp
    then have "length (full @ ?b) mod 64 = 0"
      using a by simp
    moreover have "pad_fips msg = (full @ ?b) @ replicate 56 0 @ be_bytes 8 ?L"
      unfolding pad_fips_def mod k by (simp add: a(1) replicate_add)
    ultimately have "hash_fips (pad_fips msg) = compress_fips (hash_fips (full @ ?b)) (be_words (replicate 56 0 @ be_bytes 8 ?L))"
      using hash_fips_last [of "full @ ?b" "replicate 56 0" ?L] by (simp only: length_replicate)
    also have "hash_fips (full @ ?b) = compress_fips (hash_fips full) (be_words ?b)"
      using a len by (intro hash_fips_block) auto
    finally have "sha1_fips msg = concat (map put_be32 (compress_fips (compress_fips (hash_fips full) (be_words ?b))
        (be_words (replicate 56 0 @ be_bytes 8 ?L))))"
      unfolding sha1_fips_def map_put_be32 by (simp only:)
    moreover obtain d bl where tr: "transform (hash_fips full) (be_words ?b) = (d, bl)"
      by (cases "transform (hash_fips full) (be_words ?b)")
    moreover have "d = compress_fips (hash_fips full) (be_words ?b)" "length bl = 16"
      using transform_fips [of "hash_fips full" "be_words ?b"] tr by simp_all
    moreover have "(replicate 14 0 @ drop 14 bl)[15 := ucast ((of_nat ?L :: u64) AND 0xffffffff),
        14 := ucast (drop_bit 32 (of_nat ?L :: u64))] = be_words (replicate 56 0 @ be_bytes 8 ?L)"
      using \<open>length bl = 16\<close> by (intro last_block [where z = "replicate 8 0"]) (simp_all add: make_zeros)
    ultimately show ?thesis
      using True unfolding sha1_finish_def Let_def b total a(8) make_block_be
      by (simp add: transform_fips)
  next
    case False
    let ?q = "rest @ [0x80] @ replicate (55 - ?k) (0 :: u8)"
    have k: "(119 - ?k) mod 64 = 55 - ?k"
      using False by (simp add: mod_if)
    have q: "length ?q = 56" "?b = ?q @ replicate 8 0"
      using False a by (auto simp flip: replicate_add)
    have "hash_fips (pad_fips msg) = compress_fips (hash_fips full) (be_words (?q @ be_bytes 8 ?L))"
    proof -
      have "pad_fips msg = full @ ?q @ be_bytes 8 ?L"
        unfolding pad_fips_def mod k by (simp add: a(1))
      then show ?thesis
        using hash_fips_last [of full ?q ?L] a(2) q(1) by (simp only:)
    qed
    moreover have "(be_words ?b)[15 := ucast ((of_nat ?L :: u64) AND 0xffffffff),
        14 := ucast (drop_bit 32 (of_nat ?L :: u64))] = be_words (?q @ be_bytes 8 ?L)"
      using q by (intro last_block [where z = "replicate 8 0"]) simp_all
    ultimately show ?thesis
      using False unfolding sha1_finish_def Let_def b total a(8) make_block_be
      by (simp add: transform_fips sha1_fips_def map_put_be32)
  qed
qed


section \<open>Properties\<close>

text \<open>
  C28: the eighty in-place rounds over the sixteen-word circular block compute the
  compression function of FIPS 180-4, whose message schedule has eighty words.
\<close>

theorem sha1_transform_fips:
  assumes "length d = 5" "length block = 16"
  shows "fst (transform d block) = compress_fips d block"
  using assms by (rule transform_fips)

theorem sha1_transform_fips_witness:
  "fst (transform iv_fips (replicate 16 0)) = compress_fips iv_fips (replicate 16 0)"
  by (rule sha1_transform_fips) (simp_all add: iv_fips_def)

text \<open>
  C29: hashing a message in any sequence of pieces gives the SHA-1 digest of the whole
  message, whatever the context and its buffer held before \<open>init\<close>.
\<close>

theorem sha1_stream_fips:
  assumes "length (buf ctx) = 64"
  shows "sha1_finish (foldl sha1_update (sha1_init ctx) pieces) = sha1_fips (concat pieces)"
proof -
  have "absorbed c msg \<Longrightarrow> absorbed (foldl sha1_update c pieces) (msg @ concat pieces)" for c msg
  proof (induction pieces arbitrary: c msg)
    case (Cons p ps)
    then show ?case
      using absorbed_update [OF Cons.prems, of p] by fastforce
  qed simp
  from this [OF absorbed_init [OF assms]] show ?thesis
    by (simp add: sha1_finish_fips)
qed

theorem sha1_stream_fips_witness:
  "\<exists>ctx. length (buf ctx) = 64 \<and>
    sha1_finish (foldl sha1_update (sha1_init ctx) [[0x61], [], [0x62, 0x63]]) = sha1_fips [0x61, 0x62, 0x63]"
proof -
  let ?ctx = "\<lparr>buflen = 7, blocks = 9, digest = [], buf = replicate 64 0xaa\<rparr>"
  have "length (buf ?ctx) = 64"
    by simp
  moreover have "sha1_finish (foldl sha1_update (sha1_init ?ctx) [[0x61], [], [0x62, 0x63]])
      = sha1_fips [0x61, 0x62, 0x63]"
    using sha1_stream_fips [OF calculation, of "[[0x61], [], [0x62, 0x63]]"]
    by (simp only: concat.simps append_Cons append_Nil)
  ultimately show ?thesis
    by blast
qed

end
