(* ===== verification/Strings.thy ===== *)
theory Strings
  imports Prelude
begin

text \<open>
  \<open>beast/core/string.hpp\<close>: the ASCII case-insensitive comparisons.  A
  \<open>string_view\<close> passed to \<open>iequals\<close> is a pointer and a size; the pointer is
  modelled by the list of the characters readable from it on, so a read past the view
  is visible: \<open>None\<close> is a read past the readable characters.
\<close>

definition ascii_tolower :: "char \<Rightarrow> char" where
  "ascii_tolower c =
     (if (int (uchar c) - 65) mod 2 ^ 32 < 26 then char_of (uchar c + 97 - 65) else c)"

lemma ascii_tolower_eq:
  "ascii_tolower c = (if 65 \<le> uchar c \<and> uchar c \<le> 90 then char_of (uchar c + 32) else c)"
proof -
  have "(int (uchar c) - 65) mod 2 ^ 32 < 26 \<longleftrightarrow> 65 \<le> uchar c \<and> uchar c \<le> 90"
  proof (cases "65 \<le> uchar c")
    case True
    then have "0 \<le> int (uchar c) - 65" "int (uchar c) - 65 < 2 ^ 32"
      using uchar_less [of c] by auto
    then have "(int (uchar c) - 65) mod 2 ^ 32 = int (uchar c) - 65"
      by (rule mod_pos_pos_trivial)
    then show ?thesis
      using True by auto
  next
    case False
    have "(int (uchar c) - 65) mod 2 ^ 32 = (int (uchar c) - 65 + 2 ^ 32) mod 2 ^ 32"
      by (simp only: mod_add_self2)
    also have "\<dots> = int (uchar c) - 65 + 2 ^ 32"
      using False by (intro mod_pos_pos_trivial) auto
    finally show ?thesis
      using False by simp
  qed
  then show ?thesis
    by (simp add: ascii_tolower_def)
qed

text \<open>The inner \<open>do ... while(n--)\<close> loop, entered at the first mismatch.\<close>

fun iequals_slow :: "char \<Rightarrow> char \<Rightarrow> nat \<Rightarrow> string \<Rightarrow> string \<Rightarrow> bool option" where
  "iequals_slow a b n p1 p2 =
     (if ascii_tolower a \<noteq> ascii_tolower b then Some False
      else case p1 of [] \<Rightarrow> None
        | a' # p1' \<Rightarrow> (case p2 of [] \<Rightarrow> None
            | b' # p2' \<Rightarrow> (case n of 0 \<Rightarrow> Some True
                | Suc m \<Rightarrow> iequals_slow a' b' m p1' p2')))"

declare iequals_slow.simps [simp del]

fun iequals_loop :: "nat \<Rightarrow> string \<Rightarrow> string \<Rightarrow> bool option" where
  "iequals_loop 0 p1 p2 = Some True"
| "iequals_loop (Suc n) (a # p1) (b # p2) =
     (if a \<noteq> b then iequals_slow a b n p1 p2 else iequals_loop n p1 p2)"
| "iequals_loop (Suc n) p1 p2 = None"

definition iequals_view :: "string \<Rightarrow> nat \<Rightarrow> string \<Rightarrow> nat \<Rightarrow> bool option" where
  "iequals_view p1 n1 p2 n2 = (if n2 \<noteq> n1 then Some False else iequals_loop n1 p1 p2)"

text \<open>
  The comparison as the rest of the library uses it: the character after each view is
  readable (it belongs to a larger buffer, or is a string's terminator).
\<close>

definition iequals :: "string \<Rightarrow> string \<Rightarrow> bool" where
  "iequals lhs rhs =
     (iequals_view (lhs @ [char_of (0::nat)]) (length lhs) (rhs @ [char_of (0::nat)]) (length rhs)
        = Some True)"

fun iless :: "string \<Rightarrow> string \<Rightarrow> bool" where
  "iless lhs [] = False"
| "iless [] (b # rhs) = True"
| "iless (a # lhs) (b # rhs) =
     (if uchar (ascii_tolower a) < uchar (ascii_tolower b) then True
      else if uchar (ascii_tolower b) < uchar (ascii_tolower a) then False
      else iless lhs rhs)"

lemma iequals_slow_correct:
  "length p1 > n \<Longrightarrow> length p2 > n \<Longrightarrow>
    iequals_slow a b n p1 p2 =
      Some (map ascii_tolower (a # take n p1) = map ascii_tolower (b # take n p2))"
proof (induction n arbitrary: a b p1 p2)
  case 0
  then show ?case
    by (cases p1; cases p2) (auto simp: iequals_slow.simps [of a b])
next
  case (Suc n)
  then obtain a' p1' b' p2' where "p1 = a' # p1'" "p2 = b' # p2'"
    by (metis less_nat_zero_code list.exhaust list.size(3))
  then show ?case
    using Suc by (simp add: iequals_slow.simps [of a b])
qed

lemma iequals_loop_correct:
  "length p1 > n \<Longrightarrow> length p2 > n \<Longrightarrow>
    iequals_loop n p1 p2 = Some (map ascii_tolower (take n p1) = map ascii_tolower (take n p2))"
proof (induction n p1 p2 rule: iequals_loop.induct)
  case (2 n a p1 b p2)
  then show ?case
    by (cases "a = b") (simp_all add: iequals_slow_correct)
qed auto

lemma iequals_iff: "iequals lhs rhs \<longleftrightarrow> map ascii_tolower lhs = map ascii_tolower rhs"
proof (cases "length lhs = length rhs")
  case True
  then show ?thesis
    by (simp add: iequals_def iequals_view_def iequals_loop_correct)
next
  case False
  then show ?thesis
    by (auto simp: iequals_def iequals_view_def dest: map_eq_imp_length_eq)
qed

lemma iequals_refl [simp]: "iequals s s"
  by (simp add: iequals_iff)

lemma iequals_sym: "iequals s t \<longleftrightarrow> iequals t s"
  by (auto simp: iequals_iff)

lemma iequals_trans: "iequals s t \<Longrightarrow> iequals t u \<Longrightarrow> iequals s u"
  by (simp add: iequals_iff)

lemma iequals_length: "iequals s t \<Longrightarrow> length s = length t"
  by (auto simp: iequals_iff dest: map_eq_imp_length_eq)

lemma iless_map: "iless s t \<longleftrightarrow> (map (uchar \<circ> ascii_tolower) s, map (uchar \<circ> ascii_tolower) t) \<in> lexord {(x, y). x < y}"
  by (induction s t rule: iless.induct) auto

lemma iless_trans: "iless s t \<Longrightarrow> iless t u \<Longrightarrow> iless s u"
  unfolding iless_map by (rule lexord_trans) (auto simp: trans_def)

lemma iless_irrefl [simp]: "\<not> iless s s"
  by (induction s) auto

lemma iless_equiv: "(\<not> iless s t \<and> \<not> iless t s) \<longleftrightarrow> iequals s t"
proof (induction s t rule: iless.induct)
  case (1 lhs)
  then show ?case
    by (cases lhs) (auto simp: iequals_iff)
qed (auto simp: iequals_iff)

section \<open>Properties\<close>

text \<open>
  With the character after each view readable, \<open>iequals\<close> decides equality up to
  ASCII case, and \<open>iless\<close> is a strict weak order whose equivalence is
  \<open>iequals\<close>.
\<close>

theorem iequals_iless_order:
  "iequals_view (s @ [x]) (length s) (t @ [y]) (length t)
      = Some (map ascii_tolower s = map ascii_tolower t)
    \<and> \<not> iless s s
    \<and> (iless s t \<and> iless t u \<longrightarrow> iless s u)
    \<and> (iequals s t \<longleftrightarrow> \<not> iless s t \<and> \<not> iless t s)"
proof -
  have "iequals_view (s @ [x]) (length s) (t @ [y]) (length t)
      = Some (map ascii_tolower s = map ascii_tolower t)"
  proof (cases "length s = length t")
    case True
    then show ?thesis
      by (simp add: iequals_view_def iequals_loop_correct)
  next
    case False
    then show ?thesis
      by (auto simp: iequals_view_def dest: map_eq_imp_length_eq)
  qed
  then show ?thesis
    using iless_trans [of s t u] iless_equiv [of s t] by simp
qed

theorem iequals_iless_order_witness:
  "iless ''Accept'' ''allow'' \<and> iless ''allow'' ''ALPHA'' \<and> iless ''Accept'' ''ALPHA''"
proof -
  have "iless ''Accept'' ''allow''" "iless ''allow'' ''ALPHA''"
    by (simp_all add: ascii_tolower_eq uchar_def)
  then show ?thesis
    using iequals_iless_order [of "''Accept''" "CHR ''x''" "''allow''" "CHR ''x''" "''ALPHA''"]
    by blast
qed

text \<open>
  \<open>iequals\<close> reads past both views.  For any two views of the same length
  that are equal up to case but not identical, the slow loop fetches the character
  after the last one before it leaves: with nothing readable there, the model reports
  the out-of-range read.
\<close>

theorem iequals_overread:
  assumes "map ascii_tolower s = map ascii_tolower t" and "s \<noteq> t"
  shows "iequals_view s (length s) t (length t) = None"
proof -
  have slow: "iequals_slow a b (length p) p q = None"
    if "ascii_tolower a = ascii_tolower b" "map ascii_tolower p = map ascii_tolower q" for a b p q
    using that
  proof (induction p arbitrary: a b q)
    case Nil
    then show ?case
      by (simp add: iequals_slow.simps [of a b])
  next
    case (Cons x p)
    then obtain y q' where "q = y # q'" "ascii_tolower x = ascii_tolower y"
      "map ascii_tolower p = map ascii_tolower q'"
      by (cases q) auto
    then show ?case
      using Cons by (simp add: iequals_slow.simps [of a b])
  qed
  have "iequals_loop (length s) s t = None"
    using assms
  proof (induction s arbitrary: t)
    case (Cons x s)
    then obtain y t' where t: "t = y # t'"
      by (cases t) auto
    show ?case
    proof (cases "x = y")
      case True
      then show ?thesis
        using Cons t by simp
    next
      case False
      then show ?thesis
        using Cons.prems t slow [of x y s t'] by simp
    qed
  qed simp
  moreover have "length s = length t"
    using assms(1) map_eq_imp_length_eq by blast
  ultimately show ?thesis
    by (simp add: iequals_view_def)
qed

theorem iequals_overread_witness: "iequals_view ''GZIP'' 4 ''gzip'' 4 = None"
proof -
  have "map ascii_tolower ''GZIP'' = map ascii_tolower ''gzip''"
    by code_simp
  from iequals_overread [OF this] show ?thesis
    by (simp add: numeral_eq_Suc)
qed

end
