(* ===== verification/Dynamic_Buffer.thy ===== *)
theory Dynamic_Buffer
  imports Prelude
begin

text \<open>
  The DynamicBuffer concept that the parsers and the WebSocket frame writer are
  instantiated with, as an interface: what \<open>prepare\<close>, \<open>commit\<close> and
  \<open>consume\<close> promise about the readable bytes.  \<open>fill\<close> is the
  \<open>buffer_copy\<close> of a caller into the prepared output sequence \<open>out\<close>.  The
  specification is a bounded queue of bytes.
\<close>

datatype buffer_error = Length_error

section \<open>Operations of the callers\<close>

text \<open>\<open>db.commit(buffer_copy(db.prepare(n), src))\<close>, the idiom of every writer.\<close>

definition buffer_put ::
  "(nat \<Rightarrow> 'b \<Rightarrow> buffer_error + 'b) \<Rightarrow> (bytes \<Rightarrow> 'b \<Rightarrow> 'b) \<Rightarrow> (nat \<Rightarrow> 'b \<Rightarrow> 'b) \<Rightarrow>
    nat \<Rightarrow> bytes \<Rightarrow> 'b \<Rightarrow> buffer_error + 'b"
where
  "buffer_put prepare fill commit n src b =
     (case prepare n b of
        Inl e \<Rightarrow> Inl e
      | Inr b' \<Rightarrow> Inr (commit (min n (length src)) (fill src b')))"

text \<open>A client writes, up to \<open>n\<close> bytes at a time, and reads from the front.\<close>

datatype buffer_op = Put nat bytes | Consume nat

fun run_op ::
  "(nat \<Rightarrow> 'b \<Rightarrow> buffer_error + 'b) \<Rightarrow> (bytes \<Rightarrow> 'b \<Rightarrow> 'b) \<Rightarrow> (nat \<Rightarrow> 'b \<Rightarrow> 'b) \<Rightarrow> (nat \<Rightarrow> 'b \<Rightarrow> 'b) \<Rightarrow>
    buffer_op \<Rightarrow> 'b \<Rightarrow> buffer_error + 'b"
where
  "run_op prepare fill commit consume (Put n src) b = buffer_put prepare fill commit n src b"
| "run_op prepare fill commit consume (Consume n) b = Inr (consume n b)"

fun run_ops ::
  "(nat \<Rightarrow> 'b \<Rightarrow> buffer_error + 'b) \<Rightarrow> (bytes \<Rightarrow> 'b \<Rightarrow> 'b) \<Rightarrow> (nat \<Rightarrow> 'b \<Rightarrow> 'b) \<Rightarrow> (nat \<Rightarrow> 'b \<Rightarrow> 'b) \<Rightarrow>
    buffer_op list \<Rightarrow> 'b \<Rightarrow> buffer_error + 'b"
where
  "run_ops prepare fill commit consume [] b = Inr b"
| "run_ops prepare fill commit consume (x # xs) b =
     (case run_op prepare fill commit consume x b of
        Inl e \<Rightarrow> Inl e
      | Inr b' \<Rightarrow> run_ops prepare fill commit consume xs b')"

section \<open>The bounded queue\<close>

fun queue_op :: "nat \<Rightarrow> buffer_op \<Rightarrow> bytes \<Rightarrow> buffer_error + bytes" where
  "queue_op m (Put n src) q = (if m < length q + n then Inl Length_error else Inr (q @ take n src))"
| "queue_op m (Consume n) q = Inr (drop n q)"

fun queue_ops :: "nat \<Rightarrow> buffer_op list \<Rightarrow> bytes \<Rightarrow> buffer_error + bytes" where
  "queue_ops m [] q = Inr q"
| "queue_ops m (x # xs) q =
     (case queue_op m x q of Inl e \<Rightarrow> Inl e | Inr q' \<Rightarrow> queue_ops m xs q')"

section \<open>The interface\<close>

locale dynamic_buffer =
  fixes inv :: "'b \<Rightarrow> bool"
    and data :: "'b \<Rightarrow> bytes"
    and out :: "'b \<Rightarrow> bytes"
    and max_size :: "'b \<Rightarrow> nat"
    and prepare :: "nat \<Rightarrow> 'b \<Rightarrow> buffer_error + 'b"
    and fill :: "bytes \<Rightarrow> 'b \<Rightarrow> 'b"
    and commit :: "nat \<Rightarrow> 'b \<Rightarrow> 'b"
    and consume :: "nat \<Rightarrow> 'b \<Rightarrow> 'b"
  assumes prepare_error: "inv b \<Longrightarrow> max_size b < length (data b) + n \<Longrightarrow> prepare n b = Inl Length_error"
    and prepare_ok: "inv b \<Longrightarrow> length (data b) + n \<le> max_size b \<Longrightarrow>
      \<exists>b'. prepare n b = Inr b' \<and> inv b' \<and> data b' = data b \<and> length (out b') = n \<and> max_size b' = max_size b"
    and fill_laws: "inv b \<Longrightarrow> inv (fill src b) \<and> data (fill src b) = data b \<and> max_size (fill src b) = max_size b
      \<and> out (fill src b) = take (length (out b)) src @ drop (length src) (out b)"
    and commit_laws: "inv b \<Longrightarrow> inv (commit n b) \<and> data (commit n b) = data b @ take n (out b)
      \<and> max_size (commit n b) = max_size b"
    and consume_laws: "inv b \<Longrightarrow> inv (consume n b) \<and> data (consume n b) = drop n (data b)
      \<and> max_size (consume n b) = max_size b"
begin

lemma put_error:
  "inv b \<Longrightarrow> max_size b < length (data b) + n \<Longrightarrow> buffer_put prepare fill commit n src b = Inl Length_error"
  by (simp add: buffer_put_def prepare_error)

lemma put_ok:
  assumes "inv b" "length (data b) + n \<le> max_size b"
  shows "\<exists>b'. buffer_put prepare fill commit n src b = Inr b' \<and> inv b' \<and> data b' = data b @ take n src
    \<and> max_size b' = max_size b"
proof -
  obtain b1 where b1: "prepare n b = Inr b1" "inv b1" "data b1 = data b" "length (out b1) = n"
      "max_size b1 = max_size b"
    using prepare_ok [OF assms] by blast
  let ?b2 = "fill src b1"
  have b2: "inv ?b2" "data ?b2 = data b" "max_size ?b2 = max_size b" "out ?b2 = take n src @ drop (length src) (out b1)"
    using fill_laws [OF b1(2), of src] b1 by auto
  have "data (commit (min n (length src)) ?b2) = data b @ take (min n (length src)) (out ?b2)"
    using commit_laws [OF b2(1)] b2(2) by simp
  also have "take (min n (length src)) (out ?b2) = take n src"
    unfolding b2(4) by (simp add: min_def)
  finally show ?thesis
    using b1(1) b2 commit_laws [OF b2(1)] by (auto simp: buffer_put_def)
qed

lemma op_refines:
  assumes "inv b"
  shows "case run_op prepare fill commit consume x b of
      Inl e \<Rightarrow> queue_op (max_size b) x (data b) = Inl e
    | Inr b' \<Rightarrow> inv b' \<and> max_size b' = max_size b \<and> queue_op (max_size b) x (data b) = Inr (data b')"
proof (cases x)
  case (Put n src)
  then show ?thesis
    using assms put_ok [OF assms, of n src] put_error [OF assms, of n src]
    by (cases "length (data b) + n \<le> max_size b") auto
next
  case (Consume n)
  then show ?thesis
    using assms consume_laws by simp
qed

text \<open>Every provider of the interface is a bounded queue.\<close>

lemma ops_refine:
  "inv b \<Longrightarrow>
    (case run_ops prepare fill commit consume xs b of
       Inl e \<Rightarrow> queue_ops (max_size b) xs (data b) = Inl e
     | Inr b' \<Rightarrow> inv b' \<and> max_size b' = max_size b \<and> queue_ops (max_size b) xs (data b) = Inr (data b'))"
proof (induction xs arbitrary: b)
  case (Cons x xs)
  show ?case
  proof (cases "run_op prepare fill commit consume x b")
    case (Inl e)
    then show ?thesis
      using op_refines [OF Cons.prems, of x] by simp
  next
    case (Inr b')
    then have "inv b'" "max_size b' = max_size b" "queue_op (max_size b) x (data b) = Inr (data b')"
      using op_refines [OF Cons.prems, of x] by simp_all
    then show ?thesis
      using Cons.IH [of b'] Inr by (simp split: sum.splits)
  qed
qed simp

lemma ops_abs:
  assumes "inv b"
  shows "map_sum id data (run_ops prepare fill commit consume xs b) = queue_ops (max_size b) xs (data b)"
  using ops_refine [OF assms, of xs] by (auto split: sum.splits)

lemma ops_inv:
  assumes "inv b" "run_ops prepare fill commit consume xs b = Inr b'"
  shows "inv b'"
  using ops_refine [OF assms(1), of xs] assms(2) by simp

end

end
