(* ===== verification/Flat_Buffer.thy ===== *)
theory Flat_Buffer
  imports Dynamic_Buffer
begin

text \<open>
  \<open>beast/core/flat_buffer.hpp\<close> and \<open>impl/flat_buffer.ipp\<close>: one allocation that
  grows.  The allocation is the list \<open>mem\<close> (empty for a null \<open>begin_\<close>) and the
  pointers are offsets from \<open>begin_\<close>.  The bytes of a new allocation are given by the
  argument \<open>alloc\<close>, as the code does not initialise them; an allocation always succeeds.
\<close>

record flat_buffer =
  mem :: bytes
  in_pos :: nat
  out_pos :: nat
  last_pos :: nat
  limit :: nat

type_synonym allocator = "nat \<Rightarrow> nat \<Rightarrow> u8"

definition allocate :: "allocator \<Rightarrow> nat \<Rightarrow> bytes" where
  "allocate alloc n = map (alloc n) [0..<n]"

definition flat_init :: "nat \<Rightarrow> flat_buffer" where
  "flat_init lim = \<lparr>mem = [], in_pos = 0, out_pos = 0, last_pos = 0, limit = lim\<rparr>"

definition flat_size :: "flat_buffer \<Rightarrow> nat" where
  "flat_size b = out_pos b - in_pos b"

definition flat_capacity :: "flat_buffer \<Rightarrow> nat" where
  "flat_capacity b = length (mem b)"

definition flat_data :: "flat_buffer \<Rightarrow> bytes" where
  "flat_data b = take (out_pos b - in_pos b) (drop (in_pos b) (mem b))"

text \<open>The mutable buffer last returned by \<open>prepare\<close>, less what was committed.\<close>

definition flat_out :: "flat_buffer \<Rightarrow> bytes" where
  "flat_out b = take (last_pos b - out_pos b) (drop (out_pos b) (mem b))"

definition flat_prepare :: "allocator \<Rightarrow> nat \<Rightarrow> flat_buffer \<Rightarrow> buffer_error + flat_buffer" where
  "flat_prepare alloc n b =
     (if n \<le> length (mem b) - out_pos b then Inr (b\<lparr>last_pos := out_pos b + n\<rparr>)
      else let len = flat_size b in
        if n \<le> flat_capacity b - len then
          let m = (if len > 0 then blit 0 (flat_data b) (mem b) else mem b)
          in Inr (b\<lparr>mem := m, in_pos := 0, out_pos := len, last_pos := len + n\<rparr>)
        else if n > limit b - len then Inl Length_error
        else let new_size = min (limit b) (max (2 * len) (len + n));
                 p = allocate alloc new_size;
                 p = (if mem b \<noteq> [] then blit 0 (flat_data b) p else p)
          in Inr (b\<lparr>mem := p, in_pos := 0, out_pos := len, last_pos := len + n\<rparr>))"

text \<open>What a caller copies into the prepared buffer.\<close>

definition flat_fill :: "bytes \<Rightarrow> flat_buffer \<Rightarrow> flat_buffer" where
  "flat_fill src b = b\<lparr>mem := blit (out_pos b) (take (last_pos b - out_pos b) src) (mem b)\<rparr>"

definition flat_commit :: "nat \<Rightarrow> flat_buffer \<Rightarrow> flat_buffer" where
  "flat_commit n b = b\<lparr>out_pos := out_pos b + min n (last_pos b - out_pos b)\<rparr>"

definition flat_consume :: "nat \<Rightarrow> flat_buffer \<Rightarrow> flat_buffer" where
  "flat_consume n b =
     (if n \<ge> out_pos b - in_pos b then b\<lparr>in_pos := 0, out_pos := 0\<rparr>
      else b\<lparr>in_pos := in_pos b + n\<rparr>)"

definition flat_shrink_to_fit :: "allocator \<Rightarrow> flat_buffer \<Rightarrow> flat_buffer" where
  "flat_shrink_to_fit alloc b =
     (let len = flat_size b in
      if len = flat_capacity b then b
      else let p = (if len > 0 then blit 0 (flat_data b) (allocate alloc len) else [])
        in b\<lparr>mem := p, in_pos := 0, out_pos := len, last_pos := len\<rparr>)"

definition flat_reset :: "allocator \<Rightarrow> flat_buffer \<Rightarrow> flat_buffer" where
  "flat_reset alloc b = flat_shrink_to_fit alloc (flat_consume (flat_size b) b)"

text \<open>\<open>copy_from\<close> takes the bytes of the other buffer.\<close>

definition flat_copy_from :: "allocator \<Rightarrow> bytes \<Rightarrow> flat_buffer \<Rightarrow> buffer_error + flat_buffer" where
  "flat_copy_from alloc other b =
     (if length other = 0 then Inr b
      else buffer_put (flat_prepare alloc) flat_fill flat_commit (length other) other b)"

text \<open>Copy assignment, with both allocator propagation traits.\<close>

definition flat_copy_assign :: "allocator \<Rightarrow> flat_buffer \<Rightarrow> flat_buffer \<Rightarrow> buffer_error + flat_buffer" where
  "flat_copy_assign alloc other b =
     flat_copy_from alloc (flat_data other) ((flat_reset alloc b)\<lparr>limit := limit other\<rparr>)"

text \<open>Move construction and assignment: the new buffer and what is left of the other.\<close>

definition flat_move :: "flat_buffer \<Rightarrow> flat_buffer \<times> flat_buffer" where
  "flat_move other =
     (other\<lparr>last_pos := out_pos other\<rparr>,
      other\<lparr>mem := [], in_pos := 0, out_pos := 0, last_pos := 0\<rparr>)"

section \<open>Invariant\<close>

definition flat_inv :: "flat_buffer \<Rightarrow> bool" where
  "flat_inv b \<longleftrightarrow> in_pos b \<le> out_pos b \<and> out_pos b \<le> last_pos b \<and> last_pos b \<le> length (mem b)
     \<and> length (mem b) \<le> limit b"

lemma length_allocate [simp]: "length (allocate alloc n) = n"
  by (simp add: allocate_def)

lemma flat_inv_init: "flat_inv (flat_init lim)"
  by (simp add: flat_inv_def flat_init_def)

lemma length_flat_data: "flat_inv b \<Longrightarrow> length (flat_data b) = out_pos b - in_pos b"
  by (auto simp: flat_inv_def flat_data_def)

lemma take_blit_0: "length src \<le> length m \<Longrightarrow> take (length src) (blit 0 src m) = src"
  using drop_blit_at [of 0 src m] by simp

lemma flat_prepare_error:
  "flat_inv b \<Longrightarrow> limit b < length (flat_data b) + n \<Longrightarrow> flat_prepare alloc n b = Inl Length_error"
proof -
  assume b: "flat_inv b" and n: "limit b < length (flat_data b) + n"
  then have "\<not> n \<le> length (mem b) - out_pos b" "\<not> n \<le> length (mem b) - (out_pos b - in_pos b)"
      "n > limit b - (out_pos b - in_pos b)"
    unfolding length_flat_data [OF b] flat_inv_def by linarith+
  then show ?thesis
    unfolding flat_prepare_def flat_size_def flat_capacity_def Let_def
    by (simp only: if_False if_True)
qed

text \<open>After a move to the front of an area, old or new.\<close>

lemma flat_front:
  assumes "take len m = flat_data b" "len + n \<le> length m" "length m \<le> limit b"
  defines "b' \<equiv> b\<lparr>mem := m, in_pos := 0, out_pos := len, last_pos := len + n\<rparr>"
  shows "flat_inv b' \<and> flat_data b' = flat_data b \<and> length (flat_out b') = n \<and> limit b' = limit b"
  using assms(1-3) unfolding b'_def by (simp add: flat_inv_def flat_data_def [of "b\<lparr>mem := m, in_pos := 0, out_pos := len, last_pos := len + n\<rparr>"] flat_out_def)

lemma blit_front:
  "length d = len \<Longrightarrow> len \<le> length m \<Longrightarrow>
    take len (if P then blit 0 d m else m) = (if P then d else take len m) \<and>
    length (if P then blit 0 d m else m) = length m"
  using take_blit_0 [of d m] by simp

lemma flat_data_empty: "flat_inv b \<Longrightarrow> out_pos b - in_pos b = 0 \<or> mem b = [] \<Longrightarrow> flat_data b = []"
  by (auto simp: flat_data_def)

lemma flat_prepare_ok:
  assumes b: "flat_inv b" and n: "length (flat_data b) + n \<le> limit b"
  shows "\<exists>b'. flat_prepare alloc n b = Inr b' \<and> flat_inv b' \<and> flat_data b' = flat_data b
    \<and> length (flat_out b') = n \<and> limit b' = limit b"
proof -
  let ?len = "out_pos b - in_pos b"
  have len: "length (flat_data b) = ?len"
    using b by (rule length_flat_data)
  have pos: "in_pos b \<le> out_pos b" "out_pos b \<le> last_pos b" "last_pos b \<le> length (mem b)" "length (mem b) \<le> limit b"
    using b by (simp_all add: flat_inv_def)
  consider (fits) "n \<le> length (mem b) - out_pos b"
    | (slide) "\<not> n \<le> length (mem b) - out_pos b" "n \<le> length (mem b) - ?len"
    | (grow) "\<not> n \<le> length (mem b) - out_pos b" "\<not> n \<le> length (mem b) - ?len"
    by blast
  then show ?thesis
  proof cases
    case fits
    let ?b = "b\<lparr>last_pos := out_pos b + n\<rparr>"
    have "flat_prepare alloc n b = Inr ?b"
      using fits by (simp only: flat_prepare_def if_True)
    moreover have "flat_inv ?b"
      using pos fits by (simp add: flat_inv_def)
    moreover have "flat_data ?b = flat_data b" "length (flat_out ?b) = n"
      using pos fits by (simp_all add: flat_data_def flat_out_def)
    ultimately show ?thesis
      by simp
  next
    case slide
    let ?m = "if ?len > 0 then blit 0 (flat_data b) (mem b) else mem b"
    have m: "take ?len ?m = flat_data b" "length ?m = length (mem b)"
      using blit_front [OF len, of "mem b" "?len > 0"] pos flat_data_empty [OF b] by auto
    have "?len + n \<le> length ?m" "length ?m \<le> limit b"
      using slide pos m by simp_all
    note front = flat_front [OF m(1) this]
    have "flat_prepare alloc n b = Inr (b\<lparr>mem := ?m, in_pos := 0, out_pos := ?len, last_pos := ?len + n\<rparr>)"
      using slide by (simp only: flat_prepare_def flat_size_def flat_capacity_def Let_def if_True if_False)
    then show ?thesis
      using front by blast
  next
    case grow
    define new where "new = min (limit b) (max (2 * ?len) (?len + n))"
    let ?p = "if mem b \<noteq> [] then blit 0 (flat_data b) (allocate alloc new) else allocate alloc new"
    have new: "?len + n \<le> new" "new \<le> limit b"
      using n len by (auto simp: new_def)
    then have "?len \<le> length (allocate alloc new)"
      by simp
    then have p: "take ?len ?p = flat_data b" "length ?p = new"
      using blit_front [OF len, of "allocate alloc new" "mem b \<noteq> []"] flat_data_empty [OF b] len by auto
    have "?len + n \<le> length ?p" "length ?p \<le> limit b"
      using new p by simp_all
    note front = flat_front [OF p(1) this]
    have "\<not> n > limit b - ?len"
      using n len by linarith
    then have "flat_prepare alloc n b = Inr (b\<lparr>mem := ?p, in_pos := 0, out_pos := ?len, last_pos := ?len + n\<rparr>)"
      using grow by (simp only: flat_prepare_def flat_size_def flat_capacity_def Let_def if_False new_def)
    then show ?thesis
      using front by blast
  qed
qed

lemma flat_fill_laws:
  assumes "flat_inv b"
  shows "flat_inv (flat_fill src b) \<and> flat_data (flat_fill src b) = flat_data b \<and> limit (flat_fill src b) = limit b
    \<and> flat_out (flat_fill src b) = take (length (flat_out b)) src @ drop (length src) (flat_out b)"
proof -
  have pos: "in_pos b \<le> out_pos b" "out_pos b \<le> last_pos b" "last_pos b \<le> length (mem b)" "length (mem b) \<le> limit b"
    using assms by (simp_all add: flat_inv_def)
  then have "length (flat_out b) = last_pos b - out_pos b"
    by (simp add: flat_out_def)
  then show ?thesis
    using pos blit_out [OF pos(1-3), of src] by (simp add: flat_fill_def flat_inv_def flat_data_def flat_out_def)
qed

lemma flat_commit_laws:
  assumes "flat_inv b"
  shows "flat_inv (flat_commit n b) \<and> flat_data (flat_commit n b) = flat_data b @ take n (flat_out b)
    \<and> limit (flat_commit n b) = limit b"
proof -
  have pos: "in_pos b \<le> out_pos b" "out_pos b \<le> last_pos b" "last_pos b \<le> length (mem b)" "length (mem b) \<le> limit b"
    using assms by (simp_all add: flat_inv_def)
  let ?k = "min n (last_pos b - out_pos b)"
  have "take (out_pos b + ?k - in_pos b) (drop (in_pos b) (mem b))
      = take (out_pos b - in_pos b) (drop (in_pos b) (mem b)) @ take ?k (drop (out_pos b) (mem b))"
    using pos take_add [of "out_pos b - in_pos b" ?k "drop (in_pos b) (mem b)"] by simp
  then show ?thesis
    using pos by (simp add: flat_commit_def flat_inv_def flat_data_def flat_out_def)
qed

lemma flat_consume_laws:
  assumes "flat_inv b"
  shows "flat_inv (flat_consume n b) \<and> flat_data (flat_consume n b) = drop n (flat_data b)
    \<and> limit (flat_consume n b) = limit b"
  using assms by (auto simp: flat_consume_def flat_inv_def flat_data_def drop_take add.commute)

interpretation flat: dynamic_buffer flat_inv flat_data flat_out limit "flat_prepare alloc" flat_fill flat_commit flat_consume
  by unfold_locales (use flat_prepare_error flat_prepare_ok flat_fill_laws flat_commit_laws flat_consume_laws in blast)+


section \<open>Reallocation, copies and moves\<close>

lemma flat_shrink_laws:
  assumes "flat_inv b"
  shows "flat_inv (flat_shrink_to_fit alloc b) \<and> flat_data (flat_shrink_to_fit alloc b) = flat_data b
    \<and> flat_capacity (flat_shrink_to_fit alloc b) = length (flat_data b)
    \<and> limit (flat_shrink_to_fit alloc b) = limit b"
proof (cases "flat_size b = flat_capacity b")
  case True
  then show ?thesis
    using assms length_flat_data [OF assms] by (simp add: flat_shrink_to_fit_def flat_size_def)
next
  case False
  let ?len = "out_pos b - in_pos b"
  let ?p = "if ?len > 0 then blit 0 (flat_data b) (allocate alloc ?len) else []"
  have len: "length (flat_data b) = ?len"
    using assms by (rule length_flat_data)
  have p: "take ?len ?p = flat_data b" "length ?p = ?len"
    using len take_blit_0 [of "flat_data b" "allocate alloc ?len"] by auto
  have "?len + 0 \<le> length ?p" "length ?p \<le> limit b"
    using p assms by (auto simp: flat_inv_def)
  note front = flat_front [OF p(1) this]
  have "flat_shrink_to_fit alloc b = b\<lparr>mem := ?p, in_pos := 0, out_pos := ?len, last_pos := ?len + 0\<rparr>"
    using False by (simp add: flat_shrink_to_fit_def flat_size_def Let_def)
  then show ?thesis
    using front p len by (simp add: flat_capacity_def)
qed

lemma flat_reset_laws:
  assumes "flat_inv b"
  shows "flat_inv (flat_reset alloc b) \<and> flat_data (flat_reset alloc b) = [] \<and> mem (flat_reset alloc b) = []"
proof -
  have "flat_inv (flat_consume (flat_size b) b)" "flat_data (flat_consume (flat_size b) b) = []"
    using flat_consume_laws [OF assms, of "flat_size b"] length_flat_data [OF assms] by (simp_all add: flat_size_def)
  then show ?thesis
    using flat_shrink_laws [of "flat_consume (flat_size b) b" alloc] by (simp add: flat_reset_def flat_capacity_def)
qed

lemma flat_copy_laws:
  assumes "flat_inv b" "flat_inv other"
  shows "\<exists>b'. flat_copy_assign alloc other b = Inr b' \<and> flat_inv b' \<and> flat_data b' = flat_data other
    \<and> limit b' = limit other"
proof -
  let ?b = "(flat_reset alloc b)\<lparr>limit := limit other\<rparr>"
  have b: "flat_inv ?b" "flat_data ?b = []"
    using flat_reset_laws [OF assms(1), of alloc] by (auto simp: flat_inv_def flat_data_def)
  show ?thesis
  proof (cases "flat_data other = []")
    case True
    then show ?thesis
      using b by (simp add: flat_copy_assign_def flat_copy_from_def)
  next
    case False
    have "length (flat_data ?b) + length (flat_data other) \<le> limit ?b"
      using assms(2) b by (auto simp: length_flat_data flat_inv_def)
    from flat.put_ok [OF b(1) this, of alloc "flat_data other"] show ?thesis
      using False b by (simp add: flat_copy_assign_def flat_copy_from_def)
  qed
qed

section \<open>Properties\<close>

text \<open>
  C32: whatever a client does with a new buffer, it reads from it what it would read from
  a queue of bytes bounded by the limit, across the moves and the reallocations of
  \<open>prepare\<close>, and gets a length error exactly when the queue would overflow.
\<close>

theorem flat_buffer_refines:
  "map_sum id flat_data (run_ops (flat_prepare alloc) flat_fill flat_commit flat_consume ops (flat_init lim))
    = queue_ops lim ops []"
  using flat.ops_abs [OF flat_inv_init, of alloc ops lim] by (simp add: flat_init_def flat_data_def)

text \<open>
  Copy assignment never overflows and gives the readable bytes and the limit of the
  other buffer; a move leaves an empty buffer behind; both results satisfy the invariant.
\<close>

theorem flat_buffer_copy_move:
  assumes "flat_inv b" "flat_inv other"
  shows "(\<exists>b'. flat_copy_assign alloc other b = Inr b' \<and> flat_inv b' \<and> flat_data b' = flat_data other
      \<and> limit b' = limit other)
    \<and> (case flat_move other of (to, src) \<Rightarrow> flat_inv to \<and> flat_inv src \<and> flat_data to = flat_data other
      \<and> flat_data src = [] \<and> flat_out to = [])"
proof
  show "case flat_move other of (to, src) \<Rightarrow> flat_inv to \<and> flat_inv src \<and> flat_data to = flat_data other
      \<and> flat_data src = [] \<and> flat_out to = []"
    using assms(2) by (auto simp: flat_move_def flat_inv_def flat_data_def flat_out_def)
qed (rule flat_copy_laws [OF assms])

theorem flat_buffer_copy_move_witness:
  "\<exists>b'. flat_copy_assign (\<lambda>_ _. 0) \<lparr>mem = [1, 2, 3], in_pos = 1, out_pos = 3, last_pos = 3, limit = 9\<rparr> (flat_init 0) = Inr b'
    \<and> flat_data b' = [2, 3]"
proof -
  have "flat_inv (flat_init 0)"
    by (rule flat_inv_init)
  moreover have "flat_inv \<lparr>mem = [1, 2, 3], in_pos = 1, out_pos = 3, last_pos = 3, limit = 9\<rparr>"
    by (simp add: flat_inv_def)
  ultimately show ?thesis
    using flat_buffer_copy_move [of "flat_init 0" "\<lparr>mem = [1, 2, 3], in_pos = 1, out_pos = 3, last_pos = 3, limit = 9\<rparr>"
        "\<lambda>_ _. 0"] by (auto simp: flat_data_def)
qed

text \<open>
  \<open>consume\<close> resets the input pointers but not \<open>last_\<close>.  Once the output
  sequence has been committed whole, so that it is empty, and the buffer consumed whole, a
  \<open>commit\<close> with no \<open>prepare\<close> makes bytes that were consumed readable again.
\<close>

theorem flat_buffer_stale_commit:
  assumes "flat_inv b" "out_pos b = last_pos b"
  shows "flat_out b = [] \<and>
    flat_data (flat_commit n (flat_consume (flat_size b) b)) = take n (take (last_pos b) (mem b))"
  using assms by (auto simp: flat_inv_def flat_out_def flat_data_def flat_commit_def flat_consume_def flat_size_def
      min_def)

theorem flat_buffer_stale_commit_witness:
  "flat_data (flat_commit 2 (flat_consume 3 \<lparr>mem = [1, 2, 3], in_pos = 0, out_pos = 3, last_pos = 3, limit = 9\<rparr>)) = [1, 2]"
  using flat_buffer_stale_commit [of "\<lparr>mem = [1, 2, 3], in_pos = 0, out_pos = 3, last_pos = 3, limit = 9\<rparr>" 2]
  by (simp add: flat_inv_def flat_size_def)

end
