(* ===== verification/Static_Buffer.thy ===== *)
theory Static_Buffer
  imports Dynamic_Buffer
begin

text \<open>
  \<open>beast/core/static_buffer.hpp\<close> and \<open>impl/static_buffer.ipp\<close>: a circular
  buffer over storage of a fixed size.  A buffer sequence of two is a list of spans of the
  storage, an offset and a length each.
\<close>

record static_buffer =
  ring :: bytes
  in_off :: nat
  in_size :: nat
  out_size :: nat

definition sb_init :: "bytes \<Rightarrow> static_buffer" where
  "sb_init p = \<lparr>ring = p, in_off = 0, in_size = 0, out_size = 0\<rparr>"

definition sb_capacity :: "static_buffer \<Rightarrow> nat" where
  "sb_capacity b = length (ring b)"

definition sb_data_spans :: "static_buffer \<Rightarrow> (nat \<times> nat) list" where
  "sb_data_spans b =
     (if in_off b + in_size b \<le> sb_capacity b then [(in_off b, in_size b), (0, 0)]
      else [(in_off b, sb_capacity b - in_off b), (0, in_size b - (sb_capacity b - in_off b))])"

text \<open>The spans that \<open>prepare\<close> returns for the output sequence.\<close>

definition sb_out_spans :: "static_buffer \<Rightarrow> (nat \<times> nat) list" where
  "sb_out_spans b =
     (let out_off = (in_off b + in_size b) mod sb_capacity b in
      if out_off + out_size b \<le> sb_capacity b then [(out_off, out_size b), (0, 0)]
      else [(out_off, sb_capacity b - out_off), (0, out_size b - (sb_capacity b - out_off))])"

definition sb_prepare :: "nat \<Rightarrow> static_buffer \<Rightarrow> buffer_error + static_buffer" where
  "sb_prepare n b =
     (if n > sb_capacity b - in_size b then Inl Length_error else Inr (b\<lparr>out_size := n\<rparr>))"

definition sb_commit :: "nat \<Rightarrow> static_buffer \<Rightarrow> static_buffer" where
  "sb_commit n b = b\<lparr>in_size := in_size b + min n (out_size b), out_size := 0\<rparr>"

definition sb_consume :: "nat \<Rightarrow> static_buffer \<Rightarrow> static_buffer" where
  "sb_consume n b =
     (if n < in_size b then b\<lparr>in_off := (in_off b + n) mod sb_capacity b, in_size := in_size b - n\<rparr>
      else b\<lparr>in_off := 0, in_size := 0\<rparr>)"

text \<open>The bytes of a buffer sequence, and \<open>buffer_copy\<close> into one.\<close>

definition gather :: "(nat \<times> nat) list \<Rightarrow> bytes \<Rightarrow> bytes" where
  "gather spans m = concat (map (\<lambda>(off, n). take n (drop off m)) spans)"

fun scatter :: "bytes \<Rightarrow> (nat \<times> nat) list \<Rightarrow> bytes \<Rightarrow> bytes" where
  "scatter src [] m = m"
| "scatter src ((off, n) # spans) m = scatter (drop n src) spans (blit off (take n src) m)"

definition sb_data :: "static_buffer \<Rightarrow> bytes" where
  "sb_data b = gather (sb_data_spans b) (ring b)"

definition sb_out :: "static_buffer \<Rightarrow> bytes" where
  "sb_out b = gather (sb_out_spans b) (ring b)"

definition sb_fill :: "bytes \<Rightarrow> static_buffer \<Rightarrow> static_buffer" where
  "sb_fill src b = b\<lparr>ring := scatter src (sb_out_spans b) (ring b)\<rparr>"

section \<open>Windows of the ring\<close>

definition window :: "nat \<Rightarrow> nat \<Rightarrow> bytes \<Rightarrow> bytes" where
  "window off n m = map (\<lambda>i. m ! ((off + i) mod length m)) [0..<n]"

lemma length_window [simp]: "length (window off n m) = n"
  by (simp add: window_def)

lemma window_0 [simp]: "window off 0 m = []"
  by (simp add: window_def)

lemma nth_window [simp]: "i < n \<Longrightarrow> window off n m ! i = m ! ((off + i) mod length m)"
  by (simp add: window_def)

lemma window_add: "window off (n + k) m = window off n m @ window (off + n) k m"
  by (rule nth_equalityI) (auto simp: nth_append add.assoc)

lemma window_mod: "window (off mod length m) n m = window off n m"
  by (rule nth_equalityI) (simp_all add: mod_add_left_eq)

lemma take_window: "take k (window off n m) = window off (min k n) m"
  by (rule nth_equalityI) auto

lemma drop_window: "drop k (window off n m) = window (off + k) (n - k) m"
  by (rule nth_equalityI) (auto simp: add.assoc)

definition spans :: "nat \<Rightarrow> nat \<Rightarrow> nat \<Rightarrow> (nat \<times> nat) list" where
  "spans cap off n = (if off + n \<le> cap then [(off, n), (0, 0)] else [(off, cap - off), (0, n - (cap - off))])"

lemma gather_window:
  assumes "off < length m" "n \<le> length m"
  shows "gather (spans (length m) off n) m = window off n m"
proof (cases "off + n \<le> length m")
  case True
  then have "gather (spans (length m) off n) m = take n (drop off m)"
    by (simp add: gather_def spans_def)
  also have "\<dots> = window off n m"
    by (rule nth_equalityI) (use True in auto)
  finally show ?thesis .
next
  case False
  let ?k = "length m - off"
  have "gather (spans (length m) off n) m = drop off m @ take (n - ?k) m"
    using False assms by (simp add: gather_def spans_def)
  also have "\<dots> = window off n m"
  proof (rule nth_equalityI)
    fix i
    assume "i < length (drop off m @ take (n - ?k) m)"
    then have i: "i < n"
      using assms False by simp
    show "(drop off m @ take (n - ?k) m) ! i = window off n m ! i"
    proof (cases "i < ?k")
      case True
      then show ?thesis
        using i assms by (simp add: nth_append)
    next
      case out: False
      then have "off + i = (i - ?k) + length m" "i - ?k < length m"
        using i assms by auto
      then have "(off + i) mod length m = i - ?k"
        by (metis mod_add_self2 mod_less)
      then show ?thesis
        using i out assms by (simp add: nth_append)
    qed
  qed (use False assms in simp)
  finally show ?thesis .
qed

lemma length_scatter: "\<forall>(off, n)\<in>set sp. off \<le> length m \<Longrightarrow> length (scatter src sp m) = length m"
  by (induction src sp m rule: scatter.induct) auto

lemma nth_blit:
  "off + length src \<le> length m \<Longrightarrow> j < length m \<Longrightarrow>
    blit off src m ! j = (if off \<le> j \<and> j < off + length src then src ! (j - off) else m ! j)"
  by (auto simp: blit_def nth_append min_def)

text \<open>A byte of the ring after \<open>buffer_copy\<close>, by its distance from the offset.\<close>

lemma nth_scatter:
  assumes "off < length m" "n \<le> length m" "i < length m"
  shows "scatter src (spans (length m) off n) m ! ((off + i) mod length m)
    = (if i < min n (length src) then src ! i else m ! ((off + i) mod length m))"
proof (cases "off + n \<le> length m")
  case True
  then have sc: "scatter src (spans (length m) off n) m = blit off (take n src) m"
    by (simp add: spans_def)
  show ?thesis
    using True assms unfolding sc by (cases "off + i < length m") (auto simp: nth_blit mod_if)
next
  case False
  let ?k = "length m - off"
  let ?m = "blit off (take ?k src) m"
  have sc: "scatter src (spans (length m) off n) m = blit 0 (take (n - ?k) (drop ?k src)) ?m"
    using False by (simp add: spans_def)
  have len: "length ?m = length m"
    using assms by simp
  show ?thesis
    using False assms unfolding sc by (cases "off + i < length m") (auto simp: nth_blit mod_if len)
qed

lemma window_scatter:
  assumes "off < length m" "n \<le> length m"
  shows "window off n (scatter src (spans (length m) off n) m)
    = take n src @ drop (length src) (window off n m)"
    and "length (scatter src (spans (length m) off n) m) = length m"
proof -
  show len: "length (scatter src (spans (length m) off n) m) = length m"
    using assms by (intro length_scatter) (auto simp: spans_def)
  show "window off n (scatter src (spans (length m) off n) m) = take n src @ drop (length src) (window off n m)"
    by (rule nth_equalityI) (use assms in \<open>auto simp: len nth_scatter nth_append\<close>)
qed

text \<open>The part of the ring before the offset keeps its bytes.\<close>

lemma window_scatter_before:
  assumes "off < length m" "k + n \<le> length m" "(o' + k) mod length m = off"
  shows "window o' k (scatter src (spans (length m) off n) m) = window o' k m"
proof (rule nth_equalityI)
  have len: "length (scatter src (spans (length m) off n) m) = length m"
    using window_scatter(2) assms by simp
  fix i
  assume "i < length (window o' k (scatter src (spans (length m) off n) m))"
  then have i: "i < k"
    by simp
  let ?j = "length m - k + i"
  have "o' + k + ?j = o' + i + length m"
    using i assms(2) by simp
  then have "(o' + k + ?j) mod length m = (o' + i) mod length m"
    by (simp only: mod_add_self2)
  then have "(off + ?j) mod length m = (o' + i) mod length m"
    unfolding assms(3) [symmetric] by (simp only: mod_add_left_eq)
  moreover have "?j < length m" "\<not> ?j < min n (length src)"
    using i assms(2) by auto
  moreover have "n \<le> length m"
    using assms(2) by simp
  ultimately have "scatter src (spans (length m) off n) m ! ((o' + i) mod length m) = m ! ((o' + i) mod length m)"
    using nth_scatter [of off m n ?j src] assms(1) by (simp only: if_False)
  then show "window o' k (scatter src (spans (length m) off n) m) ! i = window o' k m ! i"
    using i by (simp add: len)
qed simp

section \<open>Invariant\<close>

definition sb_inv :: "static_buffer \<Rightarrow> bool" where
  "sb_inv b \<longleftrightarrow> 0 < length (ring b) \<and> in_off b < length (ring b) \<and> in_size b + out_size b \<le> length (ring b)"

lemma sb_inv_init: "p \<noteq> [] \<Longrightarrow> sb_inv (sb_init p)"
  by (simp add: sb_inv_def sb_init_def)

lemma sb_data_window: "sb_inv b \<Longrightarrow> sb_data b = window (in_off b) (in_size b) (ring b)"
  using gather_window [of "in_off b" "ring b" "in_size b"]
  by (auto simp: sb_data_def sb_data_spans_def spans_def sb_capacity_def sb_inv_def)

lemma sb_out_spans_eq:
  "sb_out_spans b = spans (length (ring b)) ((in_off b + in_size b) mod length (ring b)) (out_size b)"
  by (simp add: sb_out_spans_def spans_def sb_capacity_def Let_def)

lemma sb_out_window: "sb_inv b \<Longrightarrow> sb_out b = window (in_off b + in_size b) (out_size b) (ring b)"
  unfolding sb_out_def sb_out_spans_eq by (subst gather_window) (auto simp: sb_inv_def window_mod)

lemma sb_prepare_error: "sb_inv b \<Longrightarrow> sb_capacity b < length (sb_data b) + n \<Longrightarrow> sb_prepare n b = Inl Length_error"
  by (auto simp: sb_prepare_def sb_data_window sb_inv_def sb_capacity_def)

lemma sb_prepare_ok:
  assumes "sb_inv b" "length (sb_data b) + n \<le> sb_capacity b"
  shows "\<exists>b'. sb_prepare n b = Inr b' \<and> sb_inv b' \<and> sb_data b' = sb_data b \<and> length (sb_out b') = n
    \<and> sb_capacity b' = sb_capacity b"
proof -
  have n: "in_size b + n \<le> length (ring b)"
    using assms by (simp add: sb_data_window sb_capacity_def)
  then have "sb_prepare n b = Inr (b\<lparr>out_size := n\<rparr>)" "sb_inv (b\<lparr>out_size := n\<rparr>)"
    using assms(1) by (auto simp: sb_prepare_def sb_capacity_def sb_inv_def)
  then show ?thesis
    using assms(1) by (simp add: sb_data_window sb_out_window sb_capacity_def)
qed

lemma sb_fill_laws:
  assumes "sb_inv b"
  shows "sb_inv (sb_fill src b) \<and> sb_data (sb_fill src b) = sb_data b \<and> sb_capacity (sb_fill src b) = sb_capacity b
    \<and> sb_out (sb_fill src b) = take (length (sb_out b)) src @ drop (length src) (sb_out b)"
proof -
  let ?m = "ring b" and ?off = "(in_off b + in_size b) mod length (ring b)"
  have off: "?off < length ?m" "out_size b \<le> length ?m" "in_size b + out_size b \<le> length ?m"
    using assms by (auto simp: sb_inv_def)
  note w = window_scatter [OF off(1,2), of src] and before = window_scatter_before [OF off(1,3) refl, of src]
  have fill: "sb_fill src b = b\<lparr>ring := scatter src (spans (length ?m) ?off (out_size b)) ?m\<rparr>"
    by (simp add: sb_fill_def sb_out_spans_eq)
  have inv: "sb_inv (sb_fill src b)"
    using assms w(2) by (simp add: fill sb_inv_def)
  have "sb_out (sb_fill src b) = window (in_off b + in_size b) (out_size b) (scatter src (spans (length ?m) ?off (out_size b)) ?m)"
    using sb_out_window [OF inv] by (simp add: fill)
  also have "\<dots> = window ?off (out_size b) (scatter src (spans (length ?m) ?off (out_size b)) ?m)"
    using window_mod [of "in_off b + in_size b" "scatter src (spans (length ?m) ?off (out_size b)) ?m"] w(2) by simp
  finally have "sb_out (sb_fill src b) = take (out_size b) src @ drop (length src) (sb_out b)"
    using w(1) by (simp add: sb_out_window assms window_mod)
  moreover have "sb_data (sb_fill src b) = sb_data b"
    using sb_data_window [OF inv] before by (simp add: fill sb_data_window assms)
  ultimately show ?thesis
    using inv w(2) assms by (simp add: sb_out_window fill sb_capacity_def)
qed

lemma sb_commit_laws:
  assumes "sb_inv b"
  shows "sb_inv (sb_commit n b) \<and> sb_data (sb_commit n b) = sb_data b @ take n (sb_out b)
    \<and> sb_capacity (sb_commit n b) = sb_capacity b"
proof -
  have inv: "sb_inv (sb_commit n b)"
    using assms by (auto simp: sb_inv_def sb_commit_def)
  have "sb_data (sb_commit n b) = window (in_off b) (in_size b + min n (out_size b)) (ring b)"
    using sb_data_window [OF inv] by (simp add: sb_commit_def)
  then show ?thesis
    using inv assms by (simp add: window_add sb_data_window sb_out_window take_window sb_commit_def sb_capacity_def)
qed

lemma sb_consume_laws:
  assumes "sb_inv b"
  shows "sb_inv (sb_consume n b) \<and> sb_data (sb_consume n b) = drop n (sb_data b)
    \<and> sb_capacity (sb_consume n b) = sb_capacity b"
proof -
  have inv: "sb_inv (sb_consume n b)"
    using assms by (auto simp: sb_inv_def sb_consume_def sb_capacity_def)
  show ?thesis
    using inv assms by (auto simp: sb_data_window drop_window sb_consume_def sb_capacity_def window_mod)
qed

interpretation sb: dynamic_buffer sb_inv sb_data sb_out sb_capacity sb_prepare sb_fill sb_commit sb_consume
  by unfold_locales (use sb_prepare_error sb_prepare_ok sb_fill_laws sb_commit_laws sb_consume_laws in blast)+

section \<open>Properties\<close>

text \<open>
  C38: over storage of at least one byte the circular buffer is a queue of bytes bounded by
  the size of the storage, across the wrap-around of its spans, and its offset and sizes
  stay within the storage.
\<close>

theorem static_buffer_refines:
  assumes "p \<noteq> []"
  shows "map_sum id sb_data (run_ops sb_prepare sb_fill sb_commit sb_consume ops (sb_init p)) = queue_ops (length p) ops []
   \<and> (\<forall>b. run_ops sb_prepare sb_fill sb_commit sb_consume ops (sb_init p) = Inr b \<longrightarrow>
        in_off b < length (ring b) \<and> in_size b + out_size b \<le> length (ring b))"
  using sb.ops_abs [OF sb_inv_init [OF assms], of ops] sb.ops_inv [OF sb_inv_init [OF assms], of ops]
  by (simp add: sb_data_window sb_inv_init assms) (simp add: sb_init_def sb_capacity_def sb_inv_def window_def)

theorem static_buffer_refines_witness:
  "map_sum id sb_data (run_ops sb_prepare sb_fill sb_commit sb_consume
      [Put 3 [1, 2, 3], Consume 2, Put 3 [4, 5, 6]] (sb_init [0, 0, 0, 0])) = Inr [3, 4, 5, 6]"
  using static_buffer_refines [of "[0, 0, 0, 0]" "[Put 3 [1, 2, 3], Consume 2, Put 3 [4, 5, 6]]"] by simp

end
