(* ===== verification/Utf8_Checker.thy ===== *)
theory Utf8_Checker
  imports Prelude
begin

text \<open>
  \<open>beast/websocket/detail/utf8_checker.hpp\<close>: the incremental UTF-8 validator of
  WebSocket text messages.  A pointer with the end of its buffer is the list of the bytes
  left; a read past it is the verdict \<open>Overread\<close>, and a write past the four bytes of
  the checker is \<open>Overwrite\<close>.  The address that the fast path aligns is an argument,
  and \<open>sizeof(std::size_t)\<close> is eight.
\<close>

datatype verdict = Valid | Invalid | Overread | Overwrite

record utf8_checker =
  need :: nat
  pos :: nat   \<comment> \<open>\<open>p_ - cp_\<close>\<close>
  cp :: bytes

definition utf8_reset :: "utf8_checker \<Rightarrow> utf8_checker" where
  "utf8_reset c = c\<lparr>need := 0, pos := 0\<rparr>"

definition utf8_finish :: "utf8_checker \<Rightarrow> bool \<times> utf8_checker" where
  "utf8_finish c = (need c = 0, utf8_reset c)"

section \<open>One code point\<close>

definition rd :: "bytes \<Rightarrow> nat \<Rightarrow> (u8 \<Rightarrow> verdict + nat) \<Rightarrow> verdict + nat" where
  "rd p i f = (if i < length p then f (p ! i) else Inl Overread)"

text \<open>The lambda \<open>valid\<close>: the number of bytes to advance, or a verdict.\<close>

definition valid :: "bytes \<Rightarrow> verdict + nat" where
  "valid p = rd p 0 (\<lambda>a.
     if a < 128 then Inr 1
     else if a AND 0xe0 = 0xc0 then
       rd p 1 (\<lambda>b. if b AND 0xc0 \<noteq> 0x80 \<or> a AND 0xfe = 0xc0 then Inl Invalid else Inr 2)
     else if a AND 0xf0 = 0xe0 then
       rd p 1 (\<lambda>b. if b AND 0xc0 \<noteq> 0x80 then Inl Invalid
         else rd p 2 (\<lambda>c. if c AND 0xc0 \<noteq> 0x80 \<or> (a = 0xe0 \<and> b AND 0xe0 = 0x80)
             \<or> (a = 0xed \<and> b AND 0xe0 = 0xa0) then Inl Invalid
           else Inr 3))
     else if a AND 0xf8 = 0xf0 then
       rd p 1 (\<lambda>b. if b AND 0xc0 \<noteq> 0x80 then Inl Invalid
         else rd p 2 (\<lambda>c. if c AND 0xc0 \<noteq> 0x80 then Inl Invalid
           else rd p 3 (\<lambda>d. if d AND 0xc0 \<noteq> 0x80 \<or> (a = 0xf0 \<and> b AND 0xf0 = 0x80)
               \<or> (a = 0xf4 \<and> b > 0x8f) \<or> a > 0xf4 then Inl Invalid
             else Inr 4)))
     else Inl Invalid)"

definition needed :: "u8 \<Rightarrow> nat" where
  "needed v = (if v < 128 then 1 else if v < 192 then 0 else if v < 224 then 2
     else if v < 240 then 3 else if v < 248 then 4 else 0)"

text \<open>
  The lambda \<open>fail_fast\<close> completes the code point with \<open>0x81\<close> and validates it;
  the \<open>default\<close> label asserts, and without assertions falls into case one.
\<close>

definition fail_fast :: "utf8_checker \<Rightarrow> verdict \<times> utf8_checker" where
  "fail_fast c =
     (let b = (if pos c = 3 then (cp c)[3 := 0x81]
               else if pos c = 2 then (cp c)[2 := 0x81, 3 := 0x81]
               else (cp c)[1 := 0x81, 2 := 0x81, 3 := 0x81])
      in (case valid b of Inl v \<Rightarrow> v | Inr _ \<Rightarrow> Valid, c\<lparr>cp := b\<rparr>))"

section \<open>The loops of write\<close>

text \<open>
  Where a loop over ASCII leaves: at a byte that is not ASCII it jumps to \<open>slow\<close>, at
  its end it goes on, or it has read past the buffer.
\<close>

datatype loop_exit = Goto_slow bytes | Goes_on bytes | Reads_past

text \<open>The aligning loop looks at the next \<open>k\<close> bytes, one at a time.\<close>

fun align_loop :: "nat \<Rightarrow> bytes \<Rightarrow> loop_exit" where
  "align_loop 0 p = Goes_on p"
| "align_loop (Suc k) [] = Reads_past"
| "align_loop (Suc k) (b # p) = (if b AND 0x80 \<noteq> 0 then Goto_slow (b # p) else align_loop k p)"

text \<open>The fast loop loads eight bytes at a time and tests their high bits.\<close>

definition load_word :: "bytes \<Rightarrow> bytes option" where
  "load_word p = (if 8 \<le> length p then Some (take 8 p) else None)"

function fast_loop :: "bytes \<Rightarrow> loop_exit" where
  "fast_loop p =
     (if 7 < length p
      then case load_word p of
        None \<Rightarrow> Reads_past
      | Some w \<Rightarrow> if \<exists>b\<in>set w. b AND 0x80 \<noteq> 0 then Goto_slow p else fast_loop (drop 8 p)
      else Goes_on p)"
  by auto
termination by (relation "measure length") auto

text \<open>\<open>while(n--) *p_++ = *in++\<close>, into the array of the checker.\<close>

definition save_bytes :: "nat \<Rightarrow> bytes \<Rightarrow> utf8_checker \<Rightarrow> verdict + utf8_checker" where
  "save_bytes n p c =
     (if n > length p then Inl Overread
      else if pos c + n > length (cp c) then Inl Overwrite
      else Inr (c\<lparr>cp := blit (pos c) (take n p) (cp c), pos := pos c + n\<rparr>))"

lemma valid_advances: "valid p = Inr k \<Longrightarrow> 0 < k \<and> k \<le> length p"
  by (auto simp: valid_def rd_def Suc_le_eq split: if_splits)

text \<open>The loop after it and the loop at \<open>slow\<close>: full validation while four bytes are left.\<close>

function slow_loop :: "bytes \<Rightarrow> verdict + bytes" where
  "slow_loop p =
     (if 3 < length p
      then case valid p of Inl v \<Rightarrow> Inl v | Inr k \<Rightarrow> slow_loop (drop k p)
      else Inr p)"
  by auto
termination by (relation "measure length") (auto dest: valid_advances)

function tail_loop :: "bytes \<Rightarrow> utf8_checker \<Rightarrow> verdict \<times> utf8_checker" where
  "tail_loop p c =
     (if p = [] then (Valid, c)
      else let n = needed (hd p) in
        if n = 0 then (Invalid, c)
        else if n \<le> length p
          then case valid p of Inl v \<Rightarrow> (v, c) | Inr k \<Rightarrow> tail_loop (drop k p) c
        else case save_bytes (length p) p (c\<lparr>need := n - length p\<rparr>) of
          Inl v \<Rightarrow> (v, c)
        | Inr c \<Rightarrow> fail_fast c)"
  by auto
termination by (relation "measure (\<lambda>(p, c). length p)") (auto dest: valid_advances)

declare fast_loop.simps [simp del] slow_loop.simps [simp del] tail_loop.simps [simp del]

definition slow_part :: "bytes \<Rightarrow> utf8_checker \<Rightarrow> verdict \<times> utf8_checker" where
  "slow_part p c = (case slow_loop p of Inl v \<Rightarrow> (v, c) | Inr p \<Rightarrow> tail_loop p c)"

text \<open>From the test of the size on, at address \<open>addr\<close>.\<close>

definition write_whole :: "nat \<Rightarrow> bytes \<Rightarrow> utf8_checker \<Rightarrow> verdict \<times> utf8_checker" where
  "write_whole addr p c =
     (if length p \<le> 8 then slow_part p c
      else case align_loop ((addr + 8 - 1) div 8 * 8 - addr) p of
        Reads_past \<Rightarrow> (Overread, c)
      | Goto_slow p \<Rightarrow> slow_part p c
      | Goes_on p \<Rightarrow> (case fast_loop p of
          Reads_past \<Rightarrow> (Overread, c)
        | Goto_slow p \<Rightarrow> slow_part p c
        | Goes_on p \<Rightarrow> slow_part p c))"

definition utf8_write :: "nat \<Rightarrow> bytes \<Rightarrow> utf8_checker \<Rightarrow> verdict \<times> utf8_checker" where
  "utf8_write addr p c =
     (if need c > 0 then
        let n = min (length p) (need c) in
        case save_bytes n p (c\<lparr>need := need c - n\<rparr>) of
          Inl v \<Rightarrow> (v, c)
        | Inr c \<Rightarrow>
            if need c > 0 then fail_fast c
            else case valid (cp c) of Inl v \<Rightarrow> (v, c)
              | Inr _ \<Rightarrow> write_whole (addr + n) (drop n p) (c\<lparr>pos := 0\<rparr>)
      else write_whole addr p c)"

text \<open>\<open>write\<close> of a buffer sequence: each buffer with its address.\<close>

fun utf8_write_buffers :: "(nat \<times> bytes) list \<Rightarrow> utf8_checker \<Rightarrow> verdict \<times> utf8_checker" where
  "utf8_write_buffers [] c = (Valid, c)"
| "utf8_write_buffers ((addr, p) # bs) c =
     (case utf8_write addr p c of
        (Valid, c') \<Rightarrow> utf8_write_buffers bs c'
      | (v, c') \<Rightarrow> (v, c'))"

text \<open>The constructed checker; \<open>b\<close> is what the temporary array held.\<close>

definition utf8_init :: "bytes \<Rightarrow> utf8_checker" where
  "utf8_init b = \<lparr>need = 0, pos = 0, cp = b\<rparr>"

definition check_utf8 :: "bytes \<Rightarrow> nat \<Rightarrow> bytes \<Rightarrow> bool" where
  "check_utf8 b addr p =
     (case utf8_write addr p (utf8_init b) of
        (Valid, c) \<Rightarrow> fst (utf8_finish c)
      | _ \<Rightarrow> False)"

text \<open>A message that arrives in several buffers, and its end.\<close>

definition check_buffers :: "bytes \<Rightarrow> (nat \<times> bytes) list \<Rightarrow> bool" where
  "check_buffers b bufs =
     (case utf8_write_buffers bufs (utf8_init b) of
        (Valid, c) \<Rightarrow> fst (utf8_finish c)
      | _ \<Rightarrow> False)"

section \<open>Well-formed UTF-8\<close>

text \<open>The Unicode standard's table 3-7 of well-formed byte sequences.\<close>

abbreviation trail :: "u8 \<Rightarrow> bool" where
  "trail b \<equiv> 0x80 \<le> b \<and> b \<le> 0xbf"

fun wf1 :: "bytes \<Rightarrow> bool" where
  "wf1 [a] = (a \<le> 0x7f)"
| "wf1 [a, b] = (0xc2 \<le> a \<and> a \<le> 0xdf \<and> trail b)"
| "wf1 [a, b, c] = (trail c \<and>
     (a = 0xe0 \<and> 0xa0 \<le> b \<and> b \<le> 0xbf \<or> 0xe1 \<le> a \<and> a \<le> 0xec \<and> trail b \<or>
      a = 0xed \<and> 0x80 \<le> b \<and> b \<le> 0x9f \<or> 0xee \<le> a \<and> a \<le> 0xef \<and> trail b))"
| "wf1 [a, b, c, d] = (trail c \<and> trail d \<and>
     (a = 0xf0 \<and> 0x90 \<le> b \<and> b \<le> 0xbf \<or> 0xf1 \<le> a \<and> a \<le> 0xf3 \<and> trail b \<or>
      a = 0xf4 \<and> 0x80 \<le> b \<and> b \<le> 0x8f))"
| "wf1 _ = False"

inductive utf8 :: "bytes \<Rightarrow> bool" where
  empty: "utf8 []"
| code_point: "wf1 s \<Longrightarrow> utf8 xs \<Longrightarrow> utf8 (s @ xs)"


section \<open>Bytes as numbers\<close>

lemma unat_and_not_mask:
  assumes "c = NOT (mask k :: u8)"
  shows "unat (a AND c) = 2 ^ k * (unat a div 2 ^ k)"
proof -
  have "a AND c = push_bit k (drop_bit k a)"
    unfolding assms by (rule bit_word_eqI) (auto simp: bit_simps)
  then have "a AND c = a - take_bit k a"
    by (metis add_diff_cancel_right' bits_ident)
  moreover have mod: "unat (take_bit k a) = unat a mod 2 ^ k"
    by (simp only: unsigned_take_bit_eq) (simp only: take_bit_eq_mod)
  ultimately have "unat (a AND c) = unat a - unat a mod 2 ^ k"
    by (simp add: unat_sub word_le_nat_alt)
  then show ?thesis
    by (simp add: minus_mod_eq_mult_div)
qed

lemma u8_masks:
  "unat (a AND 0xfe :: u8) = 2 * (unat a div 2)" "unat (a AND 0xf8 :: u8) = 8 * (unat a div 8)"
  "unat (a AND 0xf0 :: u8) = 16 * (unat a div 16)" "unat (a AND 0xe0 :: u8) = 32 * (unat a div 32)"
  "unat (a AND 0xc0 :: u8) = 64 * (unat a div 64)" 
  using unat_and_not_mask [of "0xfe" 1 a] unat_and_not_mask [of "0xf8" 3 a] unat_and_not_mask [of "0xf0" 4 a]
    unat_and_not_mask [of "0xe0" 5 a] unat_and_not_mask [of "0xc0" 6 a]
  by (simp_all add: mask_eq_exp_minus_1 not_eq_complement)

lemma block_iff_gen:
  assumes "0 < k"
  shows "k * (n div k) = k * q \<longleftrightarrow> k * q \<le> n \<and> n < k * q + (k :: nat)"
proof
  assume "k * (n div k) = k * q"
  then show "k * q \<le> n \<and> n < k * q + k"
    using assms mult_div_mod_eq [of k n] mod_less_divisor [of k n] by linarith
next
  assume "k * q \<le> n \<and> n < k * q + k"
  then have "n div k = q"
    by (intro div_nat_eqI) (auto simp: algebra_simps)
  then show "k * (n div k) = k * q"
    by simp
qed

lemma block_iff: "(32 * (n div 32) = 192) \<longleftrightarrow> 192 \<le> n \<and> n < (224 :: nat)"
  "(16 * (n div 16) = 224) \<longleftrightarrow> 224 \<le> n \<and> n < (240 :: nat)"
  "(8 * (n div 8) = 240) \<longleftrightarrow> 240 \<le> n \<and> n < (248 :: nat)"
  "(64 * (n div 64) = 128) \<longleftrightarrow> 128 \<le> n \<and> n < (192 :: nat)"
  "(2 * (n div 2) = 192) \<longleftrightarrow> 192 \<le> n \<and> n < (194 :: nat)"
  "(32 * (n div 32) = 128) \<longleftrightarrow> 128 \<le> n \<and> n < (160 :: nat)"
  "(32 * (n div 32) = 160) \<longleftrightarrow> 160 \<le> n \<and> n < (192 :: nat)"
  "(16 * (n div 16) = 128) \<longleftrightarrow> 128 \<le> n \<and> n < (144 :: nat)"
  using block_iff_gen [of 32 n 6] block_iff_gen [of 16 n 14] block_iff_gen [of 8 n 30]
    block_iff_gen [of 64 n 2] block_iff_gen [of 2 n 96] block_iff_gen [of 32 n 4]
    block_iff_gen [of 32 n 5] block_iff_gen [of 16 n 8]
  by simp_all

lemma u8_classes:
  "a AND 0xe0 = 0xc0 \<longleftrightarrow> 192 \<le> unat a \<and> unat a < 224"
  "a AND 0xf0 = 0xe0 \<longleftrightarrow> 224 \<le> unat a \<and> unat a < 240"
  "a AND 0xf8 = 0xf0 \<longleftrightarrow> 240 \<le> unat a \<and> unat a < 248"
  "a AND 0xc0 = 0x80 \<longleftrightarrow> 128 \<le> unat a \<and> unat a < 192"
  "a AND 0xfe = 0xc0 \<longleftrightarrow> 192 \<le> unat a \<and> unat a < 194"
  "a AND 0xe0 = 0x80 \<longleftrightarrow> 128 \<le> unat a \<and> unat a < 160"
  "a AND 0xe0 = 0xa0 \<longleftrightarrow> 160 \<le> unat a \<and> unat a < 192"
  "a AND 0xf0 = 0x80 \<longleftrightarrow> 128 \<le> unat a \<and> unat a < 144"
  for a :: u8
  unfolding word_unat_eq_iff u8_masks by (simp_all add: block_iff)

text \<open>Every comparison of bytes becomes one of natural numbers.\<close>

lemmas u8_nat = word_less_nat_alt word_le_nat_alt word_unat_eq_iff

lemma valid_nat:
  "valid p = rd p 0 (\<lambda>a.
     if unat a < 128 then Inr 1
     else if 192 \<le> unat a \<and> unat a < 224 then
       rd p 1 (\<lambda>b. if \<not> (128 \<le> unat b \<and> unat b < 192) \<or> 192 \<le> unat a \<and> unat a < 194
         then Inl Invalid else Inr 2)
     else if 224 \<le> unat a \<and> unat a < 240 then
       rd p 1 (\<lambda>b. if \<not> (128 \<le> unat b \<and> unat b < 192) then Inl Invalid
         else rd p 2 (\<lambda>c. if \<not> (128 \<le> unat c \<and> unat c < 192) \<or> (unat a = 224 \<and> 128 \<le> unat b \<and> unat b < 160)
             \<or> (unat a = 237 \<and> 160 \<le> unat b \<and> unat b < 192) then Inl Invalid
           else Inr 3))
     else if 240 \<le> unat a \<and> unat a < 248 then
       rd p 1 (\<lambda>b. if \<not> (128 \<le> unat b \<and> unat b < 192) then Inl Invalid
         else rd p 2 (\<lambda>c. if \<not> (128 \<le> unat c \<and> unat c < 192) then Inl Invalid
           else rd p 3 (\<lambda>d. if \<not> (128 \<le> unat d \<and> unat d < 192) \<or> (unat a = 240 \<and> 128 \<le> unat b \<and> unat b < 144)
               \<or> (unat a = 244 \<and> 143 < unat b) \<or> 244 < unat a then Inl Invalid
             else Inr 4)))
     else Inl Invalid)"
proof -
  have lits: "(a < 128) = (unat a < 128)" "(a = 0xe0) = (unat a = 224)" "(a = 0xed) = (unat a = 237)"
    "(a = 0xf0) = (unat a = 240)" "(a = 0xf4) = (unat a = 244)" "(0x8f < a) = (143 < unat a)"
    "(0xf4 < a) = (244 < unat a)" for a :: u8
    by (simp_all add: u8_nat)
  show ?thesis
    unfolding valid_def u8_classes unfolding lits by (rule refl)
qed

lemma wf1_nat:
  "wf1 [a] \<longleftrightarrow> unat a < 128"
  "wf1 [a, b] \<longleftrightarrow> 194 \<le> unat a \<and> unat a < 224 \<and> 128 \<le> unat b \<and> unat b < 192"
  "wf1 [a, b, c] \<longleftrightarrow> 224 \<le> unat a \<and> unat a < 240 \<and> 128 \<le> unat b \<and> unat b < 192
     \<and> 128 \<le> unat c \<and> unat c < 192 \<and> \<not> (unat a = 224 \<and> unat b < 160) \<and> \<not> (unat a = 237 \<and> 160 \<le> unat b)"
  "wf1 [a, b, c, d] \<longleftrightarrow> 240 \<le> unat a \<and> unat a \<le> 244 \<and> 128 \<le> unat b \<and> unat b < 192
     \<and> 128 \<le> unat c \<and> unat c < 192 \<and> 128 \<le> unat d \<and> unat d < 192
     \<and> \<not> (unat a = 240 \<and> unat b < 144) \<and> \<not> (unat a = 244 \<and> 143 < unat b)"
proof -
  have le: "0x80 \<le> b \<longleftrightarrow> 128 \<le> unat b" "b \<le> 0xbf \<longleftrightarrow> unat b < 192" for b :: u8
    by (auto simp: u8_nat)
  show "wf1 [a] \<longleftrightarrow> unat a < 128"
    "wf1 [a, b] \<longleftrightarrow> 194 \<le> unat a \<and> unat a < 224 \<and> 128 \<le> unat b \<and> unat b < 192"
    by (auto simp: u8_nat)
  have "(0xa0 \<le> b) = (160 \<le> unat b)" "(b \<le> 0x9f) = (unat b < 160)" "(a = 0xe0) = (unat a = 224)"
    "(a = 0xed) = (unat a = 237)" "(0xe1 \<le> a) = (225 \<le> unat a)" "(a \<le> 0xec) = (unat a \<le> 236)"
    "(0xee \<le> a) = (238 \<le> unat a)" "(a \<le> 0xef) = (unat a < 240)"
    by (auto simp: u8_nat)
  then have iff: "wf1 [a, b, c] \<longleftrightarrow> (128 \<le> unat c \<and> unat c < 192) \<and>
     (unat a = 224 \<and> 160 \<le> unat b \<and> unat b < 192 \<or>
      225 \<le> unat a \<and> unat a \<le> 236 \<and> 128 \<le> unat b \<and> unat b < 192 \<or>
      unat a = 237 \<and> 128 \<le> unat b \<and> unat b < 160 \<or>
      238 \<le> unat a \<and> unat a < 240 \<and> 128 \<le> unat b \<and> unat b < 192)"
    by (simp only: wf1.simps le)
  consider "unat a < 224" | "unat a = 224" | "225 \<le> unat a" "unat a \<le> 236" | "unat a = 237"
      | "238 \<le> unat a" "unat a < 240" | "240 \<le> unat a"
    by linarith
  then show "wf1 [a, b, c] \<longleftrightarrow> 224 \<le> unat a \<and> unat a < 240 \<and> 128 \<le> unat b \<and> unat b < 192
     \<and> 128 \<le> unat c \<and> unat c < 192 \<and> \<not> (unat a = 224 \<and> unat b < 160) \<and> \<not> (unat a = 237 \<and> 160 \<le> unat b)"
    unfolding iff by cases auto
  have "(0x90 \<le> b) = (144 \<le> unat b)" "(b \<le> 0x8f) = (unat b \<le> 143)" "(a = 0xf0) = (unat a = 240)"
    "(a = 0xf4) = (unat a = 244)" "(0xf1 \<le> a) = (241 \<le> unat a)" "(a \<le> 0xf3) = (unat a \<le> 243)"
    by (auto simp: u8_nat)
  then have iff: "wf1 [a, b, c, d] \<longleftrightarrow> (128 \<le> unat c \<and> unat c < 192) \<and> (128 \<le> unat d \<and> unat d < 192) \<and>
     (unat a = 240 \<and> 144 \<le> unat b \<and> unat b < 192 \<or>
      241 \<le> unat a \<and> unat a \<le> 243 \<and> 128 \<le> unat b \<and> unat b < 192 \<or>
      unat a = 244 \<and> 128 \<le> unat b \<and> unat b \<le> 143)"
    by (simp only: wf1.simps le)
  consider "unat a < 240" | "unat a = 240" | "241 \<le> unat a" "unat a \<le> 243" | "unat a = 244"
      | "244 < unat a"
    by linarith
  then show "wf1 [a, b, c, d] \<longleftrightarrow> 240 \<le> unat a \<and> unat a \<le> 244 \<and> 128 \<le> unat b \<and> unat b < 192
     \<and> 128 \<le> unat c \<and> unat c < 192 \<and> 128 \<le> unat d \<and> unat d < 192
     \<and> \<not> (unat a = 240 \<and> unat b < 144) \<and> \<not> (unat a = 244 \<and> 143 < unat b)"
    unfolding iff by cases auto
qed

declare wf1.simps [simp del]

lemma not_wf1_Nil [simp]: "\<not> wf1 []"
  by (simp add: wf1.simps)

section \<open>One code point against the table\<close>

lemma needed_ranges:
  "needed a = 1 \<longleftrightarrow> unat a < 128"
  "needed a = 2 \<longleftrightarrow> 192 \<le> unat a \<and> unat a < 224"
  "needed a = 3 \<longleftrightarrow> 224 \<le> unat a \<and> unat a < 240"
  "needed a = 4 \<longleftrightarrow> 240 \<le> unat a \<and> unat a < 248"
  "needed a = 0 \<longleftrightarrow> 128 \<le> unat a \<and> unat a < 192 \<or> 248 \<le> unat a"
  by (auto simp: needed_def u8_nat)

lemma wf1_length: "wf1 s \<Longrightarrow> s \<noteq> [] \<and> length s = needed (hd s)"
proof (cases s rule: wf1.cases)
  case (1 a)
  then show "wf1 s \<Longrightarrow> ?thesis"
    using needed_ranges(1) [of a] by (simp add: wf1_nat)
next
  case (2 a b)
  then show "wf1 s \<Longrightarrow> ?thesis"
    using needed_ranges(2) [of a] by (simp add: wf1_nat)
next
  case (3 a b c)
  then show "wf1 s \<Longrightarrow> ?thesis"
    using needed_ranges(3) [of a] by (simp add: wf1_nat)
next
  case (4 a b c d)
  then show "wf1 s \<Longrightarrow> ?thesis"
    using needed_ranges(4) [of a] by (simp add: wf1_nat)
qed (simp_all add: wf1.simps)

lemma valid_cases_01:
  "needed a = 1 \<Longrightarrow> valid (a # p) = Inr 1"
  "needed a = 0 \<Longrightarrow> valid (a # p) = Inl Invalid"
  by (simp_all only: needed_ranges) (auto simp: valid_nat rd_def split del: if_split)

lemma valid_cases_2:
  "needed a = 2 \<Longrightarrow> valid (a # b # p) = (if wf1 [a, b] then Inr 2 else Inl Invalid)"
  unfolding needed_ranges wf1_nat by (simp add: valid_nat rd_def)

lemma valid_cases_3:
  "needed a = 3 \<Longrightarrow> valid (a # b # c # p) = (if wf1 [a, b, c] then Inr 3 else Inl Invalid)"
  unfolding needed_ranges wf1_nat by (simp add: valid_nat rd_def)

lemma valid_cases_4:
  "needed a = 4 \<Longrightarrow> valid (a # b # c # d # p) = (if wf1 [a, b, c, d] then Inr 4 else Inl Invalid)"
  unfolding needed_ranges wf1_nat by (simp add: valid_nat rd_def)

lemmas valid_cases = valid_cases_01 valid_cases_2 valid_cases_3 valid_cases_4

lemma needed_le_4: "needed a \<le> 4"
  by (simp add: needed_def)

lemma needed_1_wf1: "needed a = 1 \<Longrightarrow> wf1 [a]"
  using needed_ranges(1) [of a] by (simp add: wf1_nat)

lemma valid_iff:
  assumes "p \<noteq> []" "needed (hd p) \<le> length p"
  shows "valid p = (if wf1 (take (needed (hd p)) p) then Inr (needed (hd p)) else Inl Invalid)"
proof -
  obtain a q where p: "p = a # q"
    using assms(1) by (cases p) auto
  consider "needed a = 0" | "needed a = 1" | "needed a = 2" | "needed a = 3" | "needed a = 4"
    using needed_le_4 [of a] by linarith
  then show ?thesis
  proof cases
    case 3
    then obtain b q' where "q = b # q'"
      using assms p by (cases q) auto
    then show ?thesis
      using 3 p by (simp add: valid_cases numeral_2_eq_2)
  next
    case 4
    then obtain b c q' where "q = b # c # q'"
      using assms p by (auto simp: numeral_3_eq_3 Suc_le_length_iff)
    then show ?thesis
      using 4 p by (simp add: valid_cases numeral_3_eq_3)
  next
    case 5
    then obtain b c d q' where "q = b # c # d # q'"
      using assms p by (auto simp: eval_nat_numeral(2,3) numeral_eq_Suc Suc_le_length_iff)
    then show ?thesis
      using 5 p by (simp add: valid_cases numeral_eq_Suc)
  qed (use p needed_1_wf1 in \<open>simp_all add: valid_cases\<close>)
qed

section \<open>A reference scanner\<close>

text \<open>
  Takes whole code points off the front: \<open>None\<close> for an ill-formed one, or the
  incomplete code point that is left.
\<close>

function scan :: "bytes \<Rightarrow> bytes option" where
  "scan xs =
     (if xs = [] then Some []
      else let k = needed (hd xs) in
        if k = 0 then None
        else if k \<le> length xs then if wf1 (take k xs) then scan (drop k xs) else None
        else Some xs)"
  by auto
termination by (relation "measure length") auto

declare scan.simps [simp del]

lemma scan_Nil [simp]: "scan [] = Some []"
  by (simp add: scan.simps)

lemma scan_step:
  "xs \<noteq> [] \<Longrightarrow> needed (hd xs) \<le> length xs \<Longrightarrow>
    scan xs = (if wf1 (take (needed (hd xs)) xs) then scan (drop (needed (hd xs)) xs) else None)"
  by (subst scan.simps) (auto simp: Let_def)

lemma scan_partial: "xs \<noteq> [] \<Longrightarrow> length xs < needed (hd xs) \<Longrightarrow> scan xs = Some xs"
  by (subst scan.simps) (simp add: Let_def)

lemma scan_wf1: "wf1 s \<Longrightarrow> scan (s @ xs) = scan xs"
proof -
  assume "wf1 s"
  then have s: "s \<noteq> []" "needed (hd s) = length s"
    using wf1_length by auto
  then have "take (needed (hd (s @ xs))) (s @ xs) = s" "drop (needed (hd (s @ xs))) (s @ xs) = xs"
    by simp_all
  then show ?thesis
    using scan_step [of "s @ xs"] s \<open>wf1 s\<close> by simp
qed

lemma scan_append: "scan (xs @ ys) = (case scan xs of None \<Rightarrow> None | Some r \<Rightarrow> scan (r @ ys))"
proof (induction xs rule: scan.induct)
  case (1 xs)
  show ?case
  proof (cases "xs = [] \<or> length xs < needed (hd xs)")
    case True
    then show ?thesis
      by (cases "xs = []") (simp_all add: scan_partial)
  next
    case False
    then have "scan (xs @ ys) = (if wf1 (take (needed (hd xs)) xs)
        then scan (drop (needed (hd xs)) xs @ ys) else None)"
      using scan_step [of "xs @ ys"] by simp
    then show ?thesis
      using False 1 scan_step [of xs] by (cases "needed (hd xs) = 0") auto
  qed
qed

lemma utf8_scan: "utf8 xs \<longleftrightarrow> scan xs = Some []"
proof
  show "utf8 xs \<Longrightarrow> scan xs = Some []"
    by (induction rule: utf8.induct) (auto simp: scan_wf1)
  show "scan xs = Some [] \<Longrightarrow> utf8 xs"
  proof (induction xs rule: scan.induct)
    case (1 xs)
    show ?case
    proof (cases "xs = [] \<or> length xs < needed (hd xs)")
      case True
      then show ?thesis
        using 1 scan_partial [of xs] by (auto intro: utf8.intros)
    next
      case False
      then have *: "wf1 (take (needed (hd xs)) xs)" "scan (drop (needed (hd xs)) xs) = Some []"
        using "1.prems" scan_step [of xs] by (auto split: if_splits)
      then have "needed (hd xs) \<noteq> 0"
        by (metis take0 wf1.simps(5))
      then have "utf8 (drop (needed (hd xs)) xs)"
        using "1.IH" False * by simp
      then show ?thesis
        using utf8.code_point [OF *(1)] by fastforce
    qed
  qed
qed


section \<open>The loops against the scanner\<close>

lemma scan_ascii: "a AND 0x80 = 0 \<Longrightarrow> scan (a # xs) = scan xs" for a :: u8
proof -
  assume a: "a AND 0x80 = 0"
  have "(0x80 :: u8) = NOT (mask 7)"
    by (simp add: mask_eq_exp_minus_1 not_eq_complement)
  then have "128 * (unat a div 128) = 0"
    using unat_and_not_mask [of "0x80" 7 a] a by simp
  then have "unat a < 128"
    by (simp add: div_eq_0_iff)
  then have "wf1 [a]"
    by (simp add: wf1_nat)
  then show ?thesis
    using scan_wf1 [of "[a]"] by simp
qed

lemma scan_ascii_list: "\<forall>b\<in>set s. b AND 0x80 = 0 \<Longrightarrow> scan (s @ xs) = scan xs"
  by (induction s) (auto simp: scan_ascii)

definition exits_at :: "bytes \<Rightarrow> loop_exit \<Rightarrow> bool" where
  "exits_at p x \<longleftrightarrow> (\<exists>r. (x = Goto_slow r \<or> x = Goes_on r) \<and> scan r = scan p)"

lemma align_loop_scan: "k \<le> length p \<Longrightarrow> exits_at p (align_loop k p)"
  by (induction k p rule: align_loop.induct) (auto simp: exits_at_def scan_ascii)

lemma align_distance: "(addr + 8 - 1) div 8 * 8 - addr \<le> (7 :: nat)"
  by presburger

lemma fast_loop_scan: "exits_at p (fast_loop p)"
proof (induction p rule: fast_loop.induct)
  case (1 p)
  have "scan (drop 8 p) = scan p" if "\<forall>b\<in>set (take 8 p). b AND 0x80 = 0"
    using scan_ascii_list [OF that, of "drop 8 p"] by simp
  then show ?case
    using 1 by (subst fast_loop.simps) (auto simp: load_word_def exits_at_def)
qed

lemma slow_loop_scan:
  "case slow_loop p of Inl v \<Rightarrow> v = Invalid \<and> scan p = None | Inr r \<Rightarrow> scan r = scan p"
proof (induction p rule: slow_loop.induct)
  case (1 p)
  show ?case
  proof (cases "3 < length p")
    case True
    then have ne: "p \<noteq> []" "needed (hd p) \<le> length p"
      using needed_le_4 [of "hd p"] by auto
    show ?thesis
    proof (cases "valid p")
      case (Inl v)
      then have "v = Invalid" "\<not> wf1 (take (needed (hd p)) p)"
        using valid_iff [OF ne] by (auto split: if_splits)
      then show ?thesis
        using Inl True scan_step [OF ne] by (subst slow_loop.simps) simp
    next
      case (Inr k)
      then have "k = needed (hd p)" "wf1 (take (needed (hd p)) p)"
        using valid_iff [OF ne] by (auto split: if_splits)
      then show ?thesis
        using 1 [OF True Inr] Inr True scan_step [OF ne] by (subst slow_loop.simps) (simp only: if_True sum.case)
    qed
  next
    case False
    then show ?thesis
      by (subst slow_loop.simps) simp
  qed
qed

text \<open>A checker that holds the incomplete code point \<open>r\<close>.\<close>

definition pending :: "utf8_checker \<Rightarrow> bytes \<Rightarrow> bool" where
  "pending c r \<longleftrightarrow> need c = (if r = [] then 0 else needed (hd r) - length r) \<and>
     pos c = length r \<and> length (cp c) = 4 \<and> take (length r) (cp c) = r \<and>
     (r = [] \<or> length r < needed (hd r))"

text \<open>What the fail-fast check lets through.\<close>

definition fast_ok :: "bytes \<Rightarrow> bool" where
  "fast_ok r \<longleftrightarrow> wf1 (take (needed (hd r)) (r @ replicate (4 - length r) 0x81))"

definition outcome :: "verdict \<times> utf8_checker \<Rightarrow> bytes option \<Rightarrow> bool" where
  "outcome vc s \<longleftrightarrow> (case s of None \<Rightarrow> fst vc = Invalid
     | Some r \<Rightarrow> if r = [] \<or> fast_ok r then fst vc = Valid \<and> pending (snd vc) r else fst vc = Invalid)"

lemma fail_fast_outcome:
  assumes "pending c r" "r \<noteq> []"
  shows "outcome (fail_fast c) (Some r)"
proof -
  let ?b = "r @ replicate (4 - length r) 0x81"
  have len: "0 < length r" "length r < needed (hd r)" "length r = pos c" "length (cp c) = 4"
      "take (length r) (cp c) = r"
    using assms by (auto simp: pending_def)
  then have "length r < 4"
    using needed_le_4 [of "hd r"] by linarith
  then consider "length r = 1" | "length r = 2" | "length r = 3"
    using len by linarith
  moreover obtain w x y z where cp: "cp c = [w, x, y, z]"
    using len(4) by (auto simp: numeral_eq_Suc length_Suc_conv)
  ultimately have b: "(if pos c = 3 then (cp c)[3 := 0x81] else if pos c = 2 then (cp c)[2 := 0x81, 3 := 0x81]
      else (cp c)[1 := 0x81, 2 := 0x81, 3 := 0x81]) = ?b"
  proof cases
    case 1
    then show ?thesis
      using len(3,5) cp by (simp add: numeral_eq_Suc)
  next
    case 2
    then show ?thesis
      using len(3,5) cp by (simp add: numeral_eq_Suc)
  next
    case 3
    then show ?thesis
      using len(3,5) cp by (simp add: numeral_eq_Suc)
  qed
  have "valid ?b = (if fast_ok r then Inr (needed (hd r)) else Inl Invalid)"
    using valid_iff [of ?b] \<open>length r < 4\<close> needed_le_4 [of "hd r"] assms(2)
    by (simp add: fast_ok_def)
  moreover have "take (length r) ?b = r" "length ?b = 4"
    using \<open>length r < 4\<close> by simp_all
  ultimately show ?thesis
    using assms unfolding fail_fast_def Let_def b by (simp add: outcome_def pending_def)
qed

lemma tail_loop_outcome: "pending c [] \<Longrightarrow> outcome (tail_loop p c) (scan p)"
proof (induction p c rule: tail_loop.induct)
  case (1 p c)
  consider "p = []" | "p \<noteq> []" "needed (hd p) = 0" | "p \<noteq> []" "0 < needed (hd p)" "needed (hd p) \<le> length p"
    | "p \<noteq> []" "length p < needed (hd p)"
    by linarith
  then show ?case
  proof cases
    case 1
    then show ?thesis
      using "1.prems" by (subst tail_loop.simps) (simp add: outcome_def)
  next
    case 2
    then show ?thesis
      by (subst tail_loop.simps) (simp add: outcome_def scan.simps [of p] Let_def)
  next
    case 3
    note v = valid_iff [OF 3(1, 3)] and s = scan_step [OF 3(1, 3)]
    show ?thesis
    proof (cases "wf1 (take (needed (hd p)) p)")
      case True
      then have "outcome (tail_loop (drop (needed (hd p)) p) c) (scan (drop (needed (hd p)) p))"
        using "1.IH" [OF 3(1) refl] 3 v "1.prems" by simp
      then show ?thesis
        using 3 True v s by (subst tail_loop.simps) (simp add: Let_def)
    next
      case False
      then show ?thesis
        using 3 v s by (subst tail_loop.simps) (simp add: Let_def outcome_def)
    qed
  next
    case 4
    let ?c = "c\<lparr>need := needed (hd p) - length p, cp := blit (pos c) p (cp c), pos := pos c + length p\<rparr>"
    have "length p \<le> length (cp c)"
      using 4 needed_le_4 [of "hd p"] "1.prems" by (simp add: pending_def)
    moreover from this have "pending ?c p"
      using "1.prems" 4 drop_blit_at [of 0 p "cp c"] by (simp add: pending_def)
    then have "outcome (fail_fast ?c) (scan p)"
      using fail_fast_outcome 4 scan_partial by metis
    ultimately show ?thesis
      using 4 "1.prems" by (subst tail_loop.simps) (simp add: Let_def save_bytes_def pending_def)
  qed
qed

lemma slow_part_outcome: "pending c [] \<Longrightarrow> scan q = scan p \<Longrightarrow> outcome (slow_part q c) (scan p)"
proof -
  assume c: "pending c []" and eq: "scan q = scan p"
  show ?thesis
  proof (cases "slow_loop q")
    case (Inl v)
    then show ?thesis
      using slow_loop_scan [of q] eq by (simp add: slow_part_def outcome_def)
  next
    case (Inr r)
    then show ?thesis
      using slow_loop_scan [of q] eq tail_loop_outcome [OF c, of r] by (simp add: slow_part_def)
  qed
qed

lemma write_whole_outcome:
  assumes "pending c []"
  shows "outcome (write_whole addr p c) (scan p)"
proof (cases "length p \<le> 8")
  case True
  then show ?thesis
    using slow_part_outcome [OF assms] by (simp add: write_whole_def)
next
  case False
  let ?k = "(addr + 8 - 1) div 8 * 8 - addr"
  have "?k \<le> length p"
    using False align_distance [of addr] by linarith
  then have a: "exits_at p (align_loop ?k p)"
    by (rule align_loop_scan)
  obtain r where r: "align_loop ?k p = Goto_slow r \<or> align_loop ?k p = Goes_on r" "scan r = scan p"
    using a unfolding exits_at_def by blast
  obtain r' where r': "fast_loop r = Goto_slow r' \<or> fast_loop r = Goes_on r'" "scan r' = scan r"
    using fast_loop_scan [of r] unfolding exits_at_def by blast
  have "write_whole addr p c \<in> {slow_part r c, slow_part r' c}"
    using False r(1) r'(1) unfolding write_whole_def by auto
  then show ?thesis
    using slow_part_outcome [OF assms] r(2) r'(2) by auto
qed

text \<open>What is pending and the new bytes together decide the outcome.\<close>

lemma utf8_write_outcome:
  assumes "pending c q"
  shows "outcome (utf8_write addr p c) (scan (q @ p))"
proof (cases "q = []")
  case True
  then show ?thesis
    using assms write_whole_outcome [of c addr p] by (simp add: utf8_write_def pending_def)
next
  case False
  let ?n = "min (length p) (need c)"
  let ?c = "c\<lparr>need := need c - ?n, cp := blit (pos c) (take ?n p) (cp c), pos := pos c + ?n\<rparr>"
  have q: "need c = needed (hd q) - length q" "pos c = length q" "length (cp c) = 4"
      "take (length q) (cp c) = q" "length q < needed (hd q)" "0 < need c"
    using assms False by (auto simp: pending_def)
  have fits: "length q + ?n \<le> 4"
    using q needed_le_4 [of "hd q"] by auto
  have saved: "save_bytes ?n p (c\<lparr>need := need c - ?n\<rparr>) = Inr ?c"
    using fits q(2,3) by (simp add: save_bytes_def)
  have cp: "take (length q + ?n) (blit (length q) (take ?n p) (cp c)) = q @ take ?n p"
    using take_drop_blit_append [of 0 "length q" "take ?n p" "cp c" ?n] fits q(3,4) by simp
  show ?thesis
  proof (cases "length p < need c")
    case True
    then have "pending ?c (q @ p)"
      using q cp fits False by (simp add: pending_def)
    then have "outcome (fail_fast ?c) (Some (q @ p))"
      using False by (intro fail_fast_outcome) auto
    moreover have "scan (q @ p) = Some (q @ p)"
      using True q False by (intro scan_partial) auto
    moreover have "utf8_write addr p c = fail_fast ?c"
    proof -
      have "0 < need ?c"
        using True by simp
      then show ?thesis
        using q(6) unfolding utf8_write_def Let_def saved by (simp only: if_True sum.case)
    qed
    ultimately show ?thesis
      by (simp only:)
  next
    case full: False
    let ?s = "q @ take (need c) p"
    have n: "?n = need c"
      using full by simp
    have s: "length ?s = needed (hd ?s)" "?s \<noteq> []" "hd ?s = hd q"
      using q full False by auto
    have b: "length (cp ?c) = 4" "take (needed (hd q)) (cp ?c) = ?s" "hd (cp ?c) = hd q" "cp ?c \<noteq> []"
    proof -
      show l: "length (cp ?c) = 4"
        using q fits by simp
      have "length q + need c = needed (hd q)"
        using q by simp
      then show t: "take (needed (hd q)) (cp ?c) = ?s"
        using cp q(2) unfolding n by simp
      show "cp ?c \<noteq> []"
        using l by auto
      have "0 < needed (hd q)"
        using q by simp
      then show "hd (cp ?c) = hd q"
        using t s by (metis hd_take)
    qed
    have v: "valid (cp ?c) = (if wf1 ?s then Inr (needed (hd q)) else Inl Invalid)"
      using valid_iff [OF b(4)] b needed_le_4 [of "hd q"] by simp
    have sc: "scan (q @ p) = (if wf1 ?s then scan (drop (need c) p) else None)"
      using scan_step [of "q @ p"] q full False by simp
    have need0: "need ?c = 0"
      using n by simp
    have "pending (?c\<lparr>pos := 0\<rparr>) []"
      using b(1) need0 by (simp add: pending_def)
    note w = write_whole_outcome [OF this, of "addr + ?n" "drop ?n p"]
    show ?thesis
    proof (cases "wf1 ?s")
      case True
      then have "utf8_write addr p c = write_whole (addr + ?n) (drop ?n p) (?c\<lparr>pos := 0\<rparr>)"
        using v q(6) need0 unfolding utf8_write_def Let_def saved by (simp only: if_True sum.case) simp
      then show ?thesis
        using w True sc n by simp
    next
      case False
      then have "utf8_write addr p c = (Invalid, ?c)"
        using v q(6) need0 unfolding utf8_write_def Let_def saved by (simp only: if_True sum.case) simp
      then show ?thesis
        using False sc by (simp add: outcome_def)
    qed
  qed
qed


section \<open>Several buffers\<close>

definition let_through :: "bytes option \<Rightarrow> bool" where
  "let_through s \<longleftrightarrow> (case s of None \<Rightarrow> False | Some r \<Rightarrow> r = [] \<or> fast_ok r)"

lemma outcome_iff:
  "outcome (v, c) s \<longleftrightarrow> (if let_through s then v = Valid \<and> pending c (the s) else v = Invalid)"
  by (auto simp: outcome_def let_through_def split: option.splits)

lemma pending_scan: "pending c q \<Longrightarrow> scan q = Some q"
  by (cases "q = []") (auto simp: pending_def scan_partial)

abbreviation sent :: "nat \<Rightarrow> (nat \<times> bytes) list \<Rightarrow> bytes" where
  "sent i bufs \<equiv> concat (map snd (take i bufs))"

lemma ball_upto_Suc: "(\<forall>i\<in>{1..Suc n}. P i) \<longleftrightarrow> P 1 \<and> (\<forall>i\<in>{1..n}. P (Suc i))"
proof -
  have "{1..Suc n} = insert 1 (Suc ` {1..n})"
    by (auto simp: image_Suc_atLeastAtMost)
  then show ?thesis
    by (simp only: ball_simps)
qed

lemma write_buffers_outcome:
  "pending c q \<Longrightarrow>
    (if \<forall>i\<in>{1..length bufs}. let_through (scan (q @ sent i bufs))
     then fst (utf8_write_buffers bufs c) = Valid \<and>
       pending (snd (utf8_write_buffers bufs c)) (the (scan (q @ concat (map snd bufs))))
     else fst (utf8_write_buffers bufs c) = Invalid)"
proof (induction bufs arbitrary: c q)
  case Nil
  then show ?case
    using pending_scan [OF Nil] by simp
next
  case (Cons x bufs)
  obtain addr p where x: "x = (addr, p)"
    by (cases x)
  obtain v c' where w: "utf8_write addr p c = (v, c')"
    by (cases "utf8_write addr p c")
  note o = utf8_write_outcome [OF Cons.prems, of addr p, unfolded w outcome_iff]
  have range: "(\<forall>i\<in>{1..length (x # bufs)}. let_through (scan (q @ sent i (x # bufs)))) \<longleftrightarrow>
      let_through (scan (q @ p)) \<and> (\<forall>i\<in>{1..length bufs}. let_through (scan (q @ p @ sent i bufs)))"
    unfolding length_Cons ball_upto_Suc by (simp add: x)
  show ?case
  proof (cases "let_through (scan (q @ p))")
    case False
    then have "utf8_write_buffers (x # bufs) c = (Invalid, c')"
      using o w x by simp
    then show ?thesis
      using False range by simp
  next
    case True
    then obtain r where r: "scan (q @ p) = Some r" "v = Valid" "pending c' r"
      using o by (auto simp: let_through_def split: option.splits)
    have "scan (q @ p @ ys) = scan (r @ ys)" for ys
      using scan_append [of "q @ p" ys] r(1) by simp
    then show ?thesis
      using Cons.IH [OF r(3)] True range w r(2) x by simp
  qed
qed

lemma scan_decompose:
  "scan t = Some r \<Longrightarrow> \<exists>pre. t = pre @ r \<and> utf8 pre \<and> (r = [] \<or> length r < needed (hd r))"
proof (induction t rule: scan.induct)
  case (1 t)
  show ?case
  proof (cases "t = [] \<or> length t < needed (hd t)")
    case True
    then have "r = t"
      using "1.prems" scan_partial [of t] by (cases "t = []") auto
    then show ?thesis
      using True by (intro exI [of _ "[]"]) (auto intro: utf8.intros)
  next
    case False
    then have *: "wf1 (take (needed (hd t)) t)" "scan (drop (needed (hd t)) t) = Some r"
      using "1.prems" scan_step [of t] by (auto split: if_splits)
    then have "needed (hd t) \<noteq> 0"
      by (metis take0 not_wf1_Nil)
    then obtain pre where pre: "drop (needed (hd t)) t = pre @ r" "utf8 pre" "r = [] \<or> length r < needed (hd r)"
      using "1.IH" False * by auto
    then have "t = (take (needed (hd t)) t @ pre) @ r"
      by (metis append.assoc append_take_drop_id)
    then show ?thesis
      using utf8.code_point [OF *(1) pre(2)] pre(3) by blast
  qed
qed

lemma wf1_last: "wf1 s \<Longrightarrow> unat (last s) < 192"
  by (cases s rule: wf1.cases) (simp_all add: wf1_nat wf1.simps(5,6))

lemma utf8_last: "utf8 xs \<Longrightarrow> xs \<noteq> [] \<Longrightarrow> unat (last xs) < 192"
proof (induction rule: utf8.induct)
  case (code_point s xs)
  then show ?case
    using wf1_last [of s] wf1_length [of s] by (cases "xs = []") auto
qed simp

text \<open>The incomplete code points of well-formed text that the padding makes ill-formed.\<close>

lemma fast_ok_eval:
  "needed a = 2 \<Longrightarrow> fast_ok [a] = wf1 [a, 0x81]"
  "needed a = 3 \<Longrightarrow> fast_ok [a] = wf1 [a, 0x81, 0x81]"
  "needed a = 3 \<Longrightarrow> fast_ok [a, b] = wf1 [a, b, 0x81]"
  "needed a = 4 \<Longrightarrow> fast_ok [a] = wf1 [a, 0x81, 0x81, 0x81]"
  "needed a = 4 \<Longrightarrow> fast_ok [a, b] = wf1 [a, b, 0x81, 0x81]"
  "needed a = 4 \<Longrightarrow> fast_ok [a, b, c] = wf1 [a, b, c, 0x81]"
  by (simp_all add: fast_ok_def numeral_eq_Suc)

lemma fast_ok_iff:
  assumes "r \<noteq> []" "length r < needed (hd r)" "wf1 (r @ s)"
  shows "fast_ok r \<longleftrightarrow> last r \<notin> {0xe0, 0xf0}"
proof -
  have k: "length (r @ s) = needed (hd r)"
    using wf1_length [OF assms(3)] assms(1) by simp
  have lits: "(a = 0xe0) = (unat a = 224)" "(a = 0xf0) = (unat a = 240)" for a :: u8
    by (simp_all add: u8_nat)
  from assms(3) show ?thesis
  proof (cases "r @ s" rule: wf1.cases)
    case (2 a b)
    then have r: "r = [a]" "needed a = 2"
      using assms(1,2) k by (auto simp: append_eq_Cons_conv)
    then show ?thesis
      using assms(3) unfolding 2 by (simp add: fast_ok_eval wf1_nat lits)
  next
    case (3 a b c)
    then have n: "needed a = 3"
      using assms(1) k by (auto simp: append_eq_Cons_conv)
    from 3 consider "r = [a]" | "r = [a, b]"
      using assms(1,2) k by (auto simp: append_eq_Cons_conv)
    then show ?thesis
      by cases (use assms(3)[unfolded 3] n in \<open>simp_all add: fast_ok_eval wf1_nat lits\<close>)
  next
    case (4 a b c d)
    then have n: "needed a = 4"
      using assms(1) k by (auto simp: append_eq_Cons_conv)
    from 4 consider "r = [a]" | "r = [a, b]" | "r = [a, b, c]"
      using assms(1,2) k by (auto simp: append_eq_Cons_conv)
    then show ?thesis
      by cases (use assms(3)[unfolded 4] n in \<open>simp_all add: fast_ok_eval wf1_nat lits\<close>)
  qed (use assms k in \<open>auto simp: append_eq_Cons_conv wf1.simps(5,6)\<close>)
qed

lemma let_through_iff:
  assumes "utf8 (t @ t')"
  shows "let_through (scan t) \<longleftrightarrow> t = [] \<or> last t \<notin> {0xe0, 0xf0}"
proof -
  obtain r where r: "scan t = Some r" "scan (r @ t') = Some []"
    using assms scan_append [of t t'] by (auto simp: utf8_scan split: option.splits)
  obtain pre where pre: "t = pre @ r" "utf8 pre" "r = [] \<or> length r < needed (hd r)"
    using scan_decompose [OF r(1)] by blast
  show ?thesis
  proof (cases "r = []")
    case True
    then have "t = [] \<or> unat (last t) < 192"
      using pre utf8_last by auto
    then have "t = [] \<or> last t \<notin> {0xe0, 0xf0}"
      by auto
    then show ?thesis
      using True r by (simp add: let_through_def)
  next
    case False
    then have partial: "length r < needed (hd r)"
      using pre(3) by simp
    have "needed (hd r) \<le> length (r @ t')"
    proof (rule ccontr)
      assume "\<not> needed (hd r) \<le> length (r @ t')"
      then have "scan (r @ t') = Some (r @ t')"
        using False by (intro scan_partial) auto
      then show False
        using r(2) False by simp
    qed
    then have "wf1 (take (needed (hd r)) (r @ t'))"
      using r(2) False scan_step [of "r @ t'"] by (auto split: if_splits)
    then have "wf1 (r @ take (needed (hd r) - length r) t')"
      using partial by simp
    then have "fast_ok r \<longleftrightarrow> last r \<notin> {0xe0, 0xf0}"
      using fast_ok_iff False partial by blast
    then show ?thesis
      using False r pre by (simp add: let_through_def)
  qed
qed

lemma finish_pending: "pending c r \<Longrightarrow> fst (utf8_finish c) \<longleftrightarrow> r = []"
  by (auto simp: utf8_finish_def pending_def)

lemma sent_split: "sent i bufs @ concat (map snd (drop i bufs)) = concat (map snd bufs)"
  by (simp flip: concat_append map_append)

lemma check_buffers_iff:
  assumes "length b = 4"
  shows "check_buffers b bufs \<longleftrightarrow> utf8 (concat (map snd bufs)) \<and>
    (\<forall>i\<in>{1..length bufs}. sent i bufs = [] \<or> last (sent i bufs) \<notin> {0xe0, 0xf0})"
proof -
  have p: "pending (utf8_init b) []"
    using assms by (simp add: pending_def utf8_init_def)
  let ?w = "utf8_write_buffers bufs (utf8_init b)" and ?all = "concat (map snd bufs)"
  note o = write_buffers_outcome [OF p, of bufs, simplified]
  have "check_buffers b bufs \<longleftrightarrow>
      (\<forall>i\<in>{1..length bufs}. let_through (scan (sent i bufs))) \<and> the (scan ?all) = []"
    using o finish_pending [of "snd ?w"]
    by (cases ?w; cases "fst ?w") (auto simp: check_buffers_def split: if_splits)
  also have "\<dots> \<longleftrightarrow> (\<forall>i\<in>{1..length bufs}. let_through (scan (sent i bufs))) \<and> utf8 ?all"
  proof -
    have "let_through (scan ?all)" if "\<forall>i\<in>{1..length bufs}. let_through (scan (sent i bufs))"
    proof (cases "bufs = []")
      case False
      then have "length bufs \<in> {1..length bufs}"
        by (simp add: Suc_le_eq)
      then show ?thesis
        using that by fastforce
    qed (simp add: let_through_def)
    moreover have "let_through s \<Longrightarrow> the s = [] \<longleftrightarrow> s = Some []" for s
      by (cases s) (auto simp: let_through_def)
    ultimately show ?thesis
      unfolding utf8_scan by blast
  qed
  also have "\<dots> \<longleftrightarrow> utf8 ?all \<and> (\<forall>i\<in>{1..length bufs}. sent i bufs = [] \<or> last (sent i bufs) \<notin> {0xe0, 0xf0})"
  proof -
    have "utf8 ?all \<Longrightarrow> let_through (scan (sent i bufs)) \<longleftrightarrow> sent i bufs = [] \<or> last (sent i bufs) \<notin> {0xe0, 0xf0}" for i
      using let_through_iff [of "sent i bufs" "concat (map snd (drop i bufs))"] unfolding sent_split .
    then show ?thesis
      by blast
  qed
  finally show ?thesis .
qed

lemma check_utf8_iff:
  assumes "length b = 4"
  shows "(check_utf8 b addr p \<longleftrightarrow> utf8 p) \<and> fst (utf8_write addr p (utf8_init b)) \<in> {Valid, Invalid}"
proof
  have w: "utf8_write_buffers [(addr, p)] (utf8_init b) = utf8_write addr p (utf8_init b)"
    by (auto split: prod.split verdict.split)
  then have "check_utf8 b addr p \<longleftrightarrow> check_buffers b [(addr, p)]"
    by (simp only: check_utf8_def check_buffers_def)
  also have "\<dots> \<longleftrightarrow> utf8 p"
    using utf8_last [of p] unfolding check_buffers_iff [OF assms] by auto
  finally show "check_utf8 b addr p \<longleftrightarrow> utf8 p" .
  have "pending (utf8_init b) []"
    using assms by (simp add: pending_def utf8_init_def)
  from utf8_write_outcome [OF this, of addr p] show "fst (utf8_write addr p (utf8_init b)) \<in> {Valid, Invalid}"
    by (auto simp: outcome_def split: option.splits if_splits)
qed

section \<open>Properties\<close>

text \<open>
  C26: on one buffer, at any address and whatever its length, the validator with its
  aligned fast path accepts exactly well-formed UTF-8.  No read is past the end of the
  buffer, the loads of eight bytes included, and no write past the array of the checker.
\<close>

theorem check_utf8_correct:
  assumes "length b = 4"
  shows "(check_utf8 b addr p \<longleftrightarrow> utf8 p) \<and> fst (utf8_write addr p (utf8_init b)) \<in> {Valid, Invalid}"
  by (rule check_utf8_iff [OF assms])

theorem check_utf8_correct_witness:
  "(check_utf8 [0, 0, 0, 0] 3 (replicate 20 0x61) \<longleftrightarrow> utf8 (replicate 20 0x61)) \<and>
    fst (utf8_write 3 (replicate 20 0x61) (utf8_init [0, 0, 0, 0])) \<in> {Valid, Invalid}"
  by (rule check_utf8_correct) simp

text \<open>
  A text that arrives in several buffers is accepted exactly when the whole of it is
  well-formed and no buffer boundary comes right after a lead byte \<open>0xE0\<close> or
  \<open>0xF0\<close>; the buffers and the temporary array are never accessed out of bounds.  The
  comment on the class promises segmented sequences without this exception.
\<close>

theorem utf8_segments:
  assumes "length b = 4"
  shows "(check_buffers b bufs \<longleftrightarrow> utf8 (concat (map snd bufs)) \<and>
      (\<forall>i\<in>{1..length bufs}. sent i bufs = [] \<or> last (sent i bufs) \<notin> {0xe0, 0xf0}))
    \<and> fst (utf8_write_buffers bufs (utf8_init b)) \<in> {Valid, Invalid}"
proof
  have "pending (utf8_init b) []"
    using assms by (simp add: pending_def utf8_init_def)
  from write_buffers_outcome [OF this, of bufs] show "fst (utf8_write_buffers bufs (utf8_init b)) \<in> {Valid, Invalid}"
    by (auto split: if_splits)
qed (rule check_buffers_iff [OF assms])

theorem utf8_segments_witness:
  "utf8 [0xe0, 0xa0, 0x80] \<and> check_buffers [0, 0, 0, 0] [(0, [0xe0, 0xa0]), (8, [0x80])]
    \<and> \<not> check_buffers [0, 0, 0, 0] [(0, [0xe0]), (8, [0xa0, 0x80])]"
proof -
  have "wf1 [0xe0, 0xa0, 0x80]"
    by (simp add: wf1.simps)
  then have u: "utf8 [0xe0, 0xa0, 0x80]"
    using utf8.code_point [OF _ utf8.empty] by fastforce
  have len: "length [0, 0, 0, 0 :: u8] = 4"
    by simp
  have two: "{1..length [x, y]} = {1, 2}" for x y :: "nat \<times> bytes"
    by auto
  have "check_buffers [0, 0, 0, 0] [(0, [0xe0, 0xa0]), (8, [0x80])]"
    using u utf8_segments [OF len, of "[(0, [0xe0, 0xa0]), (8, [0x80])]", unfolded two] by simp
  moreover have "\<not> check_buffers [0, 0, 0, 0] [(0, [0xe0]), (8, [0xa0, 0x80])]"
    using utf8_segments [OF len, of "[(0, [0xe0]), (8, [0xa0, 0x80])]", unfolded two] by simp
  ultimately show ?thesis
    using u by blast
qed

end
