(* ===== verification/Mask.thy ===== *)
theory Mask
  imports Prelude
begin

text \<open>
  \<open>beast/websocket/detail/mask.hpp\<close>: masking of WebSocket payloads in place.  The
  contents of a buffer are a list, returned as the code leaves it.
\<close>

definition prepare_key :: "u32 \<Rightarrow> bytes" where
  "prepare_key key =
     [ucast (drop_bit 0 key AND 0xff), ucast (drop_bit 8 key AND 0xff),
      ucast (drop_bit 16 key AND 0xff), ucast (drop_bit 24 key AND 0xff)]"

definition rol_key :: "bytes \<Rightarrow> nat \<Rightarrow> bytes" where
  "rol_key v n = map (\<lambda>i. v ! ((i + n) mod length v)) [0..<length v]"

text \<open>The four-byte loop; the bytes left over are returned unmasked.\<close>

fun mask_words :: "bytes \<Rightarrow> bytes \<Rightarrow> bytes \<times> bytes" where
  "mask_words (p0 # p1 # p2 # p3 # p) key =
     (case mask_words p key of (out, rest) \<Rightarrow>
        ((p0 XOR key ! 0) # (p1 XOR key ! 1) # (p2 XOR key ! 2) # (p3 XOR key ! 3) # out, rest))"
| "mask_words p key = ([], p)"

definition mask_inplace :: "bytes \<Rightarrow> bytes \<Rightarrow> bytes \<times> bytes" where
  "mask_inplace b key =
     (case mask_words b key of (out, p) \<Rightarrow>
        if length p > 0
        then (out @ map (\<lambda>i. p ! i XOR key ! i) [0..<length p], rol_key key (length p))
        else (out, key))"

fun mask_buffers :: "bytes list \<Rightarrow> bytes \<Rightarrow> bytes list \<times> bytes" where
  "mask_buffers [] key = ([], key)"
| "mask_buffers (b # bs) key =
     (case mask_inplace b key of (b', key') \<Rightarrow>
        case mask_buffers bs key' of (bs', key'') \<Rightarrow> (b' # bs', key''))"

section \<open>RFC 6455, section 5.3\<close>

text \<open>Octet \<open>i\<close> is XORed with octet \<open>i mod 4\<close> of the key.\<close>

definition mask_rfc :: "bytes \<Rightarrow> nat \<Rightarrow> bytes \<Rightarrow> bytes" where
  "mask_rfc key off b = map (\<lambda>i. b ! i XOR key ! ((off + i) mod 4)) [0..<length b]"

lemma length_mask_rfc [simp]: "length (mask_rfc key off b) = length b"
  by (simp add: mask_rfc_def)

lemma mask_rfc_Nil [simp]: "mask_rfc key off [] = []"
  by (simp add: mask_rfc_def)

lemma mask_rfc_append: "mask_rfc key off (a @ b) = mask_rfc key off a @ mask_rfc key (off + length a) b"
  by (rule nth_equalityI) (auto simp: mask_rfc_def nth_append add.assoc)

lemma mask_rfc_Cons: "mask_rfc key off (x # b) = (x XOR key ! (off mod 4)) # mask_rfc key (Suc off) b"
  using mask_rfc_append [of key off "[x]" b] by (simp add: mask_rfc_def)

lemma mask_rfc_mod: "off mod 4 = off' mod 4 \<Longrightarrow> mask_rfc key off b = mask_rfc key off' b"
  unfolding mask_rfc_def by (metis mod_add_left_eq)

lemma mask_rfc_involution: "mask_rfc key off (mask_rfc key off b) = b"
  by (rule nth_equalityI) (simp_all add: mask_rfc_def xor.assoc)

section \<open>Lemmas\<close>

lemma length_rol_key [simp]: "length (rol_key v n) = length v"
  by (simp add: rol_key_def)

lemma nth_rol_key [simp]: "i < length v \<Longrightarrow> rol_key v n ! i = v ! ((i + n) mod length v)"
  by (simp add: rol_key_def)

lemma rol_key_add: "rol_key (rol_key v m) n = rol_key v (m + n)"
proof (cases "v = []")
  case False
  show ?thesis
    by (rule nth_equalityI) (use False in \<open>auto simp: rol_key_def mod_simps ac_simps\<close>)
qed (simp add: rol_key_def)

lemma rol_key_cong: "m mod length v = n mod length v \<Longrightarrow> rol_key v m = rol_key v n"
  unfolding rol_key_def by (metis mod_add_right_eq)

lemma rol_key_0 [simp]: "rol_key v 0 = v"
  by (rule nth_equalityI) simp_all

lemma mask_rfc_rol: "length key = 4 \<Longrightarrow> mask_rfc (rol_key key n) off b = mask_rfc key (n + off) b"
  by (rule nth_equalityI) (simp_all add: mask_rfc_def mod_simps ac_simps)

lemma mask_words_rfc:
  "mask_words b key = (mask_rfc key 0 (take (4 * (length b div 4)) b), drop (4 * (length b div 4)) b)"
proof (induction b key rule: mask_words.induct)
  case (1 p0 p1 p2 p3 p key)
  let ?n = "4 * (length p div 4)"
  have "length (p0 # p1 # p2 # p3 # p) div 4 = Suc (length p div 4)"
    by simp
  then have take: "take (4 * (length (p0 # p1 # p2 # p3 # p) div 4)) (p0 # p1 # p2 # p3 # p) = [p0, p1, p2, p3] @ take ?n p"
    and drop: "drop (4 * (length (p0 # p1 # p2 # p3 # p) div 4)) (p0 # p1 # p2 # p3 # p) = drop ?n p"
    by (simp_all add: take_Cons' drop_Cons')
  have "mask_rfc key 0 ([p0, p1, p2, p3] @ take ?n p) = mask_rfc key 0 [p0, p1, p2, p3] @ mask_rfc key 0 (take ?n p)"
  proof -
    have "mask_rfc key (0 + length [p0, p1, p2, p3]) (take ?n p) = mask_rfc key 0 (take ?n p)"
      by (rule mask_rfc_mod) simp
    then show ?thesis
      by (simp only: mask_rfc_append)
  qed
  also have "mask_rfc key 0 [p0, p1, p2, p3] = [p0 XOR key ! 0, p1 XOR key ! 1, p2 XOR key ! 2, p3 XOR key ! 3]"
    unfolding mask_rfc_Cons mask_rfc_Nil One_nat_def [symmetric] Suc_1 numeral_3_eq_3 [symmetric] Suc_numeral
    by simp
  finally show ?case
    unfolding take drop using 1 by simp
qed simp_all

lemma mask_inplace_rfc:
  assumes "length key = 4"
  shows "mask_inplace b key = (mask_rfc key 0 b, rol_key key (length b))"
proof -
  let ?n = "4 * (length b div 4)" and ?p = "drop (4 * (length b div 4)) b"
  have len': "length b - ?n = length b mod 4"
    by (metis add_diff_cancel_left' mult_div_mod_eq)
  then have len: "length ?p = length b mod 4"
    by simp
  have left: "map (\<lambda>i. ?p ! i XOR key ! i) [0..<length ?p] = mask_rfc key 0 ?p"
    by (rule nth_equalityI) (use len' in \<open>simp_all add: mask_rfc_def\<close>)
  have off: "mask_rfc key 0 ?p = mask_rfc key ?n ?p"
    by (rule mask_rfc_mod) simp
  have b: "mask_rfc key 0 b = mask_rfc key 0 (take ?n b) @ mask_rfc key ?n ?p"
    using mask_rfc_append [of key 0 "take ?n b" ?p] by (simp add: min_def)
  have rol: "rol_key key (length ?p) = rol_key key (length b)"
    by (rule rol_key_cong) (simp add: len' assms)
  show ?thesis
  proof (cases "?p = []")
    case True
    then show ?thesis
      unfolding mask_inplace_def mask_words_rfc prod.case rol [symmetric] b by (simp only: True) simp
  next
    case False
    then have "length ?p > 0"
      by (simp only: length_greater_0_conv) simp
    then show ?thesis
      unfolding mask_inplace_def mask_words_rfc prod.case left off rol b by (simp only: if_True)
  qed
qed

lemma mask_buffers_rfc:
  "length key = 4 \<Longrightarrow>
    concat (fst (mask_buffers bs key)) = mask_rfc key 0 (concat bs) \<and>
    map length (fst (mask_buffers bs key)) = map length bs \<and>
    snd (mask_buffers bs key) = rol_key key (length (concat bs))"
proof (induction bs arbitrary: key)
  case (Cons b bs)
  obtain bs' key' where rec: "mask_buffers bs (rol_key key (length b)) = (bs', key')"
    by (cases "mask_buffers bs (rol_key key (length b))")
  then show ?case
    using Cons.IH [of "rol_key key (length b)"] Cons.prems
    by (simp add: mask_inplace_rfc mask_rfc_append mask_rfc_rol rol_key_add)
qed simp

section \<open>Properties\<close>

text \<open>
  C30: masking a sequence of buffers is the octet-by-octet masking of RFC 6455 on their
  concatenation, each buffer keeps its size, and the key that comes back is the one with
  which the payload that follows has to be masked.
\<close>

theorem mask_buffers_correct:
  assumes "length key = 4"
  shows "concat (fst (mask_buffers bs key)) = mask_rfc key 0 (concat bs)
    \<and> map length (fst (mask_buffers bs key)) = map length bs
    \<and> mask_rfc (snd (mask_buffers bs key)) 0 more = mask_rfc key (length (concat bs)) more"
  using mask_buffers_rfc [OF assms, of bs] assms by (simp add: mask_rfc_rol)

theorem mask_buffers_correct_witness:
  "concat (fst (mask_buffers [[1, 2, 3], [4, 5]] (prepare_key 0x04030201))) = mask_rfc (prepare_key 0x04030201) 0 [1, 2, 3, 4, 5]"
  using mask_buffers_correct [of "prepare_key 0x04030201" "[[1, 2, 3], [4, 5]]"] by (simp add: prepare_key_def)

text \<open>
  Applying the mask twice with the same prepared key gives the payload back, also when
  it is cut into other pieces the second time.
\<close>

theorem mask_involution:
  assumes "concat bs' = concat (fst (mask_buffers bs (prepare_key k)))"
  shows "concat (fst (mask_buffers bs' (prepare_key k))) = concat bs"
proof -
  have "length (prepare_key k) = 4"
    by (simp add: prepare_key_def)
  then show ?thesis
    using assms by (simp add: mask_buffers_rfc mask_rfc_involution)
qed

theorem mask_involution_witness:
  "concat (fst (mask_buffers [concat (fst (mask_buffers [[7, 8, 9], [10, 11]] (prepare_key 5)))] (prepare_key 5)))
    = [7, 8, 9, 10, 11]"
  using mask_involution [of "[concat (fst (mask_buffers [[7, 8, 9], [10, 11]] (prepare_key 5)))]" "[[7, 8, 9], [10, 11]]" 5]
  by simp

end
