(* ===== verification/Varint.thy ===== *)
theory Varint
  imports Prelude
begin

text \<open>
  \<open>beast/core/detail/varint.hpp\<close> and \<open>beast/core/detail/clamp.hpp\<close>: the
  base-128 encoding of a \<open>std::size_t\<close> and the saturating conversions.  An output
  iterator is the list of the bytes written to it; an input iterator is the list of
  the bytes still ahead of it, and \<open>None\<close> is a read past them.
\<close>

section \<open>varint.hpp\<close>

function varint_size_loop :: "u64 \<Rightarrow> nat \<Rightarrow> nat" where
  "varint_size_loop value n =
     (if value > 127 then varint_size_loop (value div 128) (n + 1) else n)"
  by pat_completeness auto
termination
  by (relation "measure (\<lambda>(v, n). unat v)") (auto simp: unat_div word_less_nat_alt)

declare varint_size_loop.simps [simp del]

definition varint_size :: "u64 \<Rightarrow> nat" where
  "varint_size value = varint_size_loop value 1"

fun varint_read_loop :: "bytes \<Rightarrow> u64 \<Rightarrow> u64 \<Rightarrow> (u64 \<times> bytes) option" where
  "varint_read_loop [] value factor = None"
| "varint_read_loop (b # first) value factor =
     (if b AND 0x80 \<noteq> 0
      then varint_read_loop first (value + ucast (b AND 0x7f) * factor) (factor * 128)
      else Some (value + ucast b * factor, first))"

definition varint_read :: "bytes \<Rightarrow> (u64 \<times> bytes) option" where
  "varint_read first = varint_read_loop first 0 1"

function varint_write :: "u64 \<Rightarrow> bytes" where
  "varint_write value =
     (if value > 127 then ucast (0x80 OR value) # varint_write (value div 128)
      else [ucast value])"
  by pat_completeness auto
termination
  by (relation "measure unat") (auto simp: unat_div word_less_nat_alt)

declare varint_write.simps [simp del]

lemma cont_byte_flag: "(ucast (0x80 OR v :: u64) :: u8) AND 0x80 \<noteq> 0"
proof
  assume eq: "(ucast (0x80 OR v :: u64) :: u8) AND 0x80 = 0"
  have "bit ((ucast (0x80 OR v :: u64) :: u8) AND 0x80) 7"
    by (simp add: bit_simps bit_consts)
  with eq show False
    by simp
qed

lemma cont_byte_payload:
  "ucast ((ucast (0x80 OR v :: u64) :: u8) AND 0x7f) = (v AND 0x7f)"
  by (rule bit_word_eqI) (auto simp: bit_simps bit_consts)

lemma small_mod: "\<not> v > 127 \<Longrightarrow> (v :: u64) AND 127 = v"
  by (simp add: and_127_mod word_unat_eq_iff unat_mod word_less_nat_alt)

lemma small_bits: "\<not> v > 127 \<Longrightarrow> bit (v :: u64) n \<Longrightarrow> n < 7"
  using small_mod [of v] by (metis bit_and_iff bit_mask_consts(6))

lemma last_byte_flag: "\<not> v > 127 \<Longrightarrow> (ucast (v :: u64) :: u8) AND 0x80 = 0"
  by (rule bit_word_eqI) (auto simp: bit_simps bit_consts dest: small_bits)

lemma last_byte_value: "\<not> v > 127 \<Longrightarrow> ucast (ucast (v :: u64) :: u8) = v"
  by (rule bit_word_eqI) (auto simp: bit_simps dest: small_bits)

lemma varint_split: "(v :: u64) = (v AND 0x7f) + (v div 128) * 128"
  using div_mult_mod_eq [of v 128] by (simp add: and_127_mod add.commute)

lemma varint_read_write_loop:
  "varint_read_loop (varint_write v @ rest) acc f = Some (acc + v * f, rest)"
proof (induction v arbitrary: acc f rule: varint_write.induct)
  case (1 v)
  show ?case
  proof (cases "v > 127")
    case True
    have eq: "acc + (v AND 0x7f) * f + v div 128 * (f * 128) = acc + v * f"
      by (subst (3) varint_split [of v]) (simp add: algebra_simps)
    show ?thesis
      using True 1 by (simp add: varint_write.simps [of v] cont_byte_flag cont_byte_payload eq)
  next
    case False
    then show ?thesis
      by (simp add: varint_write.simps [of v] last_byte_flag last_byte_value)
  qed
qed

lemma varint_size_write_loop: "varint_size_loop v n = n + length (varint_write v) - 1"
proof (induction v n rule: varint_size_loop.induct)
  case (1 v n)
  then show ?case
    by (simp add: varint_size_loop.simps [of v] varint_write.simps [of v])
qed

lemma varint_write_nonempty [simp]: "varint_write v \<noteq> []"
  by (simp add: varint_write.simps [of v])

text \<open>Ten bytes hold any 64-bit value: each step drops seven bits.\<close>

lemma varint_write_length_bound: "unat v < 128 ^ Suc k \<Longrightarrow> length (varint_write v) \<le> Suc k"
proof (induction k arbitrary: v)
  case 0
  then show ?case
    by (simp add: varint_write.simps [of v] word_less_nat_alt)
next
  case (Suc k)
  show ?case
  proof (cases "v > 127")
    case True
    have "unat (v div 128) < 128 ^ Suc k"
      using Suc.prems by (simp add: unat_div less_mult_imp_div_less mult.commute)
    then show ?thesis
      using True Suc.IH by (simp add: varint_write.simps [of v])
  next
    case False
    then show ?thesis
      by (simp add: varint_write.simps [of v])
  qed
qed

section \<open>clamp.hpp\<close>

text \<open>
  \<open>clamp(x, limit)\<close> with \<open>UInt = std::uint64_t\<close>, and \<open>sum_exceeds\<close>, which
  compares a sum with a limit without adding.
\<close>

definition clamp :: "u64 \<Rightarrow> u64 \<Rightarrow> u64" where
  "clamp x limit = (if x \<ge> limit then limit else x)"

definition sum_exceeds :: "u64 \<Rightarrow> u64 \<Rightarrow> u64 \<Rightarrow> bool" where
  "sum_exceeds x y z = (y > z \<or> x > z - y)"

lemma clamp_min: "unat (clamp x limit) = min (unat x) (unat limit)"
  by (auto simp: clamp_def word_le_nat_alt)

lemma clamp_le [simp]: "clamp x limit \<le> limit" "clamp x limit \<le> x"
  by (auto simp: clamp_def)

lemma sum_exceeds_iff: "sum_exceeds x y z \<longleftrightarrow> unat x + unat y > unat z"
proof (cases "y > z")
  case True
  then show ?thesis
    by (simp add: sum_exceeds_def word_less_nat_alt)
next
  case False
  then have "unat (z - y) = unat z - unat y" "unat y \<le> unat z"
    by (simp_all add: unat_sub not_less word_le_nat_alt)
  then show ?thesis
    using False by (auto simp: sum_exceeds_def word_less_nat_alt)
qed

section \<open>Properties\<close>

text \<open>
  What \<open>varint_write\<close> emits, \<open>varint_read\<close> reads back: the value, and exactly
  the bytes that were written, whatever follows; \<open>varint_size\<close> is the number of
  bytes written, between 1 and 10.
\<close>

theorem varint_roundtrip:
  "varint_read (varint_write v @ rest) = Some (v, rest)
    \<and> length (varint_write v) = varint_size v
    \<and> 1 \<le> varint_size v \<and> varint_size v \<le> 10"
proof -
  have "unat v < 128 ^ Suc 9"
    using unsigned_less [of v, where ?'a = nat] by simp
  then have "length (varint_write v) \<le> 10"
    using varint_write_length_bound [of v 9] by simp
  moreover have "1 \<le> length (varint_write v)"
    by (simp add: Suc_le_eq)
  ultimately show ?thesis
    by (simp add: varint_read_def varint_read_write_loop varint_size_def varint_size_write_loop)
qed

text \<open>
  \<open>sum_exceeds\<close> decides \<open>x + y > z\<close> on the unbounded sum for every pair of
  64-bit operands, also where the 64-bit addition would wrap.
\<close>

theorem sum_exceeds_correct: "sum_exceeds x y z \<longleftrightarrow> unat x + unat y > unat z"
  by (rule sum_exceeds_iff)

end
