(* ===== verification/Flat_Static_Buffer.thy ===== *)
theory Flat_Static_Buffer
  imports Dynamic_Buffer
begin

text \<open>
  \<open>beast/core/flat_static_buffer.hpp\<close> and \<open>impl/flat_static_buffer.ipp\<close>: a
  flat buffer over storage of a fixed size, whose pointers are offsets from \<open>begin_\<close>.
\<close>

record flat_static_buffer =
  storage :: bytes
  f_in :: nat
  f_out :: nat
  f_last :: nat

text \<open>\<open>reset_impl(p, n)\<close> on the storage given.\<close>

definition fsb_init :: "bytes \<Rightarrow> flat_static_buffer" where
  "fsb_init p = \<lparr>storage = p, f_in = 0, f_out = 0, f_last = 0\<rparr>"

definition fsb_reset :: "flat_static_buffer \<Rightarrow> flat_static_buffer" where
  "fsb_reset b = b\<lparr>f_in := 0, f_out := 0, f_last := 0\<rparr>"

definition fsb_size :: "flat_static_buffer \<Rightarrow> nat" where
  "fsb_size b = f_out b - f_in b"

definition fsb_max_size :: "flat_static_buffer \<Rightarrow> nat" where
  "fsb_max_size b = length (storage b)"

definition fsb_data :: "flat_static_buffer \<Rightarrow> bytes" where
  "fsb_data b = take (f_out b - f_in b) (drop (f_in b) (storage b))"

definition fsb_out :: "flat_static_buffer \<Rightarrow> bytes" where
  "fsb_out b = take (f_last b - f_out b) (drop (f_out b) (storage b))"

definition fsb_prepare :: "nat \<Rightarrow> flat_static_buffer \<Rightarrow> buffer_error + flat_static_buffer" where
  "fsb_prepare n b =
     (if n \<le> length (storage b) - f_out b then Inr (b\<lparr>f_last := f_out b + n\<rparr>)
      else let len = fsb_size b in
        if n > fsb_max_size b - len then Inl Length_error
        else let m = (if len > 0 then blit 0 (fsb_data b) (storage b) else storage b)
          in Inr (b\<lparr>storage := m, f_in := 0, f_out := len, f_last := len + n\<rparr>))"

definition fsb_fill :: "bytes \<Rightarrow> flat_static_buffer \<Rightarrow> flat_static_buffer" where
  "fsb_fill src b = b\<lparr>storage := blit (f_out b) (take (f_last b - f_out b) src) (storage b)\<rparr>"

definition fsb_commit :: "nat \<Rightarrow> flat_static_buffer \<Rightarrow> flat_static_buffer" where
  "fsb_commit n b = b\<lparr>f_out := f_out b + min n (f_last b - f_out b)\<rparr>"

definition fsb_consume :: "nat \<Rightarrow> flat_static_buffer \<Rightarrow> flat_static_buffer" where
  "fsb_consume n b =
     (if n \<ge> fsb_size b then b\<lparr>f_in := 0, f_out := 0\<rparr> else b\<lparr>f_in := f_in b + n\<rparr>)"

section \<open>Invariant\<close>

definition fsb_inv :: "flat_static_buffer \<Rightarrow> bool" where
  "fsb_inv b \<longleftrightarrow> f_in b \<le> f_out b \<and> f_out b \<le> f_last b \<and> f_last b \<le> length (storage b)"

lemma fsb_inv_init: "fsb_inv (fsb_init p)"
  by (simp add: fsb_inv_def fsb_init_def)

lemma length_fsb_data: "fsb_inv b \<Longrightarrow> length (fsb_data b) = f_out b - f_in b"
  by (auto simp: fsb_inv_def fsb_data_def)

lemma fsb_prepare_error:
  assumes "fsb_inv b" "fsb_max_size b < length (fsb_data b) + n"
  shows "fsb_prepare n b = Inl Length_error"
proof -
  have "\<not> n \<le> length (storage b) - f_out b" "n > length (storage b) - (f_out b - f_in b)"
    using assms(2) assms(1) unfolding length_fsb_data [OF assms(1)] fsb_inv_def fsb_max_size_def by linarith+
  then show ?thesis
    unfolding fsb_prepare_def fsb_size_def fsb_max_size_def Let_def by (simp only: if_False if_True)
qed

lemma fsb_prepare_ok:
  assumes b: "fsb_inv b" and n: "length (fsb_data b) + n \<le> fsb_max_size b"
  shows "\<exists>b'. fsb_prepare n b = Inr b' \<and> fsb_inv b' \<and> fsb_data b' = fsb_data b
    \<and> length (fsb_out b') = n \<and> fsb_max_size b' = fsb_max_size b"
proof (cases "n \<le> length (storage b) - f_out b")
  case True
  then have "fsb_prepare n b = Inr (b\<lparr>f_last := f_out b + n\<rparr>)"
    by (simp only: fsb_prepare_def if_True)
  moreover have "f_out b + n \<le> length (storage b)"
    using True b unfolding fsb_inv_def by linarith
  ultimately show ?thesis
    using True b by (simp add: fsb_inv_def fsb_data_def fsb_out_def fsb_max_size_def)
next
  case False
  let ?len = "f_out b - f_in b"
  let ?m = "if ?len > 0 then blit 0 (fsb_data b) (storage b) else storage b"
  let ?b = "b\<lparr>storage := ?m, f_in := 0, f_out := ?len, f_last := ?len + n\<rparr>"
  have len: "length (fsb_data b) = ?len" "?len \<le> length (storage b)"
    using b by (auto simp: length_fsb_data fsb_inv_def)
  have m: "take ?len ?m = fsb_data b" "length ?m = length (storage b)"
    using len drop_blit_at [of 0 "fsb_data b" "storage b"] by auto
  have "\<not> n > length (storage b) - ?len"
    using n len by (simp add: fsb_max_size_def)
  then have prep: "fsb_prepare n b = Inr ?b"
    using False by (simp only: fsb_prepare_def fsb_size_def fsb_max_size_def Let_def if_False)
  have "fsb_data ?b = take ?len ?m"
    unfolding fsb_data_def [of ?b] by simp
  then have "fsb_data ?b = fsb_data b"
    using m(1) by (rule trans)
  moreover have "fsb_inv ?b" "length (fsb_out ?b) = n" "fsb_max_size ?b = fsb_max_size b"
    using m(2) n len by (simp_all add: fsb_inv_def fsb_out_def fsb_max_size_def)
  ultimately show ?thesis
    using prep by blast
qed

lemma fsb_fill_laws:
  assumes "fsb_inv b"
  shows "fsb_inv (fsb_fill src b) \<and> fsb_data (fsb_fill src b) = fsb_data b
    \<and> fsb_max_size (fsb_fill src b) = fsb_max_size b
    \<and> fsb_out (fsb_fill src b) = take (length (fsb_out b)) src @ drop (length src) (fsb_out b)"
proof -
  have pos: "f_in b \<le> f_out b" "f_out b \<le> f_last b" "f_last b \<le> length (storage b)"
    using assms by (simp_all add: fsb_inv_def)
  then have "length (fsb_out b) = f_last b - f_out b"
    by (simp add: fsb_out_def)
  then show ?thesis
    using pos blit_out [OF pos, of src]
    by (simp add: fsb_fill_def fsb_inv_def fsb_data_def fsb_out_def fsb_max_size_def)
qed

lemma fsb_commit_laws:
  assumes "fsb_inv b"
  shows "fsb_inv (fsb_commit n b) \<and> fsb_data (fsb_commit n b) = fsb_data b @ take n (fsb_out b)
    \<and> fsb_max_size (fsb_commit n b) = fsb_max_size b"
proof -
  have pos: "f_in b \<le> f_out b" "f_out b \<le> f_last b" "f_last b \<le> length (storage b)"
    using assms by (simp_all add: fsb_inv_def)
  let ?k = "min n (f_last b - f_out b)"
  have "take (f_out b + ?k - f_in b) (drop (f_in b) (storage b))
      = take (f_out b - f_in b) (drop (f_in b) (storage b)) @ take ?k (drop (f_out b) (storage b))"
    using pos take_add [of "f_out b - f_in b" ?k "drop (f_in b) (storage b)"] by simp
  then show ?thesis
    using pos by (simp add: fsb_commit_def fsb_inv_def fsb_data_def fsb_out_def fsb_max_size_def)
qed

lemma fsb_consume_laws:
  assumes "fsb_inv b"
  shows "fsb_inv (fsb_consume n b) \<and> fsb_data (fsb_consume n b) = drop n (fsb_data b)
    \<and> fsb_max_size (fsb_consume n b) = fsb_max_size b"
  using assms by (auto simp: fsb_consume_def fsb_inv_def fsb_data_def fsb_size_def fsb_max_size_def drop_take add.commute)

interpretation fsb: dynamic_buffer fsb_inv fsb_data fsb_out fsb_max_size fsb_prepare fsb_fill fsb_commit fsb_consume
  by unfold_locales (use fsb_prepare_error fsb_prepare_ok fsb_fill_laws fsb_commit_laws fsb_consume_laws in blast)+

section \<open>Properties\<close>

text \<open>
  A buffer over any storage, whatever it holds, is a queue of bytes bounded by the
  size of the storage: no operation reads or writes outside it, \<open>prepare\<close> throws
  exactly on overflow, and the bytes come out in order.
\<close>

theorem flat_static_buffer_refines:
  "map_sum id fsb_data (run_ops fsb_prepare fsb_fill fsb_commit fsb_consume ops (fsb_init p))
    = queue_ops (length p) ops []
   \<and> (\<forall>b. run_ops fsb_prepare fsb_fill fsb_commit fsb_consume ops (fsb_init p) = Inr b \<longrightarrow>
        f_in b \<le> f_out b \<and> f_out b \<le> f_last b \<and> f_last b \<le> length (storage b))"
  using fsb.ops_abs [OF fsb_inv_init, of ops p] fsb.ops_inv [OF fsb_inv_init, of ops p]
  by (simp add: fsb_init_def fsb_data_def fsb_max_size_def fsb_inv_def)

theorem flat_static_buffer_refines_witness:
  "map_sum id fsb_data (run_ops fsb_prepare fsb_fill fsb_commit fsb_consume
      [Put 3 [1, 2, 3], Consume 2, Put 3 [4, 5]] (fsb_init [9, 9, 9, 9])) = Inr [3, 4, 5]"
  using flat_static_buffer_refines [of "[Put 3 [1, 2, 3], Consume 2, Put 3 [4, 5]]" "[9, 9, 9, 9]"] by simp

end
