(* ===== verification/Frame.thy ===== *)
theory Frame
  imports Utf8_Checker Mask Varint Flat_Static_Buffer
begin

text \<open>
  \<open>beast/websocket/detail/frame.hpp\<close> and the frame functions of
  \<open>beast/websocket/impl/stream.ipp\<close>: the header of a WebSocket frame is written to
  any dynamic buffer and read back from its bytes.  The big-endian stores of Boost.Endian
  are the arguments \<open>big16\<close> and \<open>big64\<close>.
\<close>

section \<open>Integers in memory\<close>

definition big_uint16_to_native :: "bytes \<Rightarrow> u16" where
  "big_uint16_to_native p = push_bit 8 (ucast (p ! 0)) + ucast (p ! 1)"

definition big_uint64_to_native :: "bytes \<Rightarrow> u64" where
  "big_uint64_to_native p =
     push_bit 56 (ucast (p ! 0)) + push_bit 48 (ucast (p ! 1)) + push_bit 40 (ucast (p ! 2)) +
     push_bit 32 (ucast (p ! 3)) + push_bit 24 (ucast (p ! 4)) + push_bit 16 (ucast (p ! 5)) +
     push_bit 8 (ucast (p ! 6)) + ucast (p ! 7)"

definition little_uint32_to_native :: "bytes \<Rightarrow> u32" where
  "little_uint32_to_native p =
     ucast (p ! 0) + push_bit 8 (ucast (p ! 1)) + push_bit 16 (ucast (p ! 2)) + push_bit 24 (ucast (p ! 3))"

definition native_to_little_uint32 :: "u32 \<Rightarrow> bytes" where
  "native_to_little_uint32 v =
     [ucast (v AND 0xff), ucast (drop_bit 8 v AND 0xff), ucast (drop_bit 16 v AND 0xff),
      ucast (drop_bit 24 v AND 0xff)]"

section \<open>Frame headers\<close>

datatype opcode = Cont | Text | Binary | Rsv3 | Rsv4 | Rsv5 | Rsv6 | Rsv7
  | Close | Ping | Pong | Crsvb | Crsvc | Crsvd | Crsve | Crsvf

definition opcodes :: "opcode list" where
  "opcodes = [Cont, Text, Binary, Rsv3, Rsv4, Rsv5, Rsv6, Rsv7, Close, Ping, Pong, Crsvb, Crsvc, Crsvd, Crsve, Crsvf]"

text \<open>The integer of an enumerator, and the enumerator of a four-bit integer.\<close>

fun opcode_int :: "opcode \<Rightarrow> nat" where
  "opcode_int Cont = 0" | "opcode_int Text = 1" | "opcode_int Binary = 2" | "opcode_int Rsv3 = 3"
| "opcode_int Rsv4 = 4" | "opcode_int Rsv5 = 5" | "opcode_int Rsv6 = 6" | "opcode_int Rsv7 = 7"
| "opcode_int Close = 8" | "opcode_int Ping = 9" | "opcode_int Pong = 10" | "opcode_int Crsvb = 11"
| "opcode_int Crsvc = 12" | "opcode_int Crsvd = 13" | "opcode_int Crsve = 14" | "opcode_int Crsvf = 15"

definition opcode_of :: "u8 \<Rightarrow> opcode" where
  "opcode_of b = opcodes ! unat b"

text \<open>Enumerators are compared as their integers.\<close>

instantiation opcode :: linorder
begin

definition less_eq_opcode :: "opcode \<Rightarrow> opcode \<Rightarrow> bool" where
  "less_eq_opcode a b \<longleftrightarrow> opcode_int a \<le> opcode_int b"

definition less_opcode :: "opcode \<Rightarrow> opcode \<Rightarrow> bool" where
  "less_opcode a b \<longleftrightarrow> opcode_int a < opcode_int b"

instance
proof
  fix a b :: opcode
  show "a \<le> b \<Longrightarrow> b \<le> a \<Longrightarrow> a = b"
    by (cases a; cases b) (simp_all add: less_eq_opcode_def)
qed (auto simp: less_eq_opcode_def less_opcode_def)

end

record frame_header =
  fh_len :: u64
  fh_key :: u32
  fh_op :: opcode
  fh_fin :: bool
  fh_mask :: bool
  fh_rsv1 :: bool
  fh_rsv2 :: bool
  fh_rsv3 :: bool

definition is_reserved :: "opcode \<Rightarrow> bool" where
  "is_reserved op \<longleftrightarrow> (op \<ge> Rsv3 \<and> op \<le> Rsv7) \<or> (op \<ge> Crsvb \<and> op \<le> Crsvf)"

definition is_valid_op :: "opcode \<Rightarrow> bool" where
  "is_valid_op op \<longleftrightarrow> op \<le> Crsvf"

definition is_control :: "opcode \<Rightarrow> bool" where
  "is_control op \<longleftrightarrow> op \<ge> Close"

definition is_valid_close_code :: "u16 \<Rightarrow> bool" where
  "is_valid_close_code v =
     (if v \<in> {1000, 1001, 1002, 1003, 1007, 1008, 1009, 1010, 1011, 1012, 1013} then True
      else if v \<in> {1004, 1005, 1006, 1014, 1015} then False
      else if v \<ge> 1016 \<and> v \<le> 2999 then False
      else if v \<le> 999 then False
      else True)"

section \<open>Writing\<close>

text \<open>The first \<open>n\<close> bytes of the array \<open>b\<close>.\<close>

definition header_bytes :: "(u16 \<Rightarrow> bytes) \<Rightarrow> (u64 \<Rightarrow> bytes) \<Rightarrow> frame_header \<Rightarrow> bytes" where
  "header_bytes big16 big64 fh =
     (let b0 = (if fh_fin fh then 0x80 else 0x00) OR of_nat (opcode_int (fh_op fh));
          b0 = (if fh_rsv1 fh then b0 OR 0x40 else b0);
          b0 = (if fh_rsv2 fh then b0 OR 0x20 else b0);
          b0 = (if fh_rsv3 fh then b0 OR 0x10 else b0);
          b1 = (if fh_mask fh then 0x80 else 0x00);
          b = (if fh_len fh \<le> 125 then [b0, b1 OR ucast (fh_len fh)]
               else if fh_len fh \<le> 65535 then [b0, b1 OR 126] @ big16 (ucast (fh_len fh))
               else [b0, b1 OR 127] @ big64 (fh_len fh))
      in if fh_mask fh then b @ native_to_little_uint32 (fh_key fh) else b)"

definition frame_write ::
  "(nat \<Rightarrow> 'b \<Rightarrow> buffer_error + 'b) \<Rightarrow> (bytes \<Rightarrow> 'b \<Rightarrow> 'b) \<Rightarrow> (nat \<Rightarrow> 'b \<Rightarrow> 'b) \<Rightarrow>
    (u16 \<Rightarrow> bytes) \<Rightarrow> (u64 \<Rightarrow> bytes) \<Rightarrow> frame_header \<Rightarrow> 'b \<Rightarrow> buffer_error + 'b"
where
  "frame_write prepare fill commit big16 big64 fh db =
     (let b = header_bytes big16 big64 fh in buffer_put prepare fill commit (length b) b db)"

section \<open>Reading\<close>

datatype ws_error = Bad_data_frame | Bad_reserved_bits | Bad_continuation | Bad_opcode
  | Bad_control_fragment | Bad_control_size | Bad_unmasked_frame | Bad_masked_frame | Bad_size
  | Message_too_big | Bad_close_size | Bad_close_code | Bad_close_payload

datatype role_type = Client | Server

text \<open>
  The members of the stream that header parsing reads and writes.  \<open>pmd\<close> is
  \<open>None\<close> for a null \<open>pmd_\<close> (also when deflate is not supported), and else its
  \<open>rd_set\<close>.
\<close>

record ws_read =
  role :: role_type
  rd_cont :: bool
  rd_size :: u64
  rd_msg_max :: u64
  rd_op :: opcode
  rd_remain :: u64
  rd_key :: bytes
  pmd :: "bool option"

definition rd_deflated :: "ws_read \<Rightarrow> bool" where
  "rd_deflated st \<longleftrightarrow> pmd st = Some True"

definition set_rd_deflated :: "bool \<Rightarrow> ws_read \<Rightarrow> bool \<times> ws_read" where
  "set_rd_deflated rsv1 st =
     (case pmd st of Some _ \<Rightarrow> (True, st\<lparr>pmd := Some rsv1\<rparr>) | None \<Rightarrow> (\<not> rsv1, st))"

text \<open>The bytes that the length field and the key need after the first two.\<close>

definition fh_need :: "bytes \<Rightarrow> nat" where
  "fh_need b =
     (let len = b ! 1 AND 0x7f in
      (if len = 126 then 2 else if len = 127 then 8 else 0) +
      (if b ! 1 AND 0x80 \<noteq> 0 then 4 else 0))"

definition fh_first :: "bytes \<Rightarrow> frame_header \<Rightarrow> frame_header" where
  "fh_first b fh = fh\<lparr>fh_len := ucast (b ! 1 AND 0x7f), fh_mask := b ! 1 AND 0x80 \<noteq> 0\<rparr>"

definition fh_flags :: "bytes \<Rightarrow> frame_header \<Rightarrow> frame_header" where
  "fh_flags b fh = fh\<lparr>
     fh_op := opcode_of (b ! 0 AND 0x0f), fh_fin := b ! 0 AND 0x80 \<noteq> 0,
     fh_rsv1 := b ! 0 AND 0x40 \<noteq> 0, fh_rsv2 := b ! 0 AND 0x20 \<noteq> 0, fh_rsv3 := b ! 0 AND 0x10 \<noteq> 0\<rparr>"

definition fh_check_op :: "frame_header \<Rightarrow> ws_read \<Rightarrow> ws_error option \<times> ws_read" where
  "fh_check_op fh st =
     (if fh_op fh = Binary \<or> fh_op fh = Text then
        if rd_cont st then (Some Bad_data_frame, st)
        else if fh_rsv2 fh \<or> fh_rsv3 fh then (Some Bad_reserved_bits, st)
        else case set_rd_deflated (fh_rsv1 fh) st of
            (ok, st) \<Rightarrow> (if ok then None else Some Bad_reserved_bits, st)
      else if fh_op fh = Cont then
        if \<not> rd_cont st then (Some Bad_continuation, st)
        else if fh_rsv1 fh \<or> fh_rsv2 fh \<or> fh_rsv3 fh then (Some Bad_reserved_bits, st)
        else (None, st)
      else if is_reserved (fh_op fh) then (Some Bad_opcode, st)
      else if \<not> fh_fin fh then (Some Bad_control_fragment, st)
      else if fh_len fh > 125 then (Some Bad_control_size, st)
      else if fh_rsv1 fh \<or> fh_rsv2 fh \<or> fh_rsv3 fh then (Some Bad_reserved_bits, st)
      else (None, st))"

definition fh_check_mask :: "frame_header \<Rightarrow> ws_read \<Rightarrow> ws_error option" where
  "fh_check_mask fh st =
     (if role st = Server \<and> \<not> fh_mask fh then Some Bad_unmasked_frame
      else if role st = Client \<and> fh_mask fh then Some Bad_masked_frame
      else None)"

text \<open>The extended length: the header, the bytes left, and the error.\<close>

definition fh_read_len :: "frame_header \<Rightarrow> bytes \<Rightarrow> ws_error option \<times> frame_header \<times> bytes" where
  "fh_read_len fh cb =
     (if fh_len fh = 126 then
        let fh = fh\<lparr>fh_len := ucast (big_uint16_to_native cb)\<rparr> in
        (if fh_len fh < 126 then Some Bad_size else None, fh, drop 2 cb)
      else if fh_len fh = 127 then
        let fh = fh\<lparr>fh_len := big_uint64_to_native cb\<rparr> in
        (if fh_len fh < 65536 then Some Bad_size else None, fh, drop 8 cb)
      else (None, fh, cb))"

definition fh_read_key :: "frame_header \<Rightarrow> bytes \<Rightarrow> ws_read \<Rightarrow> frame_header \<times> bytes \<times> ws_read" where
  "fh_read_key fh cb st =
     (if fh_mask fh then
        let fh = fh\<lparr>fh_key := little_uint32_to_native cb\<rparr> in
        (fh, drop 4 cb, st\<lparr>rd_key := prepare_key (fh_key fh)\<rparr>)
      else (fh\<lparr>fh_key := 0\<rparr>, cb, st))"

text \<open>What a data frame does to the stream.\<close>

definition fh_data_frame :: "frame_header \<Rightarrow> ws_read \<Rightarrow> ws_error option \<times> ws_read" where
  "fh_data_frame fh st =
     (let (err, st) =
        (if fh_op fh \<noteq> Cont then (None, st\<lparr>rd_size := 0, rd_op := fh_op fh\<rparr>)
         else if rd_size st > - 1 - fh_len fh then (Some Message_too_big, st)
         else (None, st))
      in if err \<noteq> None then (err, st)
        else if \<not> rd_deflated st \<and> rd_msg_max st \<noteq> 0 \<and> sum_exceeds (rd_size st) (fh_len fh) (rd_msg_max st)
          then (Some Message_too_big, st)
        else (None, st\<lparr>rd_cont := \<not> fh_fin fh, rd_remain := fh_len fh\<rparr>))"

text \<open>
  \<open>parse_fh\<close> on the readable bytes \<open>b\<close> of the buffer: the result, the error
  code, the header, the stream, and how much the buffer is consumed.
\<close>

definition parse_fh ::
  "bytes \<Rightarrow> ws_error option \<Rightarrow> frame_header \<Rightarrow> ws_read \<Rightarrow>
    bool \<times> ws_error option \<times> frame_header \<times> ws_read \<times> nat"
where
  "parse_fh b ec fh st =
     (if length b < 2 then (False, None, fh, st, 0)
      else let cb = drop 2 b; need = fh_need b; fh = fh_first b fh in
        if length cb < need then (False, None, fh, st, 0)
        else let fh = fh_flags b fh; (err, st) = fh_check_op fh st in
          if err \<noteq> None then (False, err, fh, st, 0)
          else if fh_check_mask fh st \<noteq> None then (False, fh_check_mask fh st, fh, st, 0)
          else if is_control (fh_op fh) \<and> length cb < need + unat (fh_len fh) then (False, ec, fh, st, 0)
          else let (err, fh, cb) = fh_read_len fh cb in
            if err \<noteq> None then (False, err, fh, st, 0)
            else let (fh, cb, st) = fh_read_key fh cb st in
              if is_control (fh_op fh) then (True, None, fh, st, length b - length cb)
              else let (err, st) = fh_data_frame fh st in
                if err \<noteq> None then (False, err, fh, st, 0)
                else (True, None, fh, st, length b - length cb))"

section \<open>Control frames\<close>

record close_reason =
  cr_code :: u16
  cr_reason :: bytes

text \<open>
  \<open>read_close\<close>; \<open>None\<close> is the exception of resizing the reason past its 123
  bytes.  The arguments \<open>tmp\<close> and \<open>addr\<close> are those of \<open>check_utf8\<close>.
\<close>

definition read_close ::
  "bytes \<Rightarrow> nat \<Rightarrow> bytes \<Rightarrow> close_reason \<Rightarrow> (close_reason \<times> ws_error option) option"
where
  "read_close tmp addr bs cr =
     (let n = length bs in
      if n = 0 then Some (\<lparr>cr_code = 0, cr_reason = []\<rparr>, None)
      else if n = 1 then Some (cr, Some Bad_close_size)
      else let cr = cr\<lparr>cr_code := big_uint16_to_native bs\<rparr>; n = n - 2; cb = drop 2 bs in
        if \<not> is_valid_close_code (cr_code cr) then Some (cr, Some Bad_close_code)
        else if n > 0 then
          if n > 123 then None
          else let cr = cr\<lparr>cr_reason := cb\<rparr> in
            if \<not> check_utf8 tmp addr (cr_reason cr) then Some (cr, Some Bad_close_payload)
            else Some (cr, None)
        else Some (cr\<lparr>cr_reason := []\<rparr>, None))"

definition control_header :: "opcode \<Rightarrow> role_type \<Rightarrow> u32 \<Rightarrow> u64 \<Rightarrow> frame_header" where
  "control_header op r key len =
     \<lparr>fh_len = len, fh_key = key, fh_op = op, fh_fin = True, fh_mask = (r = Client),
      fh_rsv1 = False, fh_rsv2 = False, fh_rsv3 = False\<rparr>"

text \<open>\<open>write_close\<close>; \<open>key\<close> is the mask that \<open>create_mask\<close> returns to a client.\<close>

definition write_close ::
  "(nat \<Rightarrow> 'b \<Rightarrow> buffer_error + 'b) \<Rightarrow> (bytes \<Rightarrow> 'b \<Rightarrow> 'b) \<Rightarrow> (nat \<Rightarrow> 'b \<Rightarrow> 'b) \<Rightarrow>
    (u16 \<Rightarrow> bytes) \<Rightarrow> (u64 \<Rightarrow> bytes) \<Rightarrow> role_type \<Rightarrow> u32 \<Rightarrow> close_reason \<Rightarrow> 'b \<Rightarrow> buffer_error + 'b"
where
  "write_close prepare fill commit big16 big64 r key cr db =
     (let fh = control_header Close r key (if cr_code cr = 0 then 0 else 2 + of_nat (length (cr_reason cr))) in
      case frame_write prepare fill commit big16 big64 fh db of
        Inl e \<Rightarrow> Inl e
      | Inr db \<Rightarrow>
          if cr_code cr = 0 then Inr db
          else let k = prepare_key key; tmp = big16 (cr_code cr);
                   (tmp, k) = (if fh_mask fh then mask_inplace tmp k else (tmp, k)) in
            case buffer_put prepare fill commit 2 tmp db of
              Inl e \<Rightarrow> Inl e
            | Inr db \<Rightarrow>
                if cr_reason cr = [] then Inr db
                else let src = (if fh_mask fh then fst (mask_inplace (cr_reason cr) k) else cr_reason cr)
                  in buffer_put prepare fill commit (length (cr_reason cr)) src db)"

definition write_ping ::
  "(nat \<Rightarrow> 'b \<Rightarrow> buffer_error + 'b) \<Rightarrow> (bytes \<Rightarrow> 'b \<Rightarrow> 'b) \<Rightarrow> (nat \<Rightarrow> 'b \<Rightarrow> 'b) \<Rightarrow>
    (u16 \<Rightarrow> bytes) \<Rightarrow> (u64 \<Rightarrow> bytes) \<Rightarrow> role_type \<Rightarrow> u32 \<Rightarrow> opcode \<Rightarrow> bytes \<Rightarrow> 'b \<Rightarrow> buffer_error + 'b"
where
  "write_ping prepare fill commit big16 big64 r key code data db =
     (let fh = control_header code r key (of_nat (length data)) in
      case frame_write prepare fill commit big16 big64 fh db of
        Inl e \<Rightarrow> Inl e
      | Inr db \<Rightarrow>
          if data = [] then Inr db
          else buffer_put prepare fill commit (length data)
            (if fh_mask fh then fst (mask_inplace data (prepare_key key)) else data) db)"


section \<open>Documented behaviour of Boost.Endian\<close>

text \<open>\<open>big_uint16_buf_t\<close> and \<open>big_uint64_buf_t\<close> hold the most significant byte first.\<close>

definition big_endian16 :: "u16 \<Rightarrow> bytes" where
  "big_endian16 v = [ucast (drop_bit 8 v), ucast v]"

definition big_endian64 :: "u64 \<Rightarrow> bytes" where
  "big_endian64 v =
     [ucast (drop_bit 56 v), ucast (drop_bit 48 v), ucast (drop_bit 40 v), ucast (drop_bit 32 v),
      ucast (drop_bit 24 v), ucast (drop_bit 16 v), ucast (drop_bit 8 v), ucast v]"

lemma opcode_int_less: "opcode_int op < 16"
  by (cases op) simp_all

lemma be_bytes_nat_length: "length xs = k \<Longrightarrow> be_bytes k (be_nat xs) = xs"
  using be_bytes_nat [of xs] by simp

lemma big16_nat: "big_uint16_to_native (a # b # r) = of_nat (be_nat [a, b])"
  by (simp add: big_uint16_to_native_def be_nat_def push_bit_eq_mult mult.commute)

lemma big64_nat: "big_uint64_to_native (a # b # c # d # e # f # g # h # r) = of_nat (be_nat [a, b, c, d, e, f, g, h])"
  by (simp add: big_uint64_to_native_def be_nat_def push_bit_eq_mult numeral_2_eq_2 numeral_3_eq_3 algebra_simps)

lemma little32_nat: "little_uint32_to_native (a # b # c # d # r) = of_nat (be_nat [d, c, b, a])"
  by (simp add: little_uint32_to_native_def be_nat_def push_bit_eq_mult numeral_2_eq_2 numeral_3_eq_3 algebra_simps)

lemma big_endian16_be: "big_endian16 v = be_bytes 2 (unat v)"
  using byte_of_word [of 8 v] by (simp add: big_endian16_def be_bytes_2)

lemma big_endian64_be: "big_endian64 v = be_bytes 8 (unat v)"
  using byte_of_word [of 56 v] byte_of_word [of 48 v] byte_of_word [of 40 v] byte_of_word [of 32 v]
    byte_of_word [of 24 v] byte_of_word [of 16 v] byte_of_word [of 8 v]
  by (simp add: big_endian64_def be_bytes_8)

lemma native_to_little_be: "native_to_little_uint32 v = rev (be_bytes 4 (unat v))"
  using byte_of_word [of 24 v] byte_of_word [of 16 v] byte_of_word [of 8 v]
  by (simp add: native_to_little_uint32_def byte_of_word_and be_bytes_4)

lemma native_be16 [simp]: "big_uint16_to_native (big_endian16 v @ r) = v"
proof -
  have "big_uint16_to_native (big_endian16 v @ r) = of_nat (be_nat (big_endian16 v))"
    by (simp add: big_endian16_def big16_nat)
  then show ?thesis
    unfolding big_endian16_be be_nat_bytes using unsigned_less [of v, where ?'a = nat] by simp
qed

lemma native_be64 [simp]: "big_uint64_to_native (big_endian64 v @ r) = v"
proof -
  have "big_uint64_to_native (big_endian64 v @ r) = of_nat (be_nat (big_endian64 v))"
    by (simp add: big_endian64_def big64_nat)
  then show ?thesis
    unfolding big_endian64_be be_nat_bytes using unsigned_less [of v, where ?'a = nat] by simp
qed

lemma native_le32 [simp]: "little_uint32_to_native (native_to_little_uint32 v @ r) = v"
proof -
  have "little_uint32_to_native (native_to_little_uint32 v @ r) = of_nat (be_nat (rev (native_to_little_uint32 v)))"
    by (simp add: native_to_little_uint32_def little32_nat)
  then show ?thesis
    unfolding native_to_little_be rev_rev_ident be_nat_bytes using unsigned_less [of v, where ?'a = nat] by simp
qed

lemma be16_native: "big_endian16 (big_uint16_to_native (a # b # r)) = [a, b]"
  using be_nat_less [of "[a, b]"] be_bytes_nat_length [of "[a, b]" 2]
  by (simp add: big16_nat big_endian16_be unat_of_nat)

lemma be64_native: "big_endian64 (big_uint64_to_native (a # b # c # d # e # f # g # h # r)) = [a, b, c, d, e, f, g, h]"
  using be_nat_less [of "[a, b, c, d, e, f, g, h]"] be_bytes_nat_length [of "[a, b, c, d, e, f, g, h]" 8]
  by (simp add: big64_nat big_endian64_be unat_of_nat)

lemma le32_native: "native_to_little_uint32 (little_uint32_to_native (a # b # c # d # r)) = [a, b, c, d]"
  using be_nat_less [of "[d, c, b, a]"] be_bytes_nat_length [of "[d, c, b, a]" 4]
  by (simp add: little32_nat native_to_little_be unat_of_nat)

section \<open>The first two bytes\<close>

definition byte0 :: "frame_header \<Rightarrow> u8" where
  "byte0 fh =
     (if fh_rsv3 fh then 0x10 else 0) OR (if fh_rsv2 fh then 0x20 else 0) OR
     (if fh_rsv1 fh then 0x40 else 0) OR (if fh_fin fh then 0x80 else 0) OR of_nat (opcode_int (fh_op fh))"

definition len7 :: "frame_header \<Rightarrow> u8" where
  "len7 fh = (if fh_len fh \<le> 125 then ucast (fh_len fh) else if fh_len fh \<le> 65535 then 126 else 127)"

definition byte1 :: "frame_header \<Rightarrow> u8" where
  "byte1 fh = (if fh_mask fh then 0x80 else 0) OR len7 fh"

lemma byte0_read:
  "opcode_of (byte0 fh AND 0x0f) = fh_op fh" "(byte0 fh AND 0x80 \<noteq> 0) = fh_fin fh"
  "(byte0 fh AND 0x40 \<noteq> 0) = fh_rsv1 fh" "(byte0 fh AND 0x20 \<noteq> 0) = fh_rsv2 fh"
  "(byte0 fh AND 0x10 \<noteq> 0) = fh_rsv3 fh"
proof -
  let ?op = "of_nat (opcode_int (fh_op fh)) :: u8"
  have hi0: "\<not> bit (opcode_int (fh_op fh)) 4" "\<not> bit (opcode_int (fh_op fh)) 5"
    "\<not> bit (opcode_int (fh_op fh)) 6" "\<not> bit (opcode_int (fh_op fh)) 7"
    using opcode_int_less [of "fh_op fh"] by (auto simp: bit_iff_odd)
  then have hi: "\<not> bit ?op 4" "\<not> bit ?op 5" "\<not> bit ?op 6" "\<not> bit ?op 7"
    by (simp_all add: bit_of_nat_iff)
  have "byte0 fh AND 0x0f = ?op"
    by (rule u8_eqI; simp add: byte0_def bit_simps bit_consts hi0)
  then show "opcode_of (byte0 fh AND 0x0f) = fh_op fh"
    by (cases "fh_op fh") (simp_all add: opcode_of_def opcodes_def)
  have test: "(x AND 0x80 \<noteq> 0) = bit x 7" "(x AND 0x40 \<noteq> 0) = bit x 6" "(x AND 0x20 \<noteq> 0) = bit x 5"
    "(x AND 0x10 \<noteq> 0) = bit x 4" for x :: u8
    using and_exp_eq_0_iff_not_bit [of x 7] and_exp_eq_0_iff_not_bit [of x 6] and_exp_eq_0_iff_not_bit [of x 5]
      and_exp_eq_0_iff_not_bit [of x 4] by simp_all
  show "(byte0 fh AND 0x80 \<noteq> 0) = fh_fin fh"
    "(byte0 fh AND 0x40 \<noteq> 0) = fh_rsv1 fh" "(byte0 fh AND 0x20 \<noteq> 0) = fh_rsv2 fh"
    "(byte0 fh AND 0x10 \<noteq> 0) = fh_rsv3 fh"
    unfolding test byte0_def using hi0 by (simp_all add: bit_simps bit_consts)
qed


lemma byte0_write:
  "byte0 \<lparr>fh_len = l, fh_key = k, fh_op = opcode_of (b AND 0x0f), fh_fin = b AND 0x80 \<noteq> 0, fh_mask = m,
     fh_rsv1 = b AND 0x40 \<noteq> 0, fh_rsv2 = b AND 0x20 \<noteq> 0, fh_rsv3 = b AND 0x10 \<noteq> 0\<rparr> = b"
proof -
  have test: "(b AND 0x80 \<noteq> 0) = bit b 7" "(b AND 0x40 \<noteq> 0) = bit b 6" "(b AND 0x20 \<noteq> 0) = bit b 5"
    "(b AND 0x10 \<noteq> 0) = bit b 4"
    using and_exp_eq_0_iff_not_bit [of b 7] and_exp_eq_0_iff_not_bit [of b 6] and_exp_eq_0_iff_not_bit [of b 5]
      and_exp_eq_0_iff_not_bit [of b 4] by simp_all
  have "unat (b AND 0x0f) < 16"
    using and_mask_mod [of b 4] by (simp add: mask_eq_exp_minus_1 unat_mod)
  then have op: "(of_nat (opcode_int (opcode_of (b AND 0x0f))) :: u8) = b AND 0x0f"
  proof -
    have "list_all (\<lambda>n. opcode_int (opcodes ! n) = n) [0..<16]"
      by code_simp
    then have "opcode_int (opcode_of (b AND 0x0f)) = unat (b AND 0x0f)"
      using \<open>unat (b AND 0x0f) < 16\<close> by (simp add: opcode_of_def list_all_iff)
    then show ?thesis
      by simp
  qed
  show ?thesis
    by (rule u8_eqI; simp add: byte0_def op test bit_simps bit_consts)
qed

lemma len7_less: "unat (len7 fh) < 128"
proof -
  have "unat (ucast (fh_len fh) :: u8) < 128" if "unat (fh_len fh) \<le> 125"
    using that by (simp add: unsigned_ucast_eq le_less_trans [OF take_bit_nat_less_eq_self])
  then show ?thesis
    by (auto simp: len7_def word_le_nat_alt)
qed

lemma byte1_read:
  "(byte1 fh AND 0x80 \<noteq> 0) = fh_mask fh" "byte1 fh AND 0x7f = len7 fh"
proof -
  have "take_bit 7 (unat (len7 fh)) = unat (len7 fh)"
    using len7_less [of fh] by (simp add: take_bit_nat_eq_self_iff)
  then have "take_bit 7 (len7 fh) = len7 fh"
    by (simp only: word_unat_eq_iff unsigned_take_bit_eq)
  then have hi: "\<not> bit (len7 fh) 7"
    using bit_take_bit_iff [of 7 "len7 fh" 7] by simp
  have "(x AND 0x80 \<noteq> 0) = bit x 7" for x :: u8
    using and_exp_eq_0_iff_not_bit [of x 7] by simp
  then show "(byte1 fh AND 0x80 \<noteq> 0) = fh_mask fh"
    using hi by (simp add: byte1_def bit_simps bit_consts)
  show "byte1 fh AND 0x7f = len7 fh"
    by (rule u8_eqI; simp add: byte1_def bit_simps bit_consts hi)
qed

definition ext_bytes :: "(u16 \<Rightarrow> bytes) \<Rightarrow> (u64 \<Rightarrow> bytes) \<Rightarrow> frame_header \<Rightarrow> bytes" where
  "ext_bytes big16 big64 fh = (if fh_len fh \<le> 125 then [] else if fh_len fh \<le> 65535 then big16 (ucast (fh_len fh))
     else big64 (fh_len fh))"

definition key_bytes :: "frame_header \<Rightarrow> bytes" where
  "key_bytes fh = (if fh_mask fh then native_to_little_uint32 (fh_key fh) else [])"

lemma header_bytes_eq:
  "header_bytes big16 big64 fh = [byte0 fh, byte1 fh] @ ext_bytes big16 big64 fh @ key_bytes fh"
  by (simp add: header_bytes_def byte0_def byte1_def len7_def ext_bytes_def key_bytes_def Let_def ac_simps)


section \<open>What the parser accepts\<close>

text \<open>The headers that the protocol allows in a given state of the stream (RFC 6455, 5.2 to 5.5).\<close>

definition next_pmd :: "frame_header \<Rightarrow> ws_read \<Rightarrow> bool option" where
  "next_pmd fh st = (if fh_op fh \<in> {Text, Binary} \<and> pmd st \<noteq> None then Some (fh_rsv1 fh) else pmd st)"

definition next_size :: "frame_header \<Rightarrow> ws_read \<Rightarrow> u64" where
  "next_size fh st = (if fh_op fh = Cont then rd_size st else 0)"

definition acceptable :: "frame_header \<Rightarrow> ws_read \<Rightarrow> nat \<Rightarrow> bool" where
  "acceptable fh st avail \<longleftrightarrow>
     (fh_mask fh \<longleftrightarrow> role st = Server) \<and> \<not> fh_rsv2 fh \<and> \<not> fh_rsv3 fh \<and>
     (if fh_op fh \<in> {Close, Ping, Pong}
      then fh_fin fh \<and> unat (fh_len fh) \<le> 125 \<and> \<not> fh_rsv1 fh \<and> unat (fh_len fh) \<le> avail
      else (fh_op fh \<in> {Text, Binary} \<and> \<not> rd_cont st \<and> (fh_rsv1 fh \<longrightarrow> pmd st \<noteq> None) \<or>
            fh_op fh = Cont \<and> rd_cont st \<and> \<not> fh_rsv1 fh) \<and>
        unat (next_size fh st) + unat (fh_len fh) < 2 ^ 64 \<and>
        (next_pmd fh st \<noteq> Some True \<and> rd_msg_max st \<noteq> 0
          \<longrightarrow> unat (next_size fh st) + unat (fh_len fh) \<le> unat (rd_msg_max st)))"

text \<open>The stream after an accepted header.\<close>

definition accepted :: "frame_header \<Rightarrow> ws_read \<Rightarrow> ws_read" where
  "accepted fh st =
     (let st = st\<lparr>pmd := next_pmd fh st, rd_key := (if fh_mask fh then prepare_key (fh_key fh) else rd_key st)\<rparr>
      in if fh_op fh \<in> {Close, Ping, Pong} then st
        else st\<lparr>rd_size := next_size fh st, rd_op := (if fh_op fh = Cont then rd_op st else fh_op fh),
                rd_cont := \<not> fh_fin fh, rd_remain := fh_len fh\<rparr>)"

lemma op_classes:
  "is_control op \<longleftrightarrow> op \<in> {Close, Ping, Pong, Crsvb, Crsvc, Crsvd, Crsve, Crsvf}"
  "is_reserved op \<longleftrightarrow> op \<in> {Rsv3, Rsv4, Rsv5, Rsv6, Rsv7, Crsvb, Crsvc, Crsvd, Crsve, Crsvf}"
  by (cases op; simp add: is_control_def is_reserved_def less_eq_opcode_def)+

lemma acceptable_ops:
  assumes "acceptable fh st n"
  shows "is_control (fh_op fh) \<longleftrightarrow> fh_op fh \<in> {Close, Ping, Pong}"
    and "is_control (fh_op fh) \<Longrightarrow> unat (fh_len fh) \<le> 125 \<and> unat (fh_len fh) \<le> n"
    and "\<not> is_control (fh_op fh) \<Longrightarrow> fh_op fh \<in> {Text, Binary, Cont}"
  using assms by (cases "fh_op fh"; simp add: acceptable_def op_classes)+

lemma check_op_iff:
  "fst (fh_check_op fh st) = None \<longleftrightarrow>
    (if fh_op fh \<in> {Close, Ping, Pong} then fh_fin fh \<and> fh_len fh \<le> 125 \<and> \<not> fh_rsv1 fh \<and> \<not> fh_rsv2 fh \<and> \<not> fh_rsv3 fh
     else (fh_op fh \<in> {Text, Binary} \<and> \<not> rd_cont st \<and> (fh_rsv1 fh \<longrightarrow> pmd st \<noteq> None) \<or>
           fh_op fh = Cont \<and> rd_cont st \<and> \<not> fh_rsv1 fh) \<and> \<not> fh_rsv2 fh \<and> \<not> fh_rsv3 fh)"
  by (cases "fh_op fh"; cases "pmd st")
    (simp_all add: fh_check_op_def set_rd_deflated_def op_classes not_le [symmetric] split: option.splits)

lemma check_op_state:
  "fst (fh_check_op fh st) = None \<Longrightarrow> snd (fh_check_op fh st) = st\<lparr>pmd := next_pmd fh st\<rparr>"
  by (cases "fh_op fh"; cases "pmd st")
    (auto simp: fh_check_op_def set_rd_deflated_def op_classes next_pmd_def split: if_splits)

lemma check_mask_iff: "fh_check_mask fh st = None \<longleftrightarrow> (fh_mask fh \<longleftrightarrow> role st = Server)"
  by (cases "role st") (auto simp: fh_check_mask_def)

lemma data_frame_iff:
  assumes "fh_op fh \<in> {Text, Binary, Cont}"
  shows "fst (fh_data_frame fh st) = None \<longleftrightarrow>
      unat (next_size fh st) + unat (fh_len fh) < 2 ^ 64 \<and>
      (pmd st \<noteq> Some True \<and> rd_msg_max st \<noteq> 0 \<longrightarrow>
        unat (next_size fh st) + unat (fh_len fh) \<le> unat (rd_msg_max st))"
    and "fst (fh_data_frame fh st) = None \<Longrightarrow> snd (fh_data_frame fh st) =
      st\<lparr>rd_size := next_size fh st, rd_op := (if fh_op fh = Cont then rd_op st else fh_op fh),
         rd_cont := \<not> fh_fin fh, rd_remain := fh_len fh\<rparr>"
proof -
  have wrap: "rd_size st > - 1 - fh_len fh \<longleftrightarrow> \<not> unat (rd_size st) + unat (fh_len fh) < 2 ^ 64"
  proof -
    have "unat (- 1 - fh_len fh) = 2 ^ 64 - 1 - unat (fh_len fh)"
      by (subst unat_sub) (simp_all add: unsigned_minus_1_eq_mask mask_eq_exp_minus_1)
    then show ?thesis
      using unsigned_less [of "fh_len fh", where ?'a = nat] by (simp add: word_less_nat_alt) linarith
  qed
  have len: "unat (fh_len fh) < 2 ^ 64"
    using unsigned_less [of "fh_len fh", where ?'a = nat] by simp
  show "fst (fh_data_frame fh st) = None \<longleftrightarrow>
      unat (next_size fh st) + unat (fh_len fh) < 2 ^ 64 \<and>
      (pmd st \<noteq> Some True \<and> rd_msg_max st \<noteq> 0 \<longrightarrow>
        unat (next_size fh st) + unat (fh_len fh) \<le> unat (rd_msg_max st))"
    using len by (auto simp: fh_data_frame_def Let_def next_size_def wrap rd_deflated_def sum_exceeds_iff)
  show "fst (fh_data_frame fh st) = None \<Longrightarrow> snd (fh_data_frame fh st) =
      st\<lparr>rd_size := next_size fh st, rd_op := (if fh_op fh = Cont then rd_op st else fh_op fh),
         rd_cont := \<not> fh_fin fh, rd_remain := fh_len fh\<rparr>"
    by (auto simp: fh_data_frame_def Let_def next_size_def split: if_splits)
qed


section \<open>Headers and their bytes\<close>

abbreviation wire :: "frame_header \<Rightarrow> bytes" where
  "wire \<equiv> header_bytes big_endian16 big_endian64"

lemma length_key_bytes: "length (key_bytes fh) = (if fh_mask fh then 4 else 0)"
  by (simp add: key_bytes_def native_to_little_uint32_def)

lemma len7_cases:
  "unat (fh_len fh) \<le> 125 \<Longrightarrow> len7 fh \<noteq> 126 \<and> len7 fh \<noteq> 127 \<and> ucast (len7 fh) = fh_len fh"
  "\<not> unat (fh_len fh) \<le> 125 \<Longrightarrow> unat (fh_len fh) \<le> 65535 \<Longrightarrow> len7 fh = 126"
  "\<not> unat (fh_len fh) \<le> 65535 \<Longrightarrow> len7 fh = 127"
proof -
  assume len: "unat (fh_len fh) \<le> 125"
  then have u: "unat (len7 fh) = unat (fh_len fh)"
    by (simp add: len7_def word_le_nat_alt unsigned_ucast_eq take_bit_nat_eq_self_iff)
  then have "len7 fh \<noteq> 126" "len7 fh \<noteq> 127"
    using len by auto
  moreover have "ucast (len7 fh) = fh_len fh"
    using u by (simp add: word_unat_eq_iff)
  ultimately show "len7 fh \<noteq> 126 \<and> len7 fh \<noteq> 127 \<and> ucast (len7 fh) = fh_len fh"
    by blast
qed (simp_all add: len7_def word_le_nat_alt)

lemma ucast_16_64: "unat (x :: u64) \<le> 65535 \<Longrightarrow> ucast (ucast x :: u16) = x"
proof -
  assume x: "unat x \<le> 65535"
  then have "take_bit 16 (unat x) = unat x"
    by (simp add: take_bit_nat_eq_self_iff)
  then have "take_bit 16 x = x"
    by (simp only: word_unat_eq_iff unsigned_take_bit_eq)
  moreover have "ucast (ucast x :: u16) = take_bit 16 x"
    by (rule bit_word_eqI) (auto simp: bit_simps)
  ultimately show ?thesis
    by simp
qed

lemma read_len_wire:
  "fh_read_len (fh\<lparr>fh_len := ucast (len7 fh), fh_key := k\<rparr>) (ext_bytes big_endian16 big_endian64 fh @ r)
    = (None, fh\<lparr>fh_key := k\<rparr>, r)"
proof -
  consider "unat (fh_len fh) \<le> 125" | "\<not> unat (fh_len fh) \<le> 125" "unat (fh_len fh) \<le> 65535"
    | "\<not> unat (fh_len fh) \<le> 65535"
    by blast
  then show ?thesis
  proof cases
    case 1
    then have "fh_len fh \<noteq> 126" "fh_len fh \<noteq> 127"
      by auto
    then show ?thesis
      using 1 len7_cases(1) [of fh] by (simp add: fh_read_len_def ext_bytes_def word_le_nat_alt)
  next
    case 2
    then have "drop 2 (big_endian16 (ucast (fh_len fh)) @ r) = r"
      by (simp add: big_endian16_def)
    then show ?thesis
      using 2 len7_cases(2) [of fh]
      by (simp add: fh_read_len_def ext_bytes_def word_le_nat_alt word_less_nat_alt ucast_16_64)
  next
    case 3
    then have "drop 8 (big_endian64 (fh_len fh) @ r) = r"
      by (simp add: big_endian64_def)
    then show ?thesis
      using 3 len7_cases(3) [of fh]
      by (simp add: fh_read_len_def ext_bytes_def word_le_nat_alt word_less_nat_alt)
  qed
qed

lemma need_wire:
  "fh_need (wire fh @ rest) = length (ext_bytes big_endian16 big_endian64 fh) + length (key_bytes fh)"
proof -
  have b: "(wire fh @ rest) ! 1 AND 0x7f = len7 fh" "((wire fh @ rest) ! 1 AND 0x80 \<noteq> 0) = fh_mask fh"
    using byte1_read [of fh] by (simp_all add: header_bytes_eq)
  consider "unat (fh_len fh) \<le> 125" | "\<not> unat (fh_len fh) \<le> 125" "unat (fh_len fh) \<le> 65535"
    | "\<not> unat (fh_len fh) \<le> 65535"
    by blast
  then show ?thesis
    unfolding fh_need_def Let_def b length_key_bytes
    by cases (use len7_cases [of fh] in \<open>auto simp: ext_bytes_def word_le_nat_alt big_endian16_def big_endian64_def\<close>)
qed

lemma flags_wire:
  "fh_flags (wire fh @ rest) (fh_first (wire fh @ rest) fh0)
    = fh\<lparr>fh_len := ucast (len7 fh), fh_key := fh_key fh0\<rparr>"
  using byte0_read [of fh] byte1_read [of fh] by (simp add: fh_flags_def fh_first_def header_bytes_eq)

lemma length_le32: "length (native_to_little_uint32 v) = 4"
  by (simp add: native_to_little_uint32_def)

lemma read_key_wire:
  "(\<not> fh_mask fh \<Longrightarrow> fh_key fh = 0) \<Longrightarrow>
    fh_read_key (fh\<lparr>fh_key := k\<rparr>) (key_bytes fh @ rest) st
      = (fh, rest, st\<lparr>rd_key := (if fh_mask fh then prepare_key (fh_key fh) else rd_key st)\<rparr>)"
  by (cases "fh_mask fh") (simp_all add: fh_read_key_def key_bytes_def Let_def length_le32)


lemma parse_wire:
  assumes ok: "acceptable fh st (length rest)" and key: "\<not> fh_mask fh \<Longrightarrow> fh_key fh = 0"
  shows "parse_fh (wire fh @ rest) ec fh0 st = (True, None, fh, accepted fh st, length (wire fh))"
proof -
  let ?b = "wire fh @ rest" and ?f = "fh\<lparr>fh_len := ucast (len7 fh), fh_key := fh_key fh0\<rparr>"
  let ?ext = "ext_bytes big_endian16 big_endian64 fh" and ?key = "key_bytes fh"
  have cb: "drop 2 ?b = ?ext @ ?key @ rest" "\<not> length ?b < 2" "\<not> length (drop 2 ?b) < fh_need ?b"
    unfolding need_wire by (simp_all add: header_bytes_eq)
  have ctl: "is_control (fh_op fh) \<longleftrightarrow> fh_op fh \<in> {Close, Ping, Pong}"
    and len: "is_control (fh_op fh) \<Longrightarrow> unat (fh_len fh) \<le> 125 \<and> unat (fh_len fh) \<le> length rest"
    and data: "\<not> is_control (fh_op fh) \<Longrightarrow> fh_op fh \<in> {Text, Binary, Cont}"
    using acceptable_ops [OF ok] by blast+
  have len7: "is_control (fh_op fh) \<Longrightarrow> (ucast (len7 fh) :: u64) = fh_len fh"
    using len len7_cases(1) by blast
  then have len7u: "is_control (fh_op fh) \<Longrightarrow> unat (len7 fh) = unat (fh_len fh)"
    by (metis unat_ucast_le_64)
  have "fst (fh_check_op ?f st) = None"
    using ok ctl len len7 by (auto simp: check_op_iff acceptable_def word_le_nat_alt split: if_splits)
  moreover have "next_pmd ?f st = next_pmd fh st"
    by (simp add: next_pmd_def)
  ultimately have op: "fh_check_op ?f st = (None, st\<lparr>pmd := next_pmd fh st\<rparr>)"
    using check_op_state [of ?f st] by (simp add: prod_eq_iff)
  have mask: "fh_check_mask ?f (st\<lparr>pmd := next_pmd fh st\<rparr>) = None"
    using ok by (simp add: check_mask_iff acceptable_def)
  have avail: "\<not> (is_control (fh_op ?f) \<and> length (?ext @ ?key @ rest) < fh_need ?b + unat (fh_len ?f))"
    unfolding need_wire using len len7u by auto
  let ?st = "st\<lparr>pmd := next_pmd fh st, rd_key := (if fh_mask fh then prepare_key (fh_key fh) else rd_key st)\<rparr>"
  have frame: "fh_data_frame fh ?st = (None, accepted fh st)" if "\<not> is_control (fh_op fh)"
  proof -
    have "fst (fh_data_frame fh ?st) = None"
      using ok that ctl
      by (auto simp: data_frame_iff(1) [OF data [OF that]] acceptable_def next_size_def split: if_splits)
    then have "fh_data_frame fh ?st = (None, ?st\<lparr>rd_size := next_size fh ?st,
        rd_op := (if fh_op fh = Cont then rd_op ?st else fh_op fh), rd_cont := \<not> fh_fin fh, rd_remain := fh_len fh\<rparr>)"
      using data_frame_iff(2) [OF data [OF that], of ?st] by (simp only: prod_eq_iff fst_conv snd_conv simp_thms)
    then show ?thesis
      using that ctl by (simp add: accepted_def next_size_def)
  qed
  have "parse_fh ?b ec fh0 st =
      (if is_control (fh_op fh) then (True, None, fh, ?st, length (wire fh))
       else let (err, st) = fh_data_frame fh ?st in
         if err \<noteq> None then (False, err, fh, st, 0) else (True, None, fh, st, length (wire fh)))"
  proof -
    have c: "(length ?b < 2) = False" "(length (?ext @ ?key @ rest) < fh_need ?b) = False"
      "(is_control (fh_op ?f) \<and> length (?ext @ ?key @ rest) < fh_need ?b + unat (fh_len ?f)) = False"
      using cb(2,3) avail unfolding cb(1) by blast+
    have n: "length ?b - length rest = length (wire fh)"
      by simp
    note k = read_key_wire [OF key, of "fh_key fh0" rest "st\<lparr>pmd := next_pmd fh st\<rparr>"]
    show ?thesis
      by (simp only: parse_fh_def Let_def flags_wire cb(1) c op mask prod.case read_len_wire k n simp_thms if_False)
        (simp add: n)
  qed
  then show ?thesis
    using frame ctl by (auto simp: accepted_def)
qed


text \<open>Conversely, an accepted header is the one its bytes encode.\<close>

lemma cons2E: "2 \<le> length b \<Longrightarrow> (\<And>x y r. b = x # y # r \<Longrightarrow> P) \<Longrightarrow> P"
  by (cases b rule: list.exhaust; cases "tl b") auto

lemma read_len_parts:
  assumes read: "fh_read_len f cb = (None, f', cb')" and l: "fh_len f = ucast (l :: u8)" "unat l < 128"
    and cb: "(if l = 126 then 2 else if l = 127 then 8 else 0) \<le> length cb"
  shows "cb = ext_bytes big_endian16 big_endian64 f' @ cb' \<and> len7 f' = l \<and> f' = f\<lparr>fh_len := fh_len f'\<rparr>"
proof -
  have ul: "unat (fh_len f) = unat l"
    using l by simp
  consider "l = 126" | "l = 127" | "unat l \<le> 125"
  proof -
    have "unat l = 126 \<or> unat l = 127 \<or> unat l \<le> 125"
      using l(2) by linarith
    then show ?thesis
      using that by (auto simp: word_unat_eq_iff)
  qed
  then show ?thesis
  proof cases
    case 1
    then obtain a b r where ab: "cb = a # b # r"
      using cb by (auto elim: cons2E)
    let ?v = "big_uint16_to_native cb"
    have small: "unat ?v \<le> 65535"
      using unsigned_less [of ?v, where ?'a = nat] by simp
    have f': "f' = f\<lparr>fh_len := ucast ?v\<rparr>" "cb' = r" "\<not> (ucast ?v :: u64) < 126"
      using read 1 l by (auto simp: fh_read_len_def Let_def ab split: if_splits)
    have "unat (ucast ?v :: u64) = unat ?v"
      using small by (simp add: unsigned_ucast_eq take_bit_nat_eq_self_iff)
    then have "\<not> unat (fh_len f') \<le> 125" "unat (fh_len f') \<le> 65535"
      using f' small by (simp_all add: word_less_nat_alt)
    moreover have "big_endian16 (ucast (fh_len f')) = [a, b]"
    proof -
      have "(ucast (ucast ?v :: u64) :: u16) = ?v"
        by (rule bit_word_eqI) (auto simp: bit_simps)
      then show ?thesis
        using be16_native [of a b r] by (simp add: f' ab)
    qed
    ultimately show ?thesis
      using f' 1 len7_cases(2) [of f'] by (simp add: ext_bytes_def word_le_nat_alt ab)
  next
    case 2
    then have "8 \<le> length cb"
      using cb by simp
    then obtain a b c d e f2 g h r where ab: "cb = a # b # c # d # e # f2 # g # h # r"
      by (auto simp: numeral_eq_Suc Suc_le_length_iff)
    let ?v = "big_uint64_to_native cb"
    have f': "f' = f\<lparr>fh_len := ?v\<rparr>" "cb' = r" "\<not> ?v < 65536"
      using read 2 l by (auto simp: fh_read_len_def Let_def ab split: if_splits)
    then have "\<not> unat (fh_len f') \<le> 65535"
      by (simp add: word_less_nat_alt)
    moreover have "big_endian64 (fh_len f') = [a, b, c, d, e, f2, g, h]"
      using be64_native [of a b c d e f2 g h r] by (simp add: f' ab)
    ultimately show ?thesis
      using f' 2 len7_cases(3) [of f'] by (simp add: ext_bytes_def word_le_nat_alt ab)
  next
    case 3
    then have "fh_len f \<noteq> 126" "fh_len f \<noteq> 127"
      using ul by auto
    then have "f' = f" "cb' = cb"
      using read by (auto simp: fh_read_len_def)
    moreover have "len7 f = l"
    proof -
      have "unat (len7 f) = unat l"
        using 3 ul l(2) by (simp add: len7_def word_le_nat_alt unsigned_ucast_eq take_bit_nat_eq_self_iff)
      then show ?thesis
        by (simp add: word_unat_eq_iff)
    qed
    ultimately show ?thesis
      using 3 ul by (simp add: ext_bytes_def word_le_nat_alt)
  qed
qed

lemma read_key_parts:
  assumes "fh_read_key f cb st = (f', cb', st')" "(if fh_mask f then 4 else 0) \<le> length cb"
  shows "cb = key_bytes f' @ cb' \<and> f' = f\<lparr>fh_key := fh_key f'\<rparr> \<and> (\<not> fh_mask f \<longrightarrow> fh_key f' = 0)"
proof (cases "fh_mask f")
  case True
  then have "4 \<le> length cb"
    using assms(2) by simp
  then obtain a b c d r where cb: "cb = a # b # c # d # r"
    by (auto simp: numeral_eq_Suc Suc_le_length_iff)
  then show ?thesis
    using assms(1) True by (auto simp: fh_read_key_def Let_def key_bytes_def le32_native)
next
  case False
  then show ?thesis
    using assms(1) by (auto simp: fh_read_key_def key_bytes_def)
qed


lemma byte1_write: "(if b AND 0x80 \<noteq> 0 then 0x80 else 0) OR (b AND 0x7f) = b" for b :: u8
proof -
  have "(b AND 0x80 \<noteq> 0) = bit b 7"
    using and_exp_eq_0_iff_not_bit [of b 7] by simp
  then show ?thesis
    by (intro u8_eqI) (simp_all add: bit_simps bit_consts)
qed

lemma parse_sound:
  assumes parse: "parse_fh b ec fh0 st = (True, ec', fh, st', n)"
  shows "\<exists>rest. b = wire fh @ rest \<and> n = length (wire fh) \<and> acceptable fh st (length rest) \<and>
    (\<not> fh_mask fh \<longrightarrow> fh_key fh = 0)"
proof -
  have "2 \<le> length b"
    using parse by (cases "length b < 2") (auto simp: parse_fh_def)
  then obtain x y cb where b: "b = x # y # cb"
    by (rule cons2E)
  let ?l = "y AND 0x7f" and ?m = "y AND 0x80 \<noteq> 0"
  define f where "f = fh_flags b (fh_first b fh0)"
  have need: "fh_need b \<le> length cb"
    using parse by (cases "length cb < fh_need b") (auto simp: parse_fh_def b Let_def)
  obtain e1 st1 where c1: "fh_check_op f st = (e1, st1)"
    by (cases "fh_check_op f st")
  obtain e2 f2 cb2 where c2: "fh_read_len f cb = (e2, f2, cb2)"
    by (cases "fh_read_len f cb") auto
  obtain f3 cb3 st3 where c3: "fh_read_key f2 cb2 st1 = (f3, cb3, st3)"
    by (cases "fh_read_key f2 cb2 st1") auto
  obtain e4 st4 where c4: "fh_data_frame f3 st3 = (e4, st4)"
    by (cases "fh_data_frame f3 st3")
  have c: "(length b < 2) = False" "(length cb < fh_need b) = False" "drop 2 b = cb"
    using need by (simp_all add: b)
  note body = parse [unfolded parse_fh_def Let_def c if_False f_def [symmetric] c1 prod.case c2 c3 c4]
  have ok: "e1 = None" "fh_check_mask f st1 = None" "e2 = None" "f3 = fh"
    "\<not> (is_control (fh_op f) \<and> length cb < fh_need b + unat (fh_len f))"
    "\<not> is_control (fh_op fh) \<Longrightarrow> e4 = None" "n = length b - length cb3"
    using body by (auto split: if_splits)
  have l: "fh_len f = ucast ?l" "unat ?l < 128"
    using and_127_mod [of y] by (simp_all add: f_def fh_flags_def fh_first_def b unat_mod)
  have nl: "(if ?l = 126 then 2 else if ?l = 127 then 8 else 0) + (if ?m then 4 else 0) \<le> length cb"
    using need by (simp add: fh_need_def b Let_def)
  then have "(if ?l = 126 then 2 else if ?l = 127 then 8 else 0) \<le> length cb"
    by simp
  note len = read_len_parts [OF c2 [unfolded ok] l this]
  note lenE = conjunct1 [OF len] conjunct1 [OF conjunct2 [OF len]] conjunct2 [OF conjunct2 [OF len]]
  have f: "fh_mask f = ?m" "fh_op f = opcode_of (x AND 0x0f)" "fh_fin f = (x AND 0x80 \<noteq> 0)"
    "fh_rsv1 f = (x AND 0x40 \<noteq> 0)" "fh_rsv2 f = (x AND 0x20 \<noteq> 0)" "fh_rsv3 f = (x AND 0x10 \<noteq> 0)"
    by (simp_all add: f_def fh_flags_def fh_first_def b)
  have f2: "fh_mask f2 = fh_mask f" "fh_op f2 = fh_op f" "fh_fin f2 = fh_fin f" "fh_rsv1 f2 = fh_rsv1 f"
    "fh_rsv2 f2 = fh_rsv2 f" "fh_rsv3 f2 = fh_rsv3 f"
    using arg_cong [OF lenE(3), of fh_mask] arg_cong [OF lenE(3), of fh_op] arg_cong [OF lenE(3), of fh_fin]
      arg_cong [OF lenE(3), of fh_rsv1] arg_cong [OF lenE(3), of fh_rsv2] arg_cong [OF lenE(3), of fh_rsv3]
    by simp_all
  have "(if fh_mask f2 then 4 else 0) \<le> length cb2"
  proof -
    have "length cb = length (ext_bytes big_endian16 big_endian64 f2) + length cb2"
      using lenE(1) by (metis length_append)
    moreover have "length (ext_bytes big_endian16 big_endian64 f2) = (if ?l = 126 then 2 else if ?l = 127 then 8 else 0)"
      using lenE(2) len7_cases [of f2]
      by (auto simp: ext_bytes_def word_le_nat_alt big_endian16_def big_endian64_def)
    ultimately show ?thesis
      using nl f(1) f2(1) by auto
  qed
  note keyc = read_key_parts [OF c3 [unfolded ok] this]
  note keyE = conjunct1 [OF keyc] conjunct1 [OF conjunct2 [OF keyc]] conjunct2 [OF conjunct2 [OF keyc]]
  have fh: "fh_mask fh = fh_mask f" "fh_op fh = fh_op f" "fh_fin fh = fh_fin f" "fh_rsv1 fh = fh_rsv1 f"
    "fh_rsv2 fh = fh_rsv2 f" "fh_rsv3 fh = fh_rsv3 f" "fh_len fh = fh_len f2"
    using arg_cong [OF keyE(2), of fh_mask] arg_cong [OF keyE(2), of fh_op] arg_cong [OF keyE(2), of fh_fin]
      arg_cong [OF keyE(2), of fh_rsv1] arg_cong [OF keyE(2), of fh_rsv2] arg_cong [OF keyE(2), of fh_rsv3]
      arg_cong [OF keyE(2), of fh_len] f2
    by simp_all
  have "len7 fh = len7 f2" and ext: "ext_bytes big_endian16 big_endian64 fh = ext_bytes big_endian16 big_endian64 f2"
    by (simp_all only: len7_def ext_bytes_def fh(7))
  then have len7: "len7 fh = ?l"
    using lenE(2) by simp
  have "byte0 fh = x"
    using byte0_write [of 0 0 x False] fh f by (simp add: byte0_def)
  moreover have "byte1 fh = y"
    using byte1_write [of y] fh(1) f(1) len7 by (simp add: byte1_def)
  ultimately have wire: "b = wire fh @ cb3"
    using lenE(1) keyE(1) by (simp add: header_bytes_eq b ext)
  have st1: "st1 = st\<lparr>pmd := next_pmd fh st\<rparr>" "fst (fh_check_op f st) = None"
    using check_op_state [of f st] c1 ok(1) fh by (simp_all add: next_pmd_def)
  have role: "fh_mask fh \<longleftrightarrow> role st = Server"
    using ok(2) fh(1) st1(1) by (simp add: check_mask_iff)
  have control: "fh_fin fh \<and> unat (fh_len fh) \<le> 125 \<and> \<not> fh_rsv1 fh \<and> \<not> fh_rsv2 fh \<and> \<not> fh_rsv3 fh
      \<and> unat (fh_len fh) \<le> length cb3" if ctl: "fh_op fh \<in> {Close, Ping, Pong}"
  proof -
    have chk: "fh_fin f" "fh_len f \<le> 125" "\<not> fh_rsv1 f" "\<not> fh_rsv2 f" "\<not> fh_rsv3 f"
      using st1(2) ctl fh(2) unfolding check_op_iff by (auto split: if_splits)
    then have "unat ?l \<le> 125"
      using l(1) by (simp add: word_le_nat_alt)
    then have l': "?l \<noteq> 126" "?l \<noteq> 127"
      by auto
    have "fh_len f \<noteq> 126" "fh_len f \<noteq> 127"
      using chk(2) by auto
    then have f2': "f2 = f" "cb2 = cb"
      using c2 by (auto simp: fh_read_len_def)
    have "is_control (fh_op f)"
      using ctl fh(2) by (auto simp: op_classes)
    then have "fh_need b + unat (fh_len f) \<le> length cb"
      using ok(5) by simp
    moreover have "fh_need b = length (key_bytes fh)"
      using l' fh(1) f(1) by (simp add: fh_need_def b Let_def length_key_bytes)
    moreover have "length cb = length (key_bytes fh) + length cb3"
      using keyE(1) f2'(2) by (metis length_append)
    ultimately have "unat (fh_len fh) \<le> length cb3"
      using fh(7) f2'(1) by simp
    then show ?thesis
      using chk fh f2'(1) by (simp add: word_le_nat_alt)
  qed
  have size: "unat (next_size fh st) + unat (fh_len fh) < 2 ^ 64 \<and>
        (next_pmd fh st \<noteq> Some True \<and> rd_msg_max st \<noteq> 0
          \<longrightarrow> unat (next_size fh st) + unat (fh_len fh) \<le> unat (rd_msg_max st))"
    if data: "fh_op fh \<in> {Text, Binary, Cont}"
  proof -
    have "\<not> is_control (fh_op fh)"
      using data by (auto simp: op_classes)
    then have "fst (fh_data_frame fh st3) = None"
      using c4 ok by simp
    moreover have "pmd st3 = next_pmd fh st" "rd_size st3 = rd_size st" "rd_msg_max st3 = rd_msg_max st"
      using c3 by (auto simp: fh_read_key_def Let_def st1 split: if_splits)
    ultimately show ?thesis
      using data_frame_iff(1) [OF data, of st3] by (auto simp: next_size_def split: if_splits)
  qed
  have "acceptable fh st (length cb3)"
  proof (cases "fh_op fh \<in> {Close, Ping, Pong}")
    case True
    show ?thesis
      unfolding acceptable_def if_P [OF True] using role control [OF True] by blast
  next
    case False
    then have op: "(fh_op fh \<in> {Text, Binary} \<and> \<not> rd_cont st \<and> (fh_rsv1 fh \<longrightarrow> pmd st \<noteq> None) \<or>
            fh_op fh = Cont \<and> rd_cont st \<and> \<not> fh_rsv1 fh) \<and> \<not> fh_rsv2 fh \<and> \<not> fh_rsv3 fh"
      using st1(2) unfolding check_op_iff fh(2) [symmetric] fh(3-6) if_not_P [OF False] by blast
    then have "fh_op fh \<in> {Text, Binary, Cont}"
      by blast
    then show ?thesis
      unfolding acceptable_def if_not_P [OF False] using role op size by blast
  qed
  then show ?thesis
    using wire keyE(3) ok(7) fh(1) f2(1) by (intro exI [of _ cb3]) auto
qed


section \<open>Incomplete headers\<close>

lemma need_take:
  assumes "2 \<le> k"
  shows "fh_need (take k b) = fh_need b"
  using assms by (simp add: fh_need_def)

lemma flags_take:
  assumes "2 \<le> k"
  shows "fh_flags (take k b) (fh_first (take k b) fh0) = fh_flags b (fh_first b fh0)"
  using assms by (simp add: fh_flags_def fh_first_def)

lemma parse_prefix:
  assumes ok: "acceptable fh st (length rest)" and key: "\<not> fh_mask fh \<Longrightarrow> fh_key fh = 0"
    and k: "k < length (wire fh) + (if is_control (fh_op fh) then unat (fh_len fh) else 0)"
  shows "\<exists>fh1. parse_fh (take k (wire fh @ rest)) None fh0 st = (False, None, fh1, st, 0)"
proof -
  let ?b = "wire fh @ rest"
  let ?p = "take k ?b" and ?f = "fh\<lparr>fh_len := ucast (len7 fh), fh_key := fh_key fh0\<rparr>"
  have ctl: "is_control (fh_op fh) \<longleftrightarrow> fh_op fh \<in> {Close, Ping, Pong}"
    and len: "is_control (fh_op fh) \<Longrightarrow> unat (fh_len fh) \<le> 125"
    using acceptable_ops [OF ok] by blast+
  have wire: "length (wire fh) = 2 + fh_need ?b"
    unfolding need_wire by (simp add: header_bytes_eq)
  consider "k < 2" | "2 \<le> k" "k < length (wire fh)" | "2 \<le> k" "length (wire fh) \<le> k"
    by linarith
  then show ?thesis
  proof cases
    case 1
    then have "length ?p < 2"
      by simp
    then show ?thesis
      by (simp add: parse_fh_def)
  next
    case 2
    then have "\<not> length ?p < 2" "length (drop 2 ?p) < fh_need ?b"
      using wire by auto
    then have "\<not> length ?p < 2" "length (drop 2 ?p) < fh_need ?p"
      unfolding need_take [OF 2(1)] by blast+
    then show ?thesis
      unfolding parse_fh_def Let_def by (simp only: if_False if_True) blast
  next
    case 3
    then have c: "is_control (fh_op fh)" "k < length (wire fh) + unat (fh_len fh)"
      using k by (auto split: if_splits)
    have len7: "(ucast (len7 fh) :: u64) = fh_len fh"
      using len [OF c(1)] len7_cases(1) by blast
    have "fst (fh_check_op ?f st) = None"
      using ok c ctl len len7 by (auto simp: check_op_iff acceptable_def word_le_nat_alt split: if_splits)
    moreover have "next_pmd ?f st = pmd st"
      using c ctl by (auto simp: next_pmd_def)
    ultimately have op: "fh_check_op ?f st = (None, st)"
      using check_op_state [of ?f st] by (simp add: prod_eq_iff)
    have mask: "fh_check_mask ?f st = None"
      using ok by (simp add: check_mask_iff acceptable_def)
    have conds: "(length ?p < 2) = False" "(length (drop 2 ?p) < fh_need ?b) = False"
      "(is_control (fh_op ?f) \<and> length (drop 2 ?p) < fh_need ?b + unat (fh_len ?f)) = True"
      using 3 c wire len7 by auto
    have "parse_fh ?p None fh0 st = (False, None, ?f, st, 0)"
      by (simp only: parse_fh_def Let_def need_take [OF 3(1)] flags_take [OF 3(1)] flags_wire conds op mask
          prod.case simp_thms if_False if_True)
    then show ?thesis
      by blast
  qed
qed

section \<open>Control frames on a dynamic buffer\<close>

definition close_payload :: "close_reason \<Rightarrow> bytes" where
  "close_payload cr = (if cr_code cr = 0 then [] else big_endian16 (cr_code cr) @ cr_reason cr)"

definition frame_bytes :: "opcode \<Rightarrow> role_type \<Rightarrow> u32 \<Rightarrow> bytes \<Rightarrow> bytes" where
  "frame_bytes op r key payload =
     wire (control_header op r key (of_nat (length payload))) @
     (if r = Client then mask_rfc (prepare_key key) 0 payload else payload)"

lemma length_prepare_key [simp]: "length (prepare_key k) = 4"
  by (simp add: prepare_key_def)

lemma length_wire: "length (wire fh) = 2 + length (ext_bytes big_endian16 big_endian64 fh) + length (key_bytes fh)"
  by (simp add: header_bytes_eq)

lemma length_control_wire:
  "n \<le> 125 \<Longrightarrow> length (wire (control_header op r key (of_nat n))) = 2 + (if r = Client then 4 else 0)"
  by (simp add: length_wire length_key_bytes control_header_def ext_bytes_def word_le_nat_alt unat_of_nat)

context dynamic_buffer
begin

lemma frame_write_data:
  assumes "inv b" "length (data b) + length (wire fh) \<le> max_size b"
  shows "\<exists>b'. frame_write prepare fill commit big_endian16 big_endian64 fh b = Inr b' \<and> inv b' \<and>
    data b' = data b @ wire fh \<and> max_size b' = max_size b"
  using put_ok [OF assms, of "wire fh"] by (simp add: frame_write_def Let_def)

lemma write_close_data:
  assumes b: "inv b" and len: "length (cr_reason cr) \<le> 123"
    and room: "length (data b) + length (frame_bytes Close r key (close_payload cr)) \<le> max_size b"
  shows "\<exists>b'. write_close prepare fill commit big_endian16 big_endian64 r key cr b = Inr b' \<and> inv b' \<and>
    data b' = data b @ frame_bytes Close r key (close_payload cr) \<and> max_size b' = max_size b"
proof -
  let ?n = "if cr_code cr = 0 then 0 else 2 + of_nat (length (cr_reason cr)) :: u64"
  let ?fh = "control_header Close r key ?n"
  let ?m = "\<lambda>k src. if r = Client then mask_rfc k 0 src else src"
  have n: "?n = of_nat (length (close_payload cr))"
    by (simp add: close_payload_def big_endian16_def)
  have room': "length (data b) + length (wire ?fh) + length (close_payload cr) \<le> max_size b"
    using room unfolding n frame_bytes_def by (auto split: if_splits)
  then obtain b1 where b1: "frame_write prepare fill commit big_endian16 big_endian64 ?fh b = Inr b1" "inv b1"
      "data b1 = data b @ wire ?fh" "max_size b1 = max_size b"
    using frame_write_data [OF b, of ?fh] by auto
  have mask: "fh_mask ?fh \<longleftrightarrow> r = Client"
    by (simp add: control_header_def)
  show ?thesis
  proof (cases "cr_code cr = 0")
    case True
    then show ?thesis
      using b1 n by (simp add: write_close_def Let_def frame_bytes_def close_payload_def)
  next
    case code: False
    let ?k = "prepare_key key" and ?code = "big_endian16 (cr_code cr)"
    let ?tmp = "?m ?k ?code"
    have two: "length ?code = 2"
      by (simp add: big_endian16_def)
    have "length (data b1) + 2 \<le> max_size b1"
      using room' b1 code two by (simp add: close_payload_def)
    then obtain b2 where b2: "buffer_put prepare fill commit 2 ?tmp b1 = Inr b2" "inv b2"
        "data b2 = data b1 @ take 2 ?tmp" "max_size b2 = max_size b1"
      using put_ok [OF b1(2), of 2 ?tmp] by blast
    have tmp: "length ?tmp = 2" "take 2 ?tmp = ?tmp"
      using two by simp_all
    let ?src = "?m (rol_key ?k 2) (cr_reason cr)"
    have "length (data b2) + length (cr_reason cr) \<le> max_size b2"
      using room' b1(3,4) b2(3,4) code two unfolding tmp(2) by (simp add: close_payload_def tmp(1))
    then obtain b3 where b3: "buffer_put prepare fill commit (length (cr_reason cr)) ?src b2 = Inr b3" "inv b3"
        "data b3 = data b2 @ take (length (cr_reason cr)) ?src" "max_size b3 = max_size b2"
      using put_ok [OF b2(2), of "length (cr_reason cr)" ?src] by blast
    have payload: "?m ?k (close_payload cr) = ?tmp @ ?src"
      using code two by (simp add: close_payload_def mask_rfc_append mask_rfc_rol numeral_2_eq_2 [symmetric])
    have "write_close prepare fill commit big_endian16 big_endian64 r key cr b =
        (if cr_reason cr = [] then Inr b2 else buffer_put prepare fill commit (length (cr_reason cr)) ?src b2)"
      using code b1(1) b2(1) mask two by (cases r) (simp_all add: write_close_def Let_def mask_inplace_rfc)
    moreover have "take (length (cr_reason cr)) ?src = ?src"
      by simp
    ultimately show ?thesis
      using b1 b2 b3 tmp payload n code by (cases "cr_reason cr = []") (auto simp: frame_bytes_def)
  qed
qed

lemma write_ping_data:
  assumes b: "inv b" and len: "length payload \<le> 125"
    and room: "length (data b) + length (frame_bytes op r key payload) \<le> max_size b"
  shows "\<exists>b'. write_ping prepare fill commit big_endian16 big_endian64 r key op payload b = Inr b' \<and> inv b' \<and>
    data b' = data b @ frame_bytes op r key payload \<and> max_size b' = max_size b"
proof -
  let ?fh = "control_header op r key (of_nat (length payload))"
  have "length (data b) + length (wire ?fh) \<le> max_size b"
    using room by (simp add: frame_bytes_def)
  then obtain b1 where b1: "frame_write prepare fill commit big_endian16 big_endian64 ?fh b = Inr b1" "inv b1"
      "data b1 = data b @ wire ?fh" "max_size b1 = max_size b"
    using frame_write_data [OF b] by blast
  let ?src = "if r = Client then mask_rfc (prepare_key key) 0 payload else payload"
  have "length (data b1) + length payload \<le> max_size b1"
    using room b1 by (auto simp: frame_bytes_def split: if_splits)
  then obtain b2 where b2: "buffer_put prepare fill commit (length payload) ?src b1 = Inr b2" "inv b2"
      "data b2 = data b1 @ take (length payload) ?src" "max_size b2 = max_size b1"
    using put_ok [OF b1(2), of "length payload" ?src] by blast
  have m: "fh_mask ?fh \<longleftrightarrow> r = Client"
    by (simp add: control_header_def)
  have "take (length payload) ?src = ?src"
    by simp
  then show ?thesis
    using b1 b2 m by (auto simp: write_ping_def Let_def frame_bytes_def mask_inplace_rfc)
qed

end

section \<open>From a control frame written to the reason read\<close>

lemma wire_no_key: "\<not> fh_mask fh \<Longrightarrow> wire (fh\<lparr>fh_key := 0\<rparr>) = wire fh"
  by (simp add: header_bytes_eq byte0_def byte1_def len7_def ext_bytes_def key_bytes_def)

lemma close_payload_empty: "close_payload cr = [] \<longleftrightarrow> cr_code cr = 0"
  by (simp add: close_payload_def big_endian16_def)

lemma read_close_payload:
  assumes tmp: "length tmp = 4" and len: "length (cr_reason cr) \<le> 123" and utf: "utf8 (cr_reason cr)"
    and code: "if cr_code cr = 0 then cr_reason cr = [] else is_valid_close_code (cr_code cr)"
  shows "read_close tmp addr (close_payload cr) cr0 = Some (cr, None)"
proof (cases "cr_code cr = 0")
  case True
  then show ?thesis
    using code by (simp add: read_close_def close_payload_def)
next
  case False
  have two: "length (big_endian16 (cr_code cr)) = 2"
    by (simp add: big_endian16_def)
  have n: "length (close_payload cr) = Suc (Suc (length (cr_reason cr)))"
    and d: "drop 2 (close_payload cr) = cr_reason cr"
    and c: "big_uint16_to_native (close_payload cr) = cr_code cr"
    using False two by (simp_all add: close_payload_def)
  have "check_utf8 tmp addr (cr_reason cr)"
    using utf check_utf8_iff [OF tmp] by simp
  then show ?thesis
    using False code len by (cases "cr_reason cr = []") (simp_all add: read_close_def Let_def n c d)
qed

text \<open>The bytes a writer of role \<open>r\<close> emits for a close frame, seen by a reader of the other role.\<close>

definition read_control :: "bytes \<Rightarrow> frame_header \<Rightarrow> ws_read \<Rightarrow> bytes" where
  "read_control p fh st = (if fh_mask fh then fst (mask_inplace p (rd_key st)) else p)"

lemma close_frame_read:
  assumes st: "role st \<noteq> r" and len: "length (cr_reason cr) \<le> 123"
  shows "\<exists>fh st' n. parse_fh (frame_bytes Close r key (close_payload cr)) None fh0 st = (True, None, fh, st', n) \<and>
    fh_op fh = Close \<and> n = (if r = Client then 6 else 2) \<and>
    unat (fh_len fh) = length (close_payload cr) \<and>
    read_control (drop n (frame_bytes Close r key (close_payload cr))) fh st' = close_payload cr"
proof -
  let ?p = "close_payload cr"
  let ?fh = "control_header Close r (if r = Client then key else 0) (of_nat (length ?p))"
  let ?body = "if r = Client then mask_rfc (prepare_key key) 0 ?p else ?p"
  have p: "length ?p \<le> 125"
    using len by (simp add: close_payload_def big_endian16_def)
  have n: "unat (of_nat (length ?p) :: u64) = length ?p"
    using p by (simp add: unat_of_nat)
  have w: "wire (control_header Close r key (of_nat (length ?p))) = wire ?fh"
    using wire_no_key [of "control_header Close r key (of_nat (length ?p))"] by (cases r) (simp_all add: control_header_def)
  have ok: "acceptable ?fh st (length ?body)"
    using st p n by (cases r; cases "role st") (simp_all add: acceptable_def control_header_def)
  have "parse_fh (frame_bytes Close r key ?p) None fh0 st = (True, None, ?fh, accepted ?fh st, length (wire ?fh))"
    unfolding frame_bytes_def w by (rule parse_wire [OF ok]) (simp add: control_header_def)
  moreover have "drop (length (wire ?fh)) (frame_bytes Close r key ?p) = ?body"
    unfolding frame_bytes_def w by simp
  moreover have "read_control ?body ?fh (accepted ?fh st) = ?p"
    by (cases r) (simp_all add: read_control_def control_header_def accepted_def mask_inplace_rfc mask_rfc_involution)
  moreover have "length (wire ?fh) = (if r = Client then 6 else 2)"
    using length_control_wire [OF p] by simp
  moreover have "unat (fh_len ?fh) = length ?p" "fh_op ?fh = Close"
    using n by (simp_all add: control_header_def)
  ultimately show ?thesis
    by (intro exI [of _ ?fh] exI [of _ "accepted ?fh st"] exI [of _ "length (wire ?fh)"]) simp
qed

lemma close_frame_fits:
  "length (cr_reason cr) \<le> 123 \<Longrightarrow> length (frame_bytes Close r key (close_payload cr)) \<le> 131"
  using length_control_wire [of "length (close_payload cr)" Close r key]
  by (simp add: frame_bytes_def close_payload_def big_endian16_def)

section \<open>Properties\<close>

text \<open>
  C3: \<open>parse_fh\<close> takes a frame header off the front of the buffer exactly when the buffer
  starts with the bytes the frame writer produces for that header, the header is acceptable to
  the connection's role and state, and (for control frames) the payload has arrived; it then
  consumes exactly the header and moves the read state to \<open>accepted\<close>.  In particular no
  other encoding of a length, no wrong masking, no reserved opcode or bit is accepted.
\<close>

theorem parse_fh_exact:
  assumes "big16 = big_endian16" "big64 = big_endian64"
  shows "parse_fh b None fh0 st = (True, None, fh, st', n) \<longleftrightarrow>
    (\<exists>rest. b = header_bytes big16 big64 fh @ rest \<and> n = length (header_bytes big16 big64 fh) \<and>
       acceptable fh st (length rest) \<and> (\<not> fh_mask fh \<longrightarrow> fh_key fh = 0) \<and> st' = accepted fh st)"
proof
  assume p: "parse_fh b None fh0 st = (True, None, fh, st', n)"
  then obtain rest where "b = wire fh @ rest" "n = length (wire fh)" "acceptable fh st (length rest)"
      "\<not> fh_mask fh \<longrightarrow> fh_key fh = 0"
    using parse_sound [OF p] by blast
  then show "\<exists>rest. b = header_bytes big16 big64 fh @ rest \<and> n = length (header_bytes big16 big64 fh) \<and>
       acceptable fh st (length rest) \<and> (\<not> fh_mask fh \<longrightarrow> fh_key fh = 0) \<and> st' = accepted fh st"
    using parse_wire [of fh st rest None fh0] p assms by auto
next
  assume "\<exists>rest. b = header_bytes big16 big64 fh @ rest \<and> n = length (header_bytes big16 big64 fh) \<and>
       acceptable fh st (length rest) \<and> (\<not> fh_mask fh \<longrightarrow> fh_key fh = 0) \<and> st' = accepted fh st"
  then obtain rest where r: "b = header_bytes big16 big64 fh @ rest" "n = length (header_bytes big16 big64 fh)"
      "acceptable fh st (length rest)" "\<not> fh_mask fh \<longrightarrow> fh_key fh = 0" "st' = accepted fh st"
    by blast
  show "parse_fh b None fh0 st = (True, None, fh, st', n)"
    unfolding r assms by (rule parse_wire) (use r in simp_all)
qed

theorem parse_fh_exact_witness:
  "parse_fh [0x82, 0x01, 0x7f] None \<lparr>fh_len = 0, fh_key = 0, fh_op = Cont, fh_fin = False, fh_mask = False,
      fh_rsv1 = False, fh_rsv2 = False, fh_rsv3 = False\<rparr>
    \<lparr>role = Client, rd_cont = False, rd_size = 0, rd_msg_max = 0, rd_op = Cont, rd_remain = 0, rd_key = [], pmd = None\<rparr>
   = (True, None, \<lparr>fh_len = 1, fh_key = 0, fh_op = Binary, fh_fin = True, fh_mask = False,
      fh_rsv1 = False, fh_rsv2 = False, fh_rsv3 = False\<rparr>,
    \<lparr>role = Client, rd_cont = False, rd_size = 0, rd_msg_max = 0, rd_op = Binary, rd_remain = 1, rd_key = [], pmd = None\<rparr>, 2)"
  unfolding parse_fh_exact [OF refl refl]
  by (rule exI [of _ "[0x7f]"]) (simp add: header_bytes_def acceptable_def accepted_def next_size_def next_pmd_def
    Let_def)

text \<open>
  C9: while fewer bytes have arrived than the header (and, for a control frame, its payload)
  needs, \<open>parse_fh\<close> reports neither a frame nor an error, consumes nothing and leaves the
  read state as it was, so that reading can resume with more input.
\<close>

theorem parse_fh_incomplete:
  assumes "big16 = big_endian16" "big64 = big_endian64"
    and "acceptable fh st (length rest)" "\<not> fh_mask fh \<longrightarrow> fh_key fh = 0"
    and "k < length (header_bytes big16 big64 fh) + (if is_control (fh_op fh) then unat (fh_len fh) else 0)"
  shows "\<exists>fh1. parse_fh (take k (header_bytes big16 big64 fh @ rest)) None fh0 st = (False, None, fh1, st, 0)"
  using parse_prefix [of fh st rest k fh0] assms by auto

theorem parse_fh_incomplete_witness:
  "\<exists>fh1. parse_fh [0x89, 0x03, 0x61] None
    \<lparr>fh_len = 0, fh_key = 0, fh_op = Cont, fh_fin = False, fh_mask = False, fh_rsv1 = False, fh_rsv2 = False, fh_rsv3 = False\<rparr>
    \<lparr>role = Client, rd_cont = False, rd_size = 0, rd_msg_max = 0, rd_op = Cont, rd_remain = 0, rd_key = [], pmd = None\<rparr>
   = (False, None, fh1,
    \<lparr>role = Client, rd_cont = False, rd_size = 0, rd_msg_max = 0, rd_op = Cont, rd_remain = 0, rd_key = [], pmd = None\<rparr>, 0)"
  using parse_fh_incomplete [OF refl refl, of
    "\<lparr>fh_len = 3, fh_key = 0, fh_op = Ping, fh_fin = True, fh_mask = False, fh_rsv1 = False, fh_rsv2 = False, fh_rsv3 = False\<rparr>"
    "\<lparr>role = Client, rd_cont = False, rd_size = 0, rd_msg_max = 0, rd_op = Cont, rd_remain = 0, rd_key = [], pmd = None\<rparr>" "[0x61, 0x62, 0x63]" 3
    "\<lparr>fh_len = 0, fh_key = 0, fh_op = Cont, fh_fin = False, fh_mask = False, fh_rsv1 = False, fh_rsv2 = False, fh_rsv3 = False\<rparr>"]
  by (simp add: header_bytes_def acceptable_def is_control_def less_eq_opcode_def Let_def)

text \<open>
  C5: a close reason (an acceptable code and at most 123 bytes of UTF-8, or nothing) written
  by \<open>write_close\<close> into a fixed buffer of at least 131 bytes, as either role and under any
  masking key, is what the peer's \<open>parse_fh\<close>, unmasking and \<open>read_close\<close> give back.
\<close>

theorem close_roundtrip:
  assumes "big16 = big_endian16" "big64 = big_endian64"
    and tmp: "length tmp = 4" and len: "length (cr_reason cr) \<le> 123" and utf: "utf8 (cr_reason cr)"
    and code: "if cr_code cr = 0 then cr_reason cr = [] else is_valid_close_code (cr_code cr)"
    and st: "role st \<noteq> r" and p: "131 \<le> length p"
  shows "\<exists>db fh st' n. write_close fsb_prepare fsb_fill fsb_commit big16 big64 r key cr (fsb_init p) = Inr db \<and>
    parse_fh (fsb_data db) None fh0 st = (True, None, fh, st', n) \<and> fh_op fh = Close \<and>
    read_close tmp addr (read_control (drop n (fsb_data db)) fh st') cr0 = Some (cr, None)"
proof -
  have "fsb_inv (fsb_init p)" "fsb_data (fsb_init p) = []" "fsb_max_size (fsb_init p) = length p"
    by (rule fsb_inv_init) (simp_all add: fsb_data_def fsb_init_def fsb_max_size_def)
  then obtain db where db: "write_close fsb_prepare fsb_fill fsb_commit big_endian16 big_endian64 r key cr (fsb_init p) = Inr db"
      "fsb_data db = frame_bytes Close r key (close_payload cr)"
    using fsb.write_close_data [of "fsb_init p" cr r key] close_frame_fits [OF len, of r key] len p by auto
  then show ?thesis
    using close_frame_read [OF st len, of key fh0] read_close_payload [OF tmp len utf code, of addr cr0] assms(1,2)
    by metis
qed

theorem close_roundtrip_witness:
  "\<exists>db fh st' n. write_close fsb_prepare fsb_fill fsb_commit big_endian16 big_endian64 Client 0x01020304
      \<lparr>cr_code = 1000, cr_reason = [0x6f, 0x6b]\<rparr> (fsb_init (replicate 131 0)) = Inr db \<and>
    parse_fh (fsb_data db) None
      \<lparr>fh_len = 0, fh_key = 0, fh_op = Cont, fh_fin = False, fh_mask = False, fh_rsv1 = False, fh_rsv2 = False, fh_rsv3 = False\<rparr>
      \<lparr>role = Server, rd_cont = False, rd_size = 0, rd_msg_max = 0, rd_op = Cont, rd_remain = 0, rd_key = [], pmd = None\<rparr> = (True, None, fh, st', n) \<and> fh_op fh = Close \<and>
    read_close [0, 0, 0, 0] 0 (read_control (drop n (fsb_data db)) fh st') \<lparr>cr_code = 0, cr_reason = []\<rparr>
      = Some (\<lparr>cr_code = 1000, cr_reason = [0x6f, 0x6b]\<rparr>, None)"
proof -
  have "wf1 [0x6f]" "wf1 [0x6b]"
    by (simp_all add: wf1.simps word_le_nat_alt)
  from utf8.code_point [OF this(1) utf8.code_point [OF this(2) utf8.empty]] have "utf8 [0x6f, 0x6b]"
    by simp
  then show ?thesis
    by (intro close_roundtrip [OF refl refl]) (simp_all add: is_valid_close_code_def)
qed

text \<open>
  The close codes an application may send or receive: 1000 to 1003, 1007 to 1013 and
  everything from 3000 up; the code's four tests leave no gap.
\<close>

theorem close_codes:
  "is_valid_close_code v \<longleftrightarrow>
    unat v \<in> {1000..1003} \<union> {1007..1013} \<union> {3000..65535}"
proof -
  have eq: "v = 1000 \<longleftrightarrow> unat v = 1000" "v = 1001 \<longleftrightarrow> unat v = 1001" "v = 1002 \<longleftrightarrow> unat v = 1002"
    "v = 1003 \<longleftrightarrow> unat v = 1003" "v = 1004 \<longleftrightarrow> unat v = 1004" "v = 1005 \<longleftrightarrow> unat v = 1005"
    "v = 1006 \<longleftrightarrow> unat v = 1006" "v = 1007 \<longleftrightarrow> unat v = 1007" "v = 1008 \<longleftrightarrow> unat v = 1008"
    "v = 1009 \<longleftrightarrow> unat v = 1009" "v = 1010 \<longleftrightarrow> unat v = 1010" "v = 1011 \<longleftrightarrow> unat v = 1011"
    "v = 1012 \<longleftrightarrow> unat v = 1012" "v = 1013 \<longleftrightarrow> unat v = 1013" "v = 1014 \<longleftrightarrow> unat v = 1014"
    "v = 1015 \<longleftrightarrow> unat v = 1015"
    by (simp_all add: word_unat_eq_iff)
  have le: "1016 \<le> v \<longleftrightarrow> 1016 \<le> unat v" "v \<le> 2999 \<longleftrightarrow> unat v \<le> 2999" "v \<le> 999 \<longleftrightarrow> unat v \<le> 999"
    by (simp_all add: word_le_nat_alt)
  have "unat v < 65536"
    using unsigned_less [of v, where ?'a = nat] by simp
  then show ?thesis
    unfolding is_valid_close_code_def insert_iff empty_iff Un_iff atLeastAtMost_iff eq le
    by (simp split del: if_split, presburger)
qed

end
