(* ===== verification/Http_Chars.thy ===== *)
theory Http_Chars
  imports Strings
begin

text \<open>
  The character classes of HTTP: the tables of \<open>beast/http/detail/rfc7230.hpp\<close> and
  of \<open>basic_parser_base\<close> in \<open>beast/http/detail/basic_parser.hpp\<close>, copied row by
  row, and the sets of RFC 7230 they are meant to be.
\<close>

section \<open>Tables of rfc7230.hpp\<close>

definition is_digit_char :: "char \<Rightarrow> bool" where
  "is_digit_char c \<longleftrightarrow> uchar CHR ''0'' \<le> uchar c \<and> uchar c \<le> uchar CHR ''9''"

definition is_alpha_tab :: "nat list" where
  "is_alpha_tab =
    [0, 0, 0, 0, 0, 0, 0, 0, 0, 0, 0, 0, 0, 0, 0, 0,
     0, 0, 0, 0, 0, 0, 0, 0, 0, 0, 0, 0, 0, 0, 0, 0,
     0, 0, 0, 0, 0, 0, 0, 0, 0, 0, 0, 0, 0, 0, 0, 0,
     0, 0, 0, 0, 0, 0, 0, 0, 0, 0, 0, 0, 0, 0, 0, 0,
     0, 1, 1, 1, 1, 1, 1, 1, 1, 1, 1, 1, 1, 1, 1, 1,
     1, 1, 1, 1, 1, 1, 1, 1, 1, 1, 1, 0, 0, 0, 0, 0,
     0, 1, 1, 1, 1, 1, 1, 1, 1, 1, 1, 1, 1, 1, 1, 1,
     1, 1, 1, 1, 1, 1, 1, 1, 1, 1, 1, 0, 0, 0, 0, 0,
     0, 0, 0, 0, 0, 0, 0, 0, 0, 0, 0, 0, 0, 0, 0, 0,
     0, 0, 0, 0, 0, 0, 0, 0, 0, 0, 0, 0, 0, 0, 0, 0,
     0, 0, 0, 0, 0, 0, 0, 0, 0, 0, 0, 0, 0, 0, 0, 0,
     0, 0, 0, 0, 0, 0, 0, 0, 0, 0, 0, 0, 0, 0, 0, 0,
     0, 0, 0, 0, 0, 0, 0, 0, 0, 0, 0, 0, 0, 0, 0, 0,
     0, 0, 0, 0, 0, 0, 0, 0, 0, 0, 0, 0, 0, 0, 0, 0,
     0, 0, 0, 0, 0, 0, 0, 0, 0, 0, 0, 0, 0, 0, 0, 0,
     0, 0, 0, 0, 0, 0, 0, 0, 0, 0, 0, 0, 0, 0, 0, 0]"

definition is_alpha :: "char \<Rightarrow> bool" where
  "is_alpha c \<longleftrightarrow> is_alpha_tab ! uchar c \<noteq> 0"

definition is_text_tab :: "nat list" where
  "is_text_tab =
    [0, 0, 0, 0, 0, 0, 0, 0, 0, 1, 0, 0, 0, 0, 0, 0,
     0, 0, 0, 0, 0, 0, 0, 0, 0, 0, 0, 0, 0, 0, 0, 0,
     1, 1, 1, 1, 1, 1, 1, 1, 1, 1, 1, 1, 1, 1, 1, 1,
     1, 1, 1, 1, 1, 1, 1, 1, 1, 1, 1, 1, 1, 1, 1, 1,
     1, 1, 1, 1, 1, 1, 1, 1, 1, 1, 1, 1, 1, 1, 1, 1,
     1, 1, 1, 1, 1, 1, 1, 1, 1, 1, 1, 1, 1, 1, 1, 1,
     1, 1, 1, 1, 1, 1, 1, 1, 1, 1, 1, 1, 1, 1, 1, 1,
     1, 1, 1, 1, 1, 1, 1, 1, 1, 1, 1, 1, 1, 1, 1, 0,
     1, 1, 1, 1, 1, 1, 1, 1, 1, 1, 1, 1, 1, 1, 1, 1,
     1, 1, 1, 1, 1, 1, 1, 1, 1, 1, 1, 1, 1, 1, 1, 1,
     1, 1, 1, 1, 1, 1, 1, 1, 1, 1, 1, 1, 1, 1, 1, 1,
     1, 1, 1, 1, 1, 1, 1, 1, 1, 1, 1, 1, 1, 1, 1, 1,
     1, 1, 1, 1, 1, 1, 1, 1, 1, 1, 1, 1, 1, 1, 1, 1,
     1, 1, 1, 1, 1, 1, 1, 1, 1, 1, 1, 1, 1, 1, 1, 1,
     1, 1, 1, 1, 1, 1, 1, 1, 1, 1, 1, 1, 1, 1, 1, 1,
     1, 1, 1, 1, 1, 1, 1, 1, 1, 1, 1, 1, 1, 1, 1, 1]"

definition is_text :: "char \<Rightarrow> bool" where
  "is_text c \<longleftrightarrow> is_text_tab ! uchar c \<noteq> 0"

definition is_token_char_tab :: "nat list" where
  "is_token_char_tab =
    [0, 0, 0, 0, 0, 0, 0, 0, 0, 0, 0, 0, 0, 0, 0, 0,
     0, 0, 0, 0, 0, 0, 0, 0, 0, 0, 0, 0, 0, 0, 0, 0,
     0, 1, 0, 1, 1, 1, 1, 1, 0, 0, 1, 1, 0, 1, 1, 0,
     1, 1, 1, 1, 1, 1, 1, 1, 1, 1, 0, 0, 0, 0, 0, 0,
     0, 1, 1, 1, 1, 1, 1, 1, 1, 1, 1, 1, 1, 1, 1, 1,
     1, 1, 1, 1, 1, 1, 1, 1, 1, 1, 1, 0, 0, 0, 1, 1,
     1, 1, 1, 1, 1, 1, 1, 1, 1, 1, 1, 1, 1, 1, 1, 1,
     1, 1, 1, 1, 1, 1, 1, 1, 1, 1, 1, 0, 1, 0, 1, 0,
     0, 0, 0, 0, 0, 0, 0, 0, 0, 0, 0, 0, 0, 0, 0, 0,
     0, 0, 0, 0, 0, 0, 0, 0, 0, 0, 0, 0, 0, 0, 0, 0,
     0, 0, 0, 0, 0, 0, 0, 0, 0, 0, 0, 0, 0, 0, 0, 0,
     0, 0, 0, 0, 0, 0, 0, 0, 0, 0, 0, 0, 0, 0, 0, 0,
     0, 0, 0, 0, 0, 0, 0, 0, 0, 0, 0, 0, 0, 0, 0, 0,
     0, 0, 0, 0, 0, 0, 0, 0, 0, 0, 0, 0, 0, 0, 0, 0,
     0, 0, 0, 0, 0, 0, 0, 0, 0, 0, 0, 0, 0, 0, 0, 0,
     0, 0, 0, 0, 0, 0, 0, 0, 0, 0, 0, 0, 0, 0, 0, 0]"

definition is_token_char :: "char \<Rightarrow> bool" where
  "is_token_char c \<longleftrightarrow> is_token_char_tab ! uchar c \<noteq> 0"

definition is_qdchar_tab :: "nat list" where
  "is_qdchar_tab =
    [0, 0, 0, 0, 0, 0, 0, 0, 0, 1, 0, 0, 0, 0, 0, 0,
     0, 0, 0, 0, 0, 0, 0, 0, 0, 0, 0, 0, 0, 0, 0, 0,
     1, 1, 0, 1, 1, 1, 1, 1, 1, 1, 1, 1, 1, 1, 1, 1,
     1, 1, 1, 1, 1, 1, 1, 1, 1, 1, 1, 1, 1, 1, 1, 1,
     1, 1, 1, 1, 1, 1, 1, 1, 1, 1, 1, 1, 1, 1, 1, 1,
     1, 1, 1, 1, 1, 1, 1, 1, 1, 1, 1, 1, 0, 1, 1, 1,
     1, 1, 1, 1, 1, 1, 1, 1, 1, 1, 1, 1, 1, 1, 1, 1,
     1, 1, 1, 1, 1, 1, 1, 1, 1, 1, 1, 1, 1, 1, 1, 0,
     1, 1, 1, 1, 1, 1, 1, 1, 1, 1, 1, 1, 1, 1, 1, 1,
     1, 1, 1, 1, 1, 1, 1, 1, 1, 1, 1, 1, 1, 1, 1, 1,
     1, 1, 1, 1, 1, 1, 1, 1, 1, 1, 1, 1, 1, 1, 1, 1,
     1, 1, 1, 1, 1, 1, 1, 1, 1, 1, 1, 1, 1, 1, 1, 1,
     1, 1, 1, 1, 1, 1, 1, 1, 1, 1, 1, 1, 1, 1, 1, 1,
     1, 1, 1, 1, 1, 1, 1, 1, 1, 1, 1, 1, 1, 1, 1, 1,
     1, 1, 1, 1, 1, 1, 1, 1, 1, 1, 1, 1, 1, 1, 1, 1,
     1, 1, 1, 1, 1, 1, 1, 1, 1, 1, 1, 1, 1, 1, 1, 1]"

definition is_qdchar :: "char \<Rightarrow> bool" where
  "is_qdchar c \<longleftrightarrow> is_qdchar_tab ! uchar c \<noteq> 0"

definition is_qpchar_tab :: "nat list" where
  "is_qpchar_tab =
    [0, 0, 0, 0, 0, 0, 0, 0, 0, 1, 0, 0, 0, 0, 0, 0,
     0, 0, 0, 0, 0, 0, 0, 0, 0, 0, 0, 0, 0, 0, 0, 0,
     1, 1, 1, 1, 1, 1, 1, 1, 1, 1, 1, 1, 1, 1, 1, 1,
     1, 1, 1, 1, 1, 1, 1, 1, 1, 1, 1, 1, 1, 1, 1, 1,
     1, 1, 1, 1, 1, 1, 1, 1, 1, 1, 1, 1, 1, 1, 1, 1,
     1, 1, 1, 1, 1, 1, 1, 1, 1, 1, 1, 1, 1, 1, 1, 1,
     1, 1, 1, 1, 1, 1, 1, 1, 1, 1, 1, 1, 1, 1, 1, 1,
     1, 1, 1, 1, 1, 1, 1, 1, 1, 1, 1, 1, 1, 1, 1, 0,
     1, 1, 1, 1, 1, 1, 1, 1, 1, 1, 1, 1, 1, 1, 1, 1,
     1, 1, 1, 1, 1, 1, 1, 1, 1, 1, 1, 1, 1, 1, 1, 1,
     1, 1, 1, 1, 1, 1, 1, 1, 1, 1, 1, 1, 1, 1, 1, 1,
     1, 1, 1, 1, 1, 1, 1, 1, 1, 1, 1, 1, 1, 1, 1, 1,
     1, 1, 1, 1, 1, 1, 1, 1, 1, 1, 1, 1, 1, 1, 1, 1,
     1, 1, 1, 1, 1, 1, 1, 1, 1, 1, 1, 1, 1, 1, 1, 1,
     1, 1, 1, 1, 1, 1, 1, 1, 1, 1, 1, 1, 1, 1, 1, 1,
     1, 1, 1, 1, 1, 1, 1, 1, 1, 1, 1, 1, 1, 1, 1, 1]"

definition is_qpchar :: "char \<Rightarrow> bool" where
  "is_qpchar c \<longleftrightarrow> is_qpchar_tab ! uchar c \<noteq> 0"

definition to_value_char_tab :: "nat list" where
  "to_value_char_tab =
    [0, 0, 0, 0, 0, 0, 0, 0, 0, 9, 0, 0, 0, 0, 0, 0,
     0, 0, 0, 0, 0, 0, 0, 0, 0, 0, 0, 0, 0, 0, 0, 0,
     32, 33, 34, 35, 36, 37, 38, 39, 40, 41, 42, 43, 44, 45, 46, 47,
     48, 49, 50, 51, 52, 53, 54, 55, 56, 57, 58, 59, 60, 61, 62, 63,
     64, 97, 98, 99, 100, 101, 102, 103, 104, 105, 106, 107, 108, 109, 110, 111,
     112, 113, 114, 115, 116, 117, 118, 119, 120, 121, 122, 91, 92, 93, 94, 95,
     96, 97, 98, 99, 100, 101, 102, 103, 104, 105, 106, 107, 108, 109, 110, 111,
     112, 113, 114, 115, 116, 117, 118, 119, 120, 121, 122, 123, 124, 125, 126, 0,
     128, 129, 130, 131, 132, 133, 134, 135, 136, 137, 138, 139, 140, 141, 142, 143,
     144, 145, 146, 147, 148, 149, 150, 151, 152, 153, 154, 155, 156, 157, 158, 159,
     160, 161, 162, 163, 164, 165, 166, 167, 168, 169, 170, 171, 172, 173, 174, 175,
     176, 177, 178, 179, 180, 181, 182, 183, 184, 185, 186, 187, 188, 189, 190, 191,
     192, 193, 194, 195, 196, 197, 198, 199, 200, 201, 202, 203, 204, 205, 206, 207,
     208, 209, 210, 211, 212, 213, 214, 215, 216, 217, 218, 219, 220, 221, 222, 223,
     224, 225, 226, 227, 228, 229, 230, 231, 232, 233, 234, 235, 236, 237, 238, 239,
     240, 241, 242, 243, 244, 245, 246, 247, 248, 249, 250, 251, 252, 253, 254, 255]"

definition to_value_char :: "char \<Rightarrow> char" where
  "to_value_char c = char_of (to_value_char_tab ! uchar c)"

definition unhex_tab :: "int list" where
  "unhex_tab =
    [-1, -1, -1, -1, -1, -1, -1, -1, -1, -1, -1, -1, -1, -1, -1, -1,
     -1, -1, -1, -1, -1, -1, -1, -1, -1, -1, -1, -1, -1, -1, -1, -1,
     -1, -1, -1, -1, -1, -1, -1, -1, -1, -1, -1, -1, -1, -1, -1, -1,
     0, 1, 2, 3, 4, 5, 6, 7, 8, 9, -1, -1, -1, -1, -1, -1,
     -1, 10, 11, 12, 13, 14, 15, -1, -1, -1, -1, -1, -1, -1, -1, -1,
     -1, -1, -1, -1, -1, -1, -1, -1, -1, -1, -1, -1, -1, -1, -1, -1,
     -1, 10, 11, 12, 13, 14, 15, -1, -1, -1, -1, -1, -1, -1, -1, -1,
     -1, -1, -1, -1, -1, -1, -1, -1, -1, -1, -1, -1, -1, -1, -1, -1,
     -1, -1, -1, -1, -1, -1, -1, -1, -1, -1, -1, -1, -1, -1, -1, -1,
     -1, -1, -1, -1, -1, -1, -1, -1, -1, -1, -1, -1, -1, -1, -1, -1,
     -1, -1, -1, -1, -1, -1, -1, -1, -1, -1, -1, -1, -1, -1, -1, -1,
     -1, -1, -1, -1, -1, -1, -1, -1, -1, -1, -1, -1, -1, -1, -1, -1,
     -1, -1, -1, -1, -1, -1, -1, -1, -1, -1, -1, -1, -1, -1, -1, -1,
     -1, -1, -1, -1, -1, -1, -1, -1, -1, -1, -1, -1, -1, -1, -1, -1,
     -1, -1, -1, -1, -1, -1, -1, -1, -1, -1, -1, -1, -1, -1, -1, -1,
     -1, -1, -1, -1, -1, -1, -1, -1, -1, -1, -1, -1, -1, -1, -1, -1]"

definition unhex :: "char \<Rightarrow> int" where
  "unhex c = unhex_tab ! uchar c"

section \<open>Tables of basic\_parser\_base\<close>

definition is_pathchar_tab :: "nat list" where
  "is_pathchar_tab =
    [0, 0, 0, 0, 0, 0, 0, 0, 0, 0, 0, 0, 0, 0, 0, 0,
     0, 0, 0, 0, 0, 0, 0, 0, 0, 0, 0, 0, 0, 0, 0, 0,
     0, 1, 1, 1, 1, 1, 1, 1, 1, 1, 1, 1, 1, 1, 1, 1,
     1, 1, 1, 1, 1, 1, 1, 1, 1, 1, 1, 1, 1, 1, 1, 1,
     1, 1, 1, 1, 1, 1, 1, 1, 1, 1, 1, 1, 1, 1, 1, 1,
     1, 1, 1, 1, 1, 1, 1, 1, 1, 1, 1, 1, 1, 1, 1, 1,
     1, 1, 1, 1, 1, 1, 1, 1, 1, 1, 1, 1, 1, 1, 1, 1,
     1, 1, 1, 1, 1, 1, 1, 1, 1, 1, 1, 1, 1, 1, 1, 0,
     1, 1, 1, 1, 1, 1, 1, 1, 1, 1, 1, 1, 1, 1, 1, 1,
     1, 1, 1, 1, 1, 1, 1, 1, 1, 1, 1, 1, 1, 1, 1, 1,
     1, 1, 1, 1, 1, 1, 1, 1, 1, 1, 1, 1, 1, 1, 1, 1,
     1, 1, 1, 1, 1, 1, 1, 1, 1, 1, 1, 1, 1, 1, 1, 1,
     1, 1, 1, 1, 1, 1, 1, 1, 1, 1, 1, 1, 1, 1, 1, 1,
     1, 1, 1, 1, 1, 1, 1, 1, 1, 1, 1, 1, 1, 1, 1, 1,
     1, 1, 1, 1, 1, 1, 1, 1, 1, 1, 1, 1, 1, 1, 1, 1,
     1, 1, 1, 1, 1, 1, 1, 1, 1, 1, 1, 1, 1, 1, 1, 1]"

definition is_pathchar :: "char \<Rightarrow> bool" where
  "is_pathchar c \<longleftrightarrow> is_pathchar_tab ! uchar c \<noteq> 0"

text \<open>
  The table of the member \<open>unhex\<close>.  The commas at the ends of its last nine rows are
  missing, so neighbouring entries \<open>-1 -1\<close> are one initialiser \<open>-2\<close>, and the
  array elements without an initialiser are zero.
\<close>

definition hex_inits :: "int list" where
  "hex_inits =
    [-1, -1, -1, -1, -1, -1, -1, -1, -1, -1, -1, -1, -1, -1, -1, -1,
     -1, -1, -1, -1, -1, -1, -1, -1, -1, -1, -1, -1, -1, -1, -1, -1,
     -1, -1, -1, -1, -1, -1, -1, -1, -1, -1, -1, -1, -1, -1, -1, -1,
     0, 1, 2, 3, 4, 5, 6, 7, 8, 9, -1, -1, -1, -1, -1, -1,
     -1, 10, 11, 12, 13, 14, 15, -1, -1, -1, -1, -1, -1, -1, -1, -1,
     -1, -1, -1, -1, -1, -1, -1, -1, -1, -1, -1, -1, -1, -1, -1, -1,
     -1, 10, 11, 12, 13, 14, 15, -1, -1, -1, -1, -1, -1, -1, -1, -1,
     -1, -1, -1, -1, -1, -1, -1, -1, -1, -1, -1, -1, -1, -1, -1, -2,
     -1, -1, -1, -1, -1, -1, -1, -1, -1, -1, -1, -1, -1, -1, -2, -1,
     -1, -1, -1, -1, -1, -1, -1, -1, -1, -1, -1, -1, -1, -2, -1, -1,
     -1, -1, -1, -1, -1, -1, -1, -1, -1, -1, -1, -1, -2, -1, -1, -1,
     -1, -1, -1, -1, -1, -1, -1, -1, -1, -1, -1, -2, -1, -1, -1, -1,
     -1, -1, -1, -1, -1, -1, -1, -1, -1, -1, -2, -1, -1, -1, -1, -1,
     -1, -1, -1, -1, -1, -1, -1, -1, -1, -2, -1, -1, -1, -1, -1, -1,
     -1, -1, -1, -1, -1, -1, -1, -1, -2, -1, -1, -1, -1, -1, -1, -1,
     -1, -1, -1, -1, -1, -1, -1, -1]"

definition hex_tab :: "int list" where
  "hex_tab = hex_inits @ replicate (256 - length hex_inits) 0"

text \<open>\<open>unhex(d, c)\<close>: the value of the digit as an \<open>unsigned char\<close>, if it is one.\<close>

definition hex_digit :: "char \<Rightarrow> nat option" where
  "hex_digit c =
     (let d = nat ((hex_tab ! uchar c) mod 256) in if d \<noteq> 255 then Some d else None)"

definition is_digit :: "char \<Rightarrow> bool" where
  "is_digit c \<longleftrightarrow> (uchar c + 256 - 48) mod 256 < 10"

definition is_print :: "char \<Rightarrow> bool" where
  "is_print c \<longleftrightarrow> (uchar c + 256 - 32) mod 256 < 95"

text \<open>The table of token characters inside \<open>parse_field\<close>.\<close>

definition field_token_tab :: "nat list" where
  "field_token_tab =
    [0, 0, 0, 0, 0, 0, 0, 0, 0, 0, 0, 0, 0, 0, 0, 0,
     0, 0, 0, 0, 0, 0, 0, 0, 0, 0, 0, 0, 0, 0, 0, 0,
     0, 1, 0, 1, 1, 1, 1, 1, 0, 0, 1, 1, 0, 1, 1, 0,
     1, 1, 1, 1, 1, 1, 1, 1, 1, 1, 0, 0, 0, 0, 0, 0,
     0, 1, 1, 1, 1, 1, 1, 1, 1, 1, 1, 1, 1, 1, 1, 1,
     1, 1, 1, 1, 1, 1, 1, 1, 1, 1, 1, 0, 0, 0, 1, 1,
     1, 1, 1, 1, 1, 1, 1, 1, 1, 1, 1, 1, 1, 1, 1, 1,
     1, 1, 1, 1, 1, 1, 1, 1, 1, 1, 1, 0, 1, 0, 1, 0,
     0, 0, 0, 0, 0, 0, 0, 0, 0, 0, 0, 0, 0, 0, 0, 0,
     0, 0, 0, 0, 0, 0, 0, 0, 0, 0, 0, 0, 0, 0, 0, 0,
     0, 0, 0, 0, 0, 0, 0, 0, 0, 0, 0, 0, 0, 0, 0, 0,
     0, 0, 0, 0, 0, 0, 0, 0, 0, 0, 0, 0, 0, 0, 0, 0,
     0, 0, 0, 0, 0, 0, 0, 0, 0, 0, 0, 0, 0, 0, 0, 0,
     0, 0, 0, 0, 0, 0, 0, 0, 0, 0, 0, 0, 0, 0, 0, 0,
     0, 0, 0, 0, 0, 0, 0, 0, 0, 0, 0, 0, 0, 0, 0, 0,
     0, 0, 0, 0, 0, 0, 0, 0, 0, 0, 0, 0, 0, 0, 0, 0]"

definition is_field_token :: "char \<Rightarrow> bool" where
  "is_field_token c \<longleftrightarrow> field_token_tab ! uchar c \<noteq> 0"

section \<open>The classes of RFC 7230, by code\<close>

definition digit_code :: "nat \<Rightarrow> bool" where
  "digit_code n \<longleftrightarrow> 48 \<le> n \<and> n \<le> 57"

definition alpha_code :: "nat \<Rightarrow> bool" where
  "alpha_code n \<longleftrightarrow> 65 \<le> n \<and> n \<le> 90 \<or> 97 \<le> n \<and> n \<le> 122"

definition tchar_code :: "nat \<Rightarrow> bool" where
  "tchar_code n \<longleftrightarrow> n \<in> {33, 35, 36, 37, 38, 39, 42, 43, 45, 46, 94, 95, 96, 124, 126} \<or>
     digit_code n \<or> alpha_code n"

definition vchar_code :: "nat \<Rightarrow> bool" where
  "vchar_code n \<longleftrightarrow> 0x21 \<le> n \<and> n \<le> 0x7e"

definition blank_code :: "nat \<Rightarrow> bool" where
  "blank_code n \<longleftrightarrow> n = 32 \<or> n = 9"

definition qdtext_code :: "nat \<Rightarrow> bool" where
  "qdtext_code n \<longleftrightarrow> blank_code n \<or> n = 0x21 \<or> 0x23 \<le> n \<and> n \<le> 0x5b \<or> 0x5d \<le> n \<and> n \<le> 0x7e \<or> 0x80 \<le> n"

definition text_code :: "nat \<Rightarrow> bool" where
  "text_code n \<longleftrightarrow> blank_code n \<or> vchar_code n \<or> 0x80 \<le> n"

definition hex_code :: "nat \<Rightarrow> int" where
  "hex_code n = (if digit_code n then int n - 48 else if 97 \<le> n \<and> n \<le> 102 then int n - 87
     else if 65 \<le> n \<and> n \<le> 70 then int n - 55 else -1)"

definition hex_stray :: "nat \<Rightarrow> bool" where
  "hex_stray n \<longleftrightarrow> n \<in> {127, 142, 157, 172, 187, 202, 217, 232}"

text \<open>A table against a predicate of the index, checked entry by entry.\<close>

lemma table_all:
  assumes "list_all2 P [0..<256] tab"
  shows "P (uchar c) (tab ! uchar c)"
  using list_all2_nthD [OF assms, of "uchar c"] uchar_less [of c] by simp

lemma token_tab: "list_all2 (\<lambda>n x. (x \<noteq> 0) = tchar_code n) [0..<256] is_token_char_tab"
  by code_simp

lemma field_token_tab: "field_token_tab = is_token_char_tab"
  by (simp only: field_token_tab_def is_token_char_tab_def)

lemma alpha_tab: "list_all2 (\<lambda>n x. (x \<noteq> 0) = alpha_code n) [0..<256] is_alpha_tab"
  by code_simp

lemma text_tab: "list_all2 (\<lambda>n x. (x \<noteq> 0) = text_code n) [0..<256] is_text_tab"
  by code_simp

lemma qdchar_tab: "list_all2 (\<lambda>n x. (x \<noteq> 0) = qdtext_code n) [0..<256] is_qdchar_tab"
  by code_simp

lemma qpchar_tab: "is_qpchar_tab = is_text_tab"
  by (simp only: is_qpchar_tab_def is_text_tab_def)

lemma pathchar_tab: "list_all2 (\<lambda>n x. (x \<noteq> 0) = (vchar_code n \<or> 0x80 \<le> n)) [0..<256] is_pathchar_tab"
  by code_simp

lemma value_tab: "list_all2 (\<lambda>n x. x = (if \<not> text_code n then 0 else if 65 \<le> n \<and> n \<le> 90 then n + 32 else n))
    [0..<256] to_value_char_tab"
  by (simp add: to_value_char_tab_def upt_conv_Cons text_code_def blank_code_def vchar_code_def)

lemma unhex_tab: "list_all2 (\<lambda>n x. x = hex_code n) [0..<256] unhex_tab"
  by code_simp

lemma hex_tab_updates:
  "hex_tab = take 248 (unhex_tab [127 := -2, 142 := -2, 157 := -2, 172 := -2, 187 := -2, 202 := -2, 217 := -2, 232 := -2])
    @ replicate 8 0"
  by code_simp

lemma length_unhex_tab: "length unhex_tab = 256"
  using list_all2_lengthD [OF unhex_tab] by simp

lemma hex_tab_nth:
  "n < 256 \<Longrightarrow> hex_tab ! n = (if 248 \<le> n then 0 else if hex_stray n then -2 else unhex_tab ! n)"
  unfolding hex_tab_updates hex_stray_def by (auto simp: nth_append nth_list_update length_unhex_tab)

lemma token_char_iff: "is_token_char c \<longleftrightarrow> tchar_code (uchar c)"
  using table_all [OF token_tab, of c] by (simp add: is_token_char_def)

lemma field_token_iff: "is_field_token c \<longleftrightarrow> is_token_char c"
  by (simp add: is_field_token_def is_token_char_def field_token_tab)

lemma pathchar_iff: "is_pathchar c \<longleftrightarrow> vchar_code (uchar c) \<or> 0x80 \<le> uchar c"
  using table_all [OF pathchar_tab, of c] by (simp add: is_pathchar_def)

lemma unhex_eq: "unhex c = hex_code (uchar c)"
  using table_all [OF unhex_tab, of c] by (simp add: unhex_def)

lemma sub_mod_256: "n < 256 \<Longrightarrow> m < 256 \<Longrightarrow> (n + 256 - m) mod 256 = (if m \<le> n then n - m else n + 256 - m)" for n m :: nat
  by (auto simp: mod_if)

lemma is_digit_iff: "is_digit c \<longleftrightarrow> digit_code (uchar c)"
proof -
  have "(uchar c + 256 - 48) mod 256 = (if 48 \<le> uchar c then uchar c - 48 else uchar c + 256 - 48)"
    by (rule sub_mod_256) auto
  then show ?thesis
    using uchar_less [of c] unfolding is_digit_def digit_code_def by auto
qed

lemma is_print_iff: "is_print c \<longleftrightarrow> 32 \<le> uchar c \<and> uchar c < 127"
proof -
  have "(uchar c + 256 - 32) mod 256 = (if 32 \<le> uchar c then uchar c - 32 else uchar c + 256 - 32)"
    by (rule sub_mod_256) auto
  then show ?thesis
    using uchar_less [of c] unfolding is_print_def by auto
qed

lemma hex_code_range: "hex_code n = -1 \<or> 0 \<le> hex_code n \<and> hex_code n < 16"
  by (simp add: hex_code_def digit_code_def)

lemma hex_code_big: "103 \<le> n \<Longrightarrow> hex_code n = -1"
  by (simp add: hex_code_def digit_code_def)

lemma hex_digit_eq: "hex_digit c = (if unhex c \<noteq> -1 then Some (nat (unhex c))
    else if hex_stray (uchar c) then Some 254 else if 248 \<le> uchar c then Some 0 else None)"
proof -
  have "hex_stray (uchar c) \<Longrightarrow> 103 \<le> uchar c" and stray: "hex_stray (uchar c) \<Longrightarrow> \<not> 248 \<le> uchar c"
    by (auto simp: hex_stray_def)
  then consider "248 \<le> uchar c" "unhex c = -1" "\<not> hex_stray (uchar c)"
    | "hex_stray (uchar c)" "unhex c = -1" "\<not> 248 \<le> uchar c"
    | "\<not> 248 \<le> uchar c" "\<not> hex_stray (uchar c)" "hex_tab ! uchar c = unhex c"
    using hex_tab_nth [OF uchar_less, of c] hex_code_big [of "uchar c"] unhex_eq [of c] by (auto simp: unhex_def)
  then show ?thesis
  proof cases
    case 3
    then show ?thesis
      using hex_code_range [of "uchar c"] by (auto simp: hex_digit_def unhex_eq Let_def)
  qed (simp_all add: hex_digit_def hex_tab_nth [OF uchar_less])
qed

lemma token_not_special:
  assumes "is_token_char c"
  shows "32 < uchar c" "uchar c < 127" "c \<noteq> CHR '' ''" "c \<noteq> CHR '':''" "c \<noteq> CHR '',''" "c \<noteq> CHR '';''"
    "c \<noteq> CHR ''=''" "c \<noteq> CHR 0x09" "c \<noteq> CHR 0x0D" "c \<noteq> CHR 0x0A" "c \<noteq> CHR 0x22"
  using assms by (auto simp: token_char_iff tchar_code_def digit_code_def alpha_code_def uchar_def)

section \<open>Properties\<close>

text \<open>
  The tables are the character classes of RFC 7230: token characters (in both copies),
  letters, text, \<open>qdtext\<close>, the second character of a quoted pair; \<open>to_value_char\<close>
  lowers text and clears everything else; the request target takes any octet but controls,
  blank and delete.
\<close>

theorem char_tables:
  "(is_token_char c \<longleftrightarrow> tchar_code (uchar c)) \<and> (is_field_token c \<longleftrightarrow> tchar_code (uchar c)) \<and>
   (is_alpha c \<longleftrightarrow> alpha_code (uchar c)) \<and> (is_text c \<longleftrightarrow> text_code (uchar c)) \<and>
   (is_qdchar c \<longleftrightarrow> qdtext_code (uchar c)) \<and> (is_qpchar c \<longleftrightarrow> text_code (uchar c)) \<and>
   (is_pathchar c \<longleftrightarrow> vchar_code (uchar c) \<or> 0x80 \<le> uchar c) \<and>
   (is_digit c \<longleftrightarrow> digit_code (uchar c)) \<and> (is_digit_char c \<longleftrightarrow> digit_code (uchar c)) \<and>
   to_value_char c = (if text_code (uchar c) then ascii_tolower c else char_of (0 :: nat))"
proof -
  have "is_alpha c = alpha_code (uchar c)" "is_text c = text_code (uchar c)" "is_qdchar c = qdtext_code (uchar c)"
      "is_qpchar c = text_code (uchar c)"
    using table_all [OF alpha_tab, of c] table_all [OF text_tab, of c] table_all [OF qdchar_tab, of c]
    by (simp_all add: is_alpha_def is_text_def is_qdchar_def is_qpchar_def qpchar_tab)
  moreover have "is_digit_char c = digit_code (uchar c)"
    by (simp add: is_digit_char_def digit_code_def uchar_def)
  moreover have "to_value_char c = (if text_code (uchar c) then ascii_tolower c else char_of (0 :: nat))"
    using table_all [OF value_tab, of c] by (auto simp: to_value_char_def ascii_tolower_eq)
  ultimately show ?thesis
    by (simp add: token_char_iff field_token_iff pathchar_iff is_digit_iff)
qed

text \<open>
  The hexadecimal digit test of the chunk-size parser takes sixteen octets that are not
  digits: the commas missing from its table make eight of them digits of value 254 and
  leave the last eight without an initialiser, digits of value 0.
\<close>

theorem hex_digit_stray:
  "hex_digit c = (if unhex c \<noteq> -1 then Some (nat (unhex c))
     else if uchar c \<in> {127, 142, 157, 172, 187, 202, 217, 232} then Some 254
     else if 248 \<le> uchar c then Some 0 else None)"
  using hex_digit_eq [of c] by (simp only: hex_stray_def)

end
