(* ===== verification/Http_Names.thy ===== *)
theory Http_Names
  imports Http_Chars
begin

text \<open>
  The names of HTTP: request methods (\<open>beast/http/verb.hpp\<close>,
  \<open>impl/verb.ipp\<close>) and status codes (\<open>status.hpp\<close>, \<open>impl/status.ipp\<close>).
\<close>

section \<open>Request methods\<close>

datatype verb = V_unknown | V_delete | V_get | V_head | V_post | V_put | V_connect | V_options | V_trace | V_copy | V_lock | V_mkcol | V_move | V_propfind | V_proppatch |
  V_search | V_unlock | V_bind | V_rebind | V_unbind | V_acl | V_report | V_mkactivity | V_checkout | V_merge |
  V_msearch | V_notify | V_subscribe | V_unsubscribe | V_patch | V_purge | V_mkcalendar | V_link | V_unlink

fun verb_to_string :: "verb \<Rightarrow> string" where
  "verb_to_string V_delete = ''DELETE''"
| "verb_to_string V_get = ''GET''"
| "verb_to_string V_head = ''HEAD''"
| "verb_to_string V_post = ''POST''"
| "verb_to_string V_put = ''PUT''"
| "verb_to_string V_connect = ''CONNECT''"
| "verb_to_string V_options = ''OPTIONS''"
| "verb_to_string V_trace = ''TRACE''"
| "verb_to_string V_copy = ''COPY''"
| "verb_to_string V_lock = ''LOCK''"
| "verb_to_string V_mkcol = ''MKCOL''"
| "verb_to_string V_move = ''MOVE''"
| "verb_to_string V_propfind = ''PROPFIND''"
| "verb_to_string V_proppatch = ''PROPPATCH''"
| "verb_to_string V_search = ''SEARCH''"
| "verb_to_string V_unlock = ''UNLOCK''"
| "verb_to_string V_bind = ''BIND''"
| "verb_to_string V_rebind = ''REBIND''"
| "verb_to_string V_unbind = ''UNBIND''"
| "verb_to_string V_acl = ''ACL''"
| "verb_to_string V_report = ''REPORT''"
| "verb_to_string V_mkactivity = ''MKACTIVITY''"
| "verb_to_string V_checkout = ''CHECKOUT''"
| "verb_to_string V_merge = ''MERGE''"
| "verb_to_string V_msearch = ''M-SEARCH''"
| "verb_to_string V_notify = ''NOTIFY''"
| "verb_to_string V_subscribe = ''SUBSCRIBE''"
| "verb_to_string V_unsubscribe = ''UNSUBSCRIBE''"
| "verb_to_string V_patch = ''PATCH''"
| "verb_to_string V_purge = ''PURGE''"
| "verb_to_string V_mkcalendar = ''MKCALENDAR''"
| "verb_to_string V_link = ''LINK''"
| "verb_to_string V_unlink = ''UNLINK''"
| "verb_to_string V_unknown = ''<unknown>''"

text \<open>
  The lambda \<open>eq\<close> compares a view with a null-terminated string.  It reads the
  character before it tests for the end of the view, so it may read past it: \<open>p\<close> is
  the memory from the start of the view on, \<open>n\<close> the number of characters left in the
  view, and \<open>None\<close> a read past that memory.
\<close>

fun eq_at :: "string \<Rightarrow> int \<Rightarrow> string \<Rightarrow> bool option" where
  "eq_at (c # p) n (x # s) =
     (if x \<noteq> c then Some False
      else if s = [] then Some (n - 1 = 0)
      else eq_at p (n - 1) s)"
| "eq_at [] n (x # s) = None"
| "eq_at p n [] = None"

fun try_verbs :: "string \<Rightarrow> string \<Rightarrow> (string \<times> verb) list \<Rightarrow> verb option" where
  "try_verbs v mem [] = Some V_unknown"
| "try_verbs v mem ((s, r) # xs) =
     (case eq_at (v @ mem) (int (length v)) s of
        None \<Rightarrow> None
      | Some b \<Rightarrow> if b then Some r else try_verbs v mem xs)"

text \<open>\<open>mem\<close> is the memory that follows the view \<open>v\<close>.\<close>

definition string_to_verb :: "string \<Rightarrow> string \<Rightarrow> verb option" where
  "string_to_verb v mem =
     (if length v < 3 then Some V_unknown
      else let c = hd v; v = tl v; c1 = hd v; w = tl v in
        if c = CHR ''A'' then Some (if v = ''CL'' then V_acl else V_unknown)
        else if c = CHR ''B'' then Some (if v = ''IND'' then V_bind else V_unknown)
        else if c = CHR ''C'' then
          (if c1 = CHR ''H'' then try_verbs w mem [(''ECKOUT'', V_checkout)]
           else if c1 = CHR ''O'' then try_verbs w mem [(''NNECT'', V_connect), (''PY'', V_copy)]
           else Some V_unknown)
        else if c = CHR ''D'' then try_verbs v mem [(''ELETE'', V_delete)]
        else if c = CHR ''G'' then try_verbs v mem [(''ET'', V_get)]
        else if c = CHR ''H'' then try_verbs v mem [(''EAD'', V_head)]
        else if c = CHR ''L'' then try_verbs v mem [(''INK'', V_link), (''OCK'', V_lock)]
        else if c = CHR ''M'' then
          (if c1 = CHR ''-'' then try_verbs w mem [(''SEARCH'', V_msearch)]
           else if c1 = CHR ''E'' then try_verbs w mem [(''RGE'', V_merge)]
           else if c1 = CHR ''K'' then
             (case eq_at (w @ mem) (int (length w)) ''ACTIVITY'' of
                None \<Rightarrow> None
              | Some b \<Rightarrow>
                  if b then Some V_mkactivity
                  else if hd w = CHR ''C''
                    then try_verbs (tl w) mem [(''ALENDAR'', V_mkcalendar), (''OL'', V_mkcol)]
                  else Some V_unknown)
           else if c1 = CHR ''O'' then try_verbs w mem [(''VE'', V_move)]
           else Some V_unknown)
        else if c = CHR ''N'' then try_verbs v mem [(''OTIFY'', V_notify)]
        else if c = CHR ''O'' then try_verbs v mem [(''PTIONS'', V_options)]
        else if c = CHR ''P'' then
          (if c1 = CHR ''A'' then try_verbs w mem [(''TCH'', V_patch)]
           else if c1 = CHR ''O'' then try_verbs w mem [(''ST'', V_post)]
           else if c1 = CHR ''R'' then try_verbs w mem [(''OPFIND'', V_propfind), (''OPPATCH'', V_proppatch)]
           else if c1 = CHR ''U'' then try_verbs w mem [(''RGE'', V_purge), (''T'', V_put)]
           else Some V_unknown)
        else if c = CHR ''R'' then
          (if c1 \<noteq> CHR ''E'' then Some V_unknown
           else try_verbs w mem [(''BIND'', V_rebind), (''PORT'', V_report)])
        else if c = CHR ''S'' then try_verbs v mem [(''EARCH'', V_search), (''UBSCRIBE'', V_subscribe)]
        else if c = CHR ''T'' then try_verbs v mem [(''RACE'', V_trace)]
        else if c = CHR ''U'' then
          (if c1 \<noteq> CHR ''N'' then Some V_unknown
           else try_verbs w mem [(''BIND'', V_unbind), (''LINK'', V_unlink), (''LOCK'', V_unlock),
             (''SUBSCRIBE'', V_unsubscribe)])
        else Some V_unknown)"

section \<open>Status codes\<close>

text \<open>A \<open>status\<close> is its code; \<open>status::unknown\<close> is zero.\<close>

definition known_status :: "nat list" where
  "known_status =
    [100, 101, 102, 200, 201, 202, 203, 204, 205, 206, 207, 208, 226, 300, 301, 302, 303, 304, 305, 307,
     308, 400, 401, 402, 403, 404, 405, 406, 407, 408, 409, 410, 411, 412, 413, 414, 415, 416, 417, 421,
     422, 423, 424, 426, 428, 429, 431, 444, 451, 499, 500, 501, 502, 503, 504, 505, 506, 507, 508, 510,
     511, 599]"

definition int_to_status :: "nat \<Rightarrow> nat" where
  "int_to_status v = (if v \<in> set known_status then v else 0)"

definition status_names :: "(nat \<times> string) list" where
  "status_names =
    [(100, ''Continue''), (101, ''Switching Protocols''), (102, ''Processing''), (200, ''OK''),
     (201, ''Created''), (202, ''Accepted''), (203, ''Non-Authoritative Information''),
     (204, ''No Content''), (205, ''Reset Content''), (206, ''Partial Content''), (207, ''Multi-Status''),
     (208, ''Already Reported''), (226, ''IM Used''), (300, ''Multiple Choices''),
     (301, ''Moved Permanently''), (302, ''Found''), (303, ''See Other''), (304, ''Not Modified''),
     (305, ''Use Proxy''), (307, ''Temporary Redirect''), (308, ''Permanent Redirect''),
     (400, ''Bad Request''), (401, ''Unauthorized''), (402, ''Payment Required''), (403, ''Forbidden''),
     (404, ''Not Found''), (405, ''Method Not Allowed''), (406, ''Not Acceptable''),
     (407, ''Proxy Authentication Required''), (408, ''Request Timeout''), (409, ''Conflict''),
     (410, ''Gone''), (411, ''Length Required''), (412, ''Precondition Failed''),
     (413, ''Payload Too Large''), (414, ''URI Too Long''), (415, ''Unsupported Media Type''),
     (416, ''Range Not Satisfiable''), (417, ''Expectation Failed''), (421, ''Misdirected Request''),
     (422, ''Unprocessable Entity''), (423, ''Locked''), (424, ''Failed Dependency''),
     (426, ''Upgrade Required''), (428, ''Precondition Required''), (429, ''Too Many Requests''),
     (431, ''Request Header Fields Too Large''), (444, ''Connection Closed Without Response''),
     (451, ''Unavailable For Legal Reasons''), (499, ''Client Closed Request''),
     (500, ''Internal Server Error''), (501, ''Not Implemented''), (502, ''Bad Gateway''),
     (503, ''Service Unavailable''), (504, ''Gateway Timeout''), (505, ''HTTP Version Not Supported''),
     (506, ''Variant Also Negotiates''), (507, ''Insufficient Storage''), (508, ''Loop Detected''),
     (510, ''Not Extended''), (511, ''Network Authentication Required''),
     (599, ''Network Connect Timeout Error'')]"

definition status_to_string :: "nat \<Rightarrow> string" where
  "status_to_string v = (case map_of status_names v of Some s \<Rightarrow> s | None \<Rightarrow> ''<unknown-status>'')"

datatype status_class = Class_unknown | Informational | Successful | Redirection | Client_error | Server_error

definition to_status_class :: "nat \<Rightarrow> status_class" where
  "to_status_class v =
     (if v div 100 = 1 then Informational else if v div 100 = 2 then Successful
      else if v div 100 = 3 then Redirection else if v div 100 = 4 then Client_error
      else if v div 100 = 5 then Server_error else Class_unknown)"

section \<open>Lemmas\<close>

text \<open>No character of a method name past its first is lower-case, a digit or a separator.\<close>

definition verb_stop :: "char \<Rightarrow> bool" where
  "verb_stop c \<longleftrightarrow> \<not> (65 \<le> uchar c \<and> uchar c \<le> 90)"

lemma eq_at_view:
  "mem = c # mem' \<Longrightarrow> c \<notin> set s \<Longrightarrow> s \<noteq> [] \<Longrightarrow> eq_at (v @ mem) (int (length v)) s = Some (v = s)"
proof (induction s arbitrary: v)
  case (Cons x s)
  show ?case
  proof (cases v)
    case Nil
    then show ?thesis
      using Cons.prems by auto
  next
    case (Cons a v')
    then show ?thesis
      using Cons.IH [of v'] Cons.prems by (cases "s = []") auto
  qed
qed simp

definition upper :: "string \<Rightarrow> bool" where
  "upper s \<longleftrightarrow> (\<forall>c\<in>set s. 65 \<le> uchar c \<and> uchar c \<le> 90)"

lemma eq_at_upper:
  "mem \<noteq> [] \<Longrightarrow> verb_stop (hd mem) \<Longrightarrow> upper s \<Longrightarrow> s \<noteq> [] \<Longrightarrow>
    eq_at (v @ mem) (int (length v)) s = Some (v = s)"
  using eq_at_view [of mem "hd mem" "tl mem" s v] by (auto simp: verb_stop_def upper_def)

lemma upper_Cons: "upper (x # s) \<longleftrightarrow> 65 \<le> uchar x \<and> uchar x \<le> 90 \<and> upper s"
  by (auto simp: upper_def)

lemma upper_Nil: "upper []"
  by (simp add: upper_def)

lemmas upper_eval = upper_Cons upper_Nil uchar_def

lemma try_verbs_view:
  "mem \<noteq> [] \<Longrightarrow> verb_stop (hd mem) \<Longrightarrow> list_all (\<lambda>(s, r). upper s \<and> s \<noteq> []) xs \<Longrightarrow>
    try_verbs v mem xs = Some (case map_of xs v of Some r \<Rightarrow> r | None \<Rightarrow> V_unknown)"
  by (induction xs) (auto simp: eq_at_upper)

lemma verb_of_name:
  assumes "mem \<noteq> []" "verb_stop (hd mem)" "r \<noteq> V_unknown"
  shows "string_to_verb (verb_to_string r) mem = Some r"
  using assms(3)
  by (cases r) (simp_all add: string_to_verb_def try_verbs_view [OF assms(1,2)] eq_at_upper [OF assms(1,2)]
    upper_eval Let_def)

lemma name_of_verb:
  assumes "mem \<noteq> []" "verb_stop (hd mem)" and v: "string_to_verb v mem = Some r" "r \<noteq> V_unknown"
  shows "v = verb_to_string r"
proof -
  obtain c c1 w where w: "v = c # c1 # w" "w \<noteq> []"
    using v by (cases v; cases "tl v"; cases "tl (tl v)") (auto simp: string_to_verb_def)
  then have C: "\<And>x s. hd w = x \<Longrightarrow> tl w = s \<Longrightarrow> w = x # s"
    by auto
  show ?thesis
    using v unfolding w(1)
    by (auto simp: string_to_verb_def try_verbs_view [OF assms(1,2)] eq_at_upper [OF assms(1,2)] upper_eval Let_def w(2)
      simp del: length_tl try_verbs.simps dest: C split: if_splits)
qed

lemma verb_total:
  assumes "mem \<noteq> []" "verb_stop (hd mem)"
  shows "\<exists>r. string_to_verb v mem = Some r"
  unfolding string_to_verb_def Let_def
  by (simp add: try_verbs_view [OF assms(1,2)] eq_at_upper [OF assms(1,2)] upper_eval
    del: length_tl try_verbs.simps split: if_split)

lemma status_codes: "map fst status_names = known_status"
  by (simp add: status_names_def known_status_def)

lemma status_classes: "list_all (\<lambda>v. to_status_class v \<noteq> Class_unknown \<and> v \<noteq> 0) known_status"
  by (simp add: known_status_def to_status_class_def)

lemma status_phrases: "list_all (\<lambda>(v, s). s \<noteq> ''<unknown-status>'') status_names"
  by (simp add: status_names_def)

section \<open>Properties\<close>

text \<open>
  Followed by anything but an upper-case letter, as the space is that the request line
  has there, a method name is recognised exactly: the result is the verb whose text the view
  is, or unknown, and the hand-written comparison does not run out of the memory.
\<close>

theorem string_to_verb_exact:
  assumes "mem \<noteq> []" "verb_stop (hd mem)"
  shows "\<exists>r. string_to_verb s mem = Some r \<and> (\<forall>r'. r' \<noteq> V_unknown \<longrightarrow> (r = r' \<longleftrightarrow> s = verb_to_string r'))"
proof -
  obtain r where r: "string_to_verb s mem = Some r"
    using verb_total [OF assms] by blast
  moreover have "r = r' \<longleftrightarrow> s = verb_to_string r'" if "r' \<noteq> V_unknown" for r'
    using name_of_verb [OF assms r] verb_of_name [OF assms that] r that by (metis option.inject)
  ultimately show ?thesis
    by blast
qed

theorem string_to_verb_exact_witness:
  "\<exists>r. string_to_verb ''MKCOL'' '' /'' = Some r \<and> (\<forall>r'. r' \<noteq> V_unknown \<longrightarrow> (r = r' \<longleftrightarrow> ''MKCOL'' = verb_to_string r'))"
  by (rule string_to_verb_exact) (simp_all add: verb_stop_def uchar_def)

text \<open>
  The codes, the reason phrases and the classes of statuses agree: a code is known
  exactly when it has a phrase of its own, and every known code has a class.
\<close>

theorem status_tables:
  "(int_to_status v = v \<and> v \<noteq> 0 \<longleftrightarrow> v \<in> fst ` set status_names) \<and>
   (int_to_status v = 0 \<longleftrightarrow> status_to_string v = ''<unknown-status>'') \<and>
   int_to_status v = (if to_status_class v = Class_unknown then 0 else int_to_status v)"
proof -
  have known: "set known_status = fst ` set status_names"
    by (metis status_codes set_map)
  have "status_to_string v = ''<unknown-status>'' \<longleftrightarrow> v \<notin> set known_status"
  proof (cases "map_of status_names v")
    case (Some s)
    then have "(v, s) \<in> set status_names"
      by (rule map_of_SomeD)
    then have "s \<noteq> ''<unknown-status>''" "v \<in> set known_status"
      using status_phrases unfolding known by (auto simp: list_all_iff intro: rev_image_eqI)
    then show ?thesis
      using Some by (simp add: status_to_string_def)
  next
    case None
    then have "status_to_string v = ''<unknown-status>''"
      unfolding status_to_string_def by (simp only: option.case)
    then show ?thesis
      using None by (simp add: known map_of_eq_None_iff)
  qed
  moreover have "v \<in> set known_status \<Longrightarrow> to_status_class v \<noteq> Class_unknown \<and> v \<noteq> 0"
    using status_classes by (simp add: list_all_iff)
  ultimately show ?thesis
    by (auto simp: int_to_status_def known)
qed

end
