(* ===== verification/Http_Fields.thy ===== *)
theory Http_Fields
  imports Http_Names
begin

text \<open>
  The known header fields (\<open>beast/http/field.hpp\<close>, \<open>impl/field.ipp\<close>).  A
  \<open>field\<close> is its enumerator's value, the index of its name in the table.
\<close>

type_synonym field = nat

definition by_name :: "string list" where
  "by_name =
    [''<unknown-field>'', ''A-IM'', ''Accept'', ''Accept-Additions'', ''Accept-Charset'',
     ''Accept-Datetime'', ''Accept-Encoding'', ''Accept-Features'', ''Accept-Language'', ''Accept-Patch'',
     ''Accept-Post'', ''Accept-Ranges'', ''Access-Control'', ''Access-Control-Allow-Credentials'',
     ''Access-Control-Allow-Headers'', ''Access-Control-Allow-Methods'', ''Access-Control-Allow-Origin'',
     ''Access-Control-Expose-Headers'', ''Access-Control-Max-Age'', ''Access-Control-Request-Headers'',
     ''Access-Control-Request-Method'', ''Age'', ''Allow'', ''ALPN'', ''Also-Control'', ''Alt-Svc'',
     ''Alt-Used'', ''Alternate-Recipient'', ''Alternates'', ''Apparently-To'', ''Apply-To-Redirect-Ref'',
     ''Approved'', ''Archive'', ''Archived-At'', ''Article-Names'', ''Article-Updates'',
     ''Authentication-Control'', ''Authentication-Info'', ''Authentication-Results'', ''Authorization'',
     ''Auto-Submitted'', ''Autoforwarded'', ''Autosubmitted'', ''Base'', ''Bcc'', ''Body'', ''C-Ext'',
     ''C-Man'', ''C-Opt'', ''C-PEP'', ''C-PEP-Info'', ''Cache-Control'', ''CalDAV-Timezones'',
     ''Cancel-Key'', ''Cancel-Lock'', ''Cc'', ''Close'', ''Comments'', ''Compliance'', ''Connection'',
     ''Content-Alternative'', ''Content-Base'', ''Content-Description'', ''Content-Disposition'',
     ''Content-Duration'', ''Content-Encoding'', ''Content-features'', ''Content-ID'',
     ''Content-Identifier'', ''Content-Language'', ''Content-Length'', ''Content-Location'',
     ''Content-MD5'', ''Content-Range'', ''Content-Return'', ''Content-Script-Type'',
     ''Content-Style-Type'', ''Content-Transfer-Encoding'', ''Content-Type'', ''Content-Version'',
     ''Control'', ''Conversion'', ''Conversion-With-Loss'', ''Cookie'', ''Cookie2'', ''Cost'', ''DASL'',
     ''Date'', ''Date-Received'', ''DAV'', ''Default-Style'', ''Deferred-Delivery'', ''Delivery-Date'',
     ''Delta-Base'', ''Depth'', ''Derived-From'', ''Destination'', ''Differential-ID'', ''Digest'',
     ''Discarded-X400-IPMS-Extensions'', ''Discarded-X400-MTS-Extensions'', ''Disclose-Recipients'',
     ''Disposition-Notification-Options'', ''Disposition-Notification-To'', ''Distribution'',
     ''DKIM-Signature'', ''DL-Expansion-History'', ''Downgraded-Bcc'', ''Downgraded-Cc'',
     ''Downgraded-Disposition-Notification-To'', ''Downgraded-Final-Recipient'', ''Downgraded-From'',
     ''Downgraded-In-Reply-To'', ''Downgraded-Mail-From'', ''Downgraded-Message-Id'',
     ''Downgraded-Original-Recipient'', ''Downgraded-Rcpt-To'', ''Downgraded-References'',
     ''Downgraded-Reply-To'', ''Downgraded-Resent-Bcc'', ''Downgraded-Resent-Cc'',
     ''Downgraded-Resent-From'', ''Downgraded-Resent-Reply-To'', ''Downgraded-Resent-Sender'',
     ''Downgraded-Resent-To'', ''Downgraded-Return-Path'', ''Downgraded-Sender'', ''Downgraded-To'',
     ''EDIINT-Features'', ''Eesst-Version'', ''Encoding'', ''Encrypted'', ''Errors-To'', ''ETag'',
     ''Expect'', ''Expires'', ''Expiry-Date'', ''Ext'', ''Followup-To'', ''Forwarded'', ''From'',
     ''Generate-Delivery-Report'', ''GetProfile'', ''Hobareg'', ''Host'', ''HTTP2-Settings'', ''If'',
     ''If-Match'', ''If-Modified-Since'', ''If-None-Match'', ''If-Range'', ''If-Schedule-Tag-Match'',
     ''If-Unmodified-Since'', ''IM'', ''Importance'', ''In-Reply-To'', ''Incomplete-Copy'',
     ''Injection-Date'', ''Injection-Info'', ''Jabber-ID'', ''Keep-Alive'', ''Keywords'', ''Label'',
     ''Language'', ''Last-Modified'', ''Latest-Delivery-Time'', ''Lines'', ''Link'', ''List-Archive'',
     ''List-Help'', ''List-ID'', ''List-Owner'', ''List-Post'', ''List-Subscribe'', ''List-Unsubscribe'',
     ''List-Unsubscribe-Post'', ''Location'', ''Lock-Token'', ''Man'', ''Max-Forwards'',
     ''Memento-Datetime'', ''Message-Context'', ''Message-ID'', ''Message-Type'', ''Meter'',
     ''Method-Check'', ''Method-Check-Expires'', ''MIME-Version'', ''MMHS-Acp127-Message-Identifier'',
     ''MMHS-Authorizing-Users'', ''MMHS-Codress-Message-Indicator'', ''MMHS-Copy-Precedence'',
     ''MMHS-Exempted-Address'', ''MMHS-Extended-Authorisation-Info'', ''MMHS-Handling-Instructions'',
     ''MMHS-Message-Instructions'', ''MMHS-Message-Type'', ''MMHS-Originator-PLAD'',
     ''MMHS-Originator-Reference'', ''MMHS-Other-Recipients-Indicator-CC'',
     ''MMHS-Other-Recipients-Indicator-To'', ''MMHS-Primary-Precedence'',
     ''MMHS-Subject-Indicator-Codes'', ''MT-Priority'', ''Negotiate'', ''Newsgroups'',
     ''NNTP-Posting-Date'', ''NNTP-Posting-Host'', ''Non-Compliance'', ''Obsoletes'', ''Opt'',
     ''Optional'', ''Optional-WWW-Authenticate'', ''Ordering-Type'', ''Organization'', ''Origin'',
     ''Original-Encoded-Information-Types'', ''Original-From'', ''Original-Message-ID'',
     ''Original-Recipient'', ''Original-Sender'', ''Original-Subject'', ''Originator-Return-Address'',
     ''Overwrite'', ''P3P'', ''Path'', ''PEP'', ''Pep-Info'', ''PICS-Label'', ''Position'',
     ''Posting-Version'', ''Pragma'', ''Prefer'', ''Preference-Applied'', ''Prevent-NonDelivery-Report'',
     ''Priority'', ''Privicon'', ''ProfileObject'', ''Protocol'', ''Protocol-Info'', ''Protocol-Query'',
     ''Protocol-Request'', ''Proxy-Authenticate'', ''Proxy-Authentication-Info'', ''Proxy-Authorization'',
     ''Proxy-Connection'', ''Proxy-Features'', ''Proxy-Instruction'', ''Public'', ''Public-Key-Pins'',
     ''Public-Key-Pins-Report-Only'', ''Range'', ''Received'', ''Received-SPF'', ''Redirect-Ref'',
     ''References'', ''Referer'', ''Referer-Root'', ''Relay-Version'', ''Reply-By'', ''Reply-To'',
     ''Require-Recipient-Valid-Since'', ''Resent-Bcc'', ''Resent-Cc'', ''Resent-Date'', ''Resent-From'',
     ''Resent-Message-ID'', ''Resent-Reply-To'', ''Resent-Sender'', ''Resent-To'', ''Resolution-Hint'',
     ''Resolver-Location'', ''Retry-After'', ''Return-Path'', ''Safe'', ''Schedule-Reply'',
     ''Schedule-Tag'', ''Sec-WebSocket-Accept'', ''Sec-WebSocket-Extensions'', ''Sec-WebSocket-Key'',
     ''Sec-WebSocket-Protocol'', ''Sec-WebSocket-Version'', ''Security-Scheme'', ''See-Also'', ''Sender'',
     ''Sensitivity'', ''Server'', ''Set-Cookie'', ''Set-Cookie2'', ''SetProfile'', ''SIO-Label'',
     ''SIO-Label-History'', ''SLUG'', ''SoapAction'', ''Solicitation'', ''Status-URI'',
     ''Strict-Transport-Security'', ''Subject'', ''SubOK'', ''Subst'', ''Summary'', ''Supersedes'',
     ''Surrogate-Capability'', ''Surrogate-Control'', ''TCN'', ''TE'', ''Timeout'', ''Title'', ''To'',
     ''Topic'', ''Trailer'', ''Transfer-Encoding'', ''TTL'', ''UA-Color'', ''UA-Media'', ''UA-Pixels'',
     ''UA-Resolution'', ''UA-Windowpixels'', ''Upgrade'', ''Urgency'', ''URI'', ''User-Agent'',
     ''Variant-Vary'', ''Vary'', ''VBR-Info'', ''Version'', ''Via'', ''Want-Digest'', ''Warning'',
     ''WWW-Authenticate'', ''X-Archived-At'', ''X-Device-Accept'', ''X-Device-Accept-Charset'',
     ''X-Device-Accept-Encoding'', ''X-Device-Accept-Language'', ''X-Device-User-Agent'',
     ''X-Frame-Options'', ''X-Mittente'', ''X-PGP-Sig'', ''X-Ricevuta'', ''X-Riferimento-Message-ID'',
     ''X-TipoRicevuta'', ''X-Trasporto'', ''X-VerificaSicurezza'', ''X400-Content-Identifier'',
     ''X400-Content-Return'', ''X400-Content-Type'', ''X400-MTS-Identifier'', ''X400-Originator'',
     ''X400-Received'', ''X400-Recipients'', ''X400-Trace'', ''Xref'']"

text \<open>The enumerators that the parser and the handshake test for.\<close>

definition field_unknown :: field where "field_unknown = 0"
definition field_connection :: field where "field_connection = 59"
definition field_content_length :: field where "field_content_length = 70"
definition field_proxy_connection :: field where "field_proxy_connection = 245"
definition field_transfer_encoding :: field where "field_transfer_encoding = 311"
definition field_upgrade :: field where "field_upgrade = 318"
definition field_host :: field where "field_host = 144"
definition field_sec_websocket_accept :: field where "field_sec_websocket_accept = 277"
definition field_sec_websocket_extensions :: field where "field_sec_websocket_extensions = 278"
definition field_sec_websocket_key :: field where "field_sec_websocket_key = 279"
definition field_sec_websocket_protocol :: field where "field_sec_websocket_protocol = 280"
definition field_sec_websocket_version :: field where "field_sec_websocket_version = 281"
definition field_keep_alive :: field where "field_keep_alive = 160"
definition field_expect :: field where "field_expect = 134"

section \<open>The table\<close>

text \<open>Characters are signed in the arithmetic of the hash.\<close>

definition schar :: "char \<Rightarrow> int" where
  "schar c = (if uchar c < 128 then int (uchar c) else int (uchar c) - 256)"

definition field_hash :: "string \<Rightarrow> int" where
  "field_hash s =
     (let n = length s; l = \<lambda>i. schar (ascii_tolower (s ! i))
      in (l 0 * l (n div 2)) XOR l (n - 1))"

text \<open>
  The predicate of the hash maps, for views of the same length.  The first component is the
  result, the second whether it read the character after the views.
\<close>

fun field_iequal_slow :: "char \<Rightarrow> char \<Rightarrow> string \<Rightarrow> string \<Rightarrow> bool \<times> bool" where
  "field_iequal_slow a b p1 p2 =
     (if ascii_tolower a \<noteq> ascii_tolower b then (False, False)
      else case p1 of
        [] \<Rightarrow> (True, True)
      | a # p1 \<Rightarrow> if p1 = [] then (True, False) else field_iequal_slow a (hd p2) p1 (tl p2))"

declare field_iequal_slow.simps [simp del]

fun field_iequal :: "string \<Rightarrow> string \<Rightarrow> bool \<times> bool" where
  "field_iequal (a # p1) p2 =
     (if a \<noteq> hd p2 then field_iequal_slow a (hd p2) p1 (tl p2) else field_iequal p1 (tl p2))"
| "field_iequal [] p2 = (True, False)"

text \<open>
  \<open>by_size_[n]\<close> holds the names of length \<open>n\<close> but the unknown one's.  A hash map
  gives the key predicate only keys whose hash is the one looked up, as the standard's
  requirement on hash and predicate allows.
\<close>

definition by_size :: "nat \<Rightarrow> field list" where
  "by_size n = filter (\<lambda>i. length (by_name ! i) = n) [1..<length by_name]"

definition high :: nat where
  "high = fold max (map length by_name) 0"

definition map_find :: "field list \<Rightarrow> string \<Rightarrow> field option" where
  "map_find m s = find (\<lambda>i. field_hash (by_name ! i) = field_hash s \<and> fst (field_iequal s (by_name ! i))) m"

definition string_to_field :: "string \<Rightarrow> field" where
  "string_to_field s =
     (if length s \<ge> high + 1 then field_unknown
      else if by_size (length s) = [] then field_unknown
      else case map_find (by_size (length s)) s of Some i \<Rightarrow> i | None \<Rightarrow> field_unknown)"

definition field_to_string :: "field \<Rightarrow> string" where
  "field_to_string f = by_name ! f"

section \<open>Lemmas\<close>

lemma slow_butlast:
  "length p1 = length p2 \<Longrightarrow> fst (field_iequal_slow a b p1 p2) \<longleftrightarrow>
    ascii_tolower a = ascii_tolower b \<and> map ascii_tolower (butlast p1) = map ascii_tolower (butlast p2)"
proof (induction p1 arbitrary: a b p2)
  case (Cons x p1)
  then obtain y q where "p2 = y # q" "length p1 = length q"
    by (cases p2) auto
  then show ?case
    using Cons.IH [of q x y] by (subst field_iequal_slow.simps) auto
qed (simp add: field_iequal_slow.simps)

lemma iequal_sound:
  "length p1 = length p2 \<Longrightarrow> map ascii_tolower p1 = map ascii_tolower p2 \<Longrightarrow> fst (field_iequal p1 p2)"
proof (induction p1 arbitrary: p2)
  case (Cons x p1)
  then obtain y q where "p2 = y # q" "length p1 = length q"
    by (cases p2) auto
  then show ?case
    using Cons by (auto simp: slow_butlast map_butlast)
qed simp

lemma iequal_butlast:
  "length p1 = length p2 \<Longrightarrow> fst (field_iequal p1 p2) \<Longrightarrow>
    map ascii_tolower (butlast p1) = map ascii_tolower (butlast p2)"
proof (induction p1 arbitrary: p2)
  case (Cons x p1)
  then obtain y q where q: "p2 = y # q" "length p1 = length q"
    by (cases p2) auto
  then show ?case
    using Cons by (auto simp: slow_butlast split: if_splits)
qed simp

lemma schar_inj: "schar a = schar b \<longleftrightarrow> a = b"
  using uchar_less [of a] uchar_less [of b] by (auto simp: schar_def)

lemma xor_right_cancel: "(a :: int) XOR b = a XOR c \<longleftrightarrow> b = c"
  by (metis xor.assoc xor_self_eq xor.left_neutral)

text \<open>From three characters on the hash tells the last characters apart.\<close>

lemma iequal_hash_3:
  assumes len: "length p1 = length p2" "3 \<le> length p1"
    and eq: "fst (field_iequal p1 p2)" "field_hash p1 = field_hash p2"
  shows "map ascii_tolower p1 = map ascii_tolower p2"
proof -
  let ?n = "length p1"
  have b: "map ascii_tolower (butlast p1) = map ascii_tolower (butlast p2)"
    using iequal_butlast [OF len(1) eq(1)] .
  have nth: "ascii_tolower (p1 ! i) = ascii_tolower (p2 ! i)" if "i < ?n - 1" for i
  proof -
    have "map ascii_tolower (butlast p1) ! i = map ascii_tolower (butlast p2) ! i"
      using b by simp
    then show ?thesis
      using that len(1) by (simp add: nth_butlast)
  qed
  have "0 < ?n - 1" "?n div 2 < ?n - 1"
    using len(2) by auto
  then have "schar (ascii_tolower (p1 ! (?n - 1))) = schar (ascii_tolower (p2 ! (?n - 1)))"
    using eq(2) nth [of 0] nth [of "?n div 2"] len(1) by (simp add: field_hash_def Let_def xor_right_cancel)
  then have last: "ascii_tolower (p1 ! (?n - 1)) = ascii_tolower (p2 ! (?n - 1))"
    by (simp add: schar_inj)
  show ?thesis
  proof (rule nth_equalityI)
    fix i
    assume "i < length (map ascii_tolower p1)"
    then consider "i < ?n - 1" | "i = ?n - 1"
      by fastforce
    then show "map ascii_tolower p1 ! i = map ascii_tolower p2 ! i"
      using nth last len by cases auto
  qed (use len in simp)
qed

lemma filter_short:
  "filter (\<lambda>s. length s \<le> 2) ((a # b # c # s) # xs) = filter (\<lambda>s. length s \<le> 2) xs"
  "filter (\<lambda>s. length s \<le> 2) ([a, b] # xs) = [a, b] # filter (\<lambda>s. length s \<le> 2) xs"
  by simp_all

lemma by_name_short: "filter (\<lambda>s. length s \<le> 2) by_name = [''Cc'', ''If'', ''IM'', ''TE'', ''To'']"
  by (simp only: by_name_def filter_short filter.simps(1))

lemma length_by_name: "length by_name = 353"
  by (simp add: by_name_def)

lemma lower_codes:
  "uchar (ascii_tolower CHR ''-'') = 45" "uchar (ascii_tolower CHR ''0'') = 48"
  "uchar (ascii_tolower CHR ''1'') = 49" "uchar (ascii_tolower CHR ''2'') = 50"
  "uchar (ascii_tolower CHR ''3'') = 51" "uchar (ascii_tolower CHR ''4'') = 52"
  "uchar (ascii_tolower CHR ''5'') = 53" "uchar (ascii_tolower CHR ''7'') = 55"
  "uchar (ascii_tolower CHR ''<'') = 60" "uchar (ascii_tolower CHR ''>'') = 62"
  "uchar (ascii_tolower CHR ''A'') = 97" "uchar (ascii_tolower CHR ''B'') = 98"
  "uchar (ascii_tolower CHR ''C'') = 99" "uchar (ascii_tolower CHR ''D'') = 100"
  "uchar (ascii_tolower CHR ''E'') = 101" "uchar (ascii_tolower CHR ''F'') = 102"
  "uchar (ascii_tolower CHR ''G'') = 103" "uchar (ascii_tolower CHR ''H'') = 104"
  "uchar (ascii_tolower CHR ''I'') = 105" "uchar (ascii_tolower CHR ''J'') = 106"
  "uchar (ascii_tolower CHR ''K'') = 107" "uchar (ascii_tolower CHR ''L'') = 108"
  "uchar (ascii_tolower CHR ''M'') = 109" "uchar (ascii_tolower CHR ''N'') = 110"
  "uchar (ascii_tolower CHR ''O'') = 111" "uchar (ascii_tolower CHR ''P'') = 112"
  "uchar (ascii_tolower CHR ''Q'') = 113" "uchar (ascii_tolower CHR ''R'') = 114"
  "uchar (ascii_tolower CHR ''S'') = 115" "uchar (ascii_tolower CHR ''T'') = 116"
  "uchar (ascii_tolower CHR ''U'') = 117" "uchar (ascii_tolower CHR ''V'') = 118"
  "uchar (ascii_tolower CHR ''W'') = 119" "uchar (ascii_tolower CHR ''X'') = 120"
  "uchar (ascii_tolower CHR ''a'') = 97" "uchar (ascii_tolower CHR ''b'') = 98"
  "uchar (ascii_tolower CHR ''c'') = 99" "uchar (ascii_tolower CHR ''d'') = 100"
  "uchar (ascii_tolower CHR ''e'') = 101" "uchar (ascii_tolower CHR ''f'') = 102"
  "uchar (ascii_tolower CHR ''g'') = 103" "uchar (ascii_tolower CHR ''h'') = 104"
  "uchar (ascii_tolower CHR ''i'') = 105" "uchar (ascii_tolower CHR ''j'') = 106"
  "uchar (ascii_tolower CHR ''k'') = 107" "uchar (ascii_tolower CHR ''l'') = 108"
  "uchar (ascii_tolower CHR ''m'') = 109" "uchar (ascii_tolower CHR ''n'') = 110"
  "uchar (ascii_tolower CHR ''o'') = 111" "uchar (ascii_tolower CHR ''p'') = 112"
  "uchar (ascii_tolower CHR ''q'') = 113" "uchar (ascii_tolower CHR ''r'') = 114"
  "uchar (ascii_tolower CHR ''s'') = 115" "uchar (ascii_tolower CHR ''t'') = 116"
  "uchar (ascii_tolower CHR ''u'') = 117" "uchar (ascii_tolower CHR ''v'') = 118"
  "uchar (ascii_tolower CHR ''w'') = 119" "uchar (ascii_tolower CHR ''x'') = 120"
  "uchar (ascii_tolower CHR ''y'') = 121" "uchar (ascii_tolower CHR ''z'') = 122"
  by (simp_all add: ascii_tolower_eq uchar_def)

lemma by_name_sorted: "successively iless by_name"
  by (simp only: by_name_def successively.simps iless.simps lower_codes less_numeral_simps arith_simps rel_simps
    if_True if_False simp_thms)

lemma hash_2_codes:
  "list_all (\<lambda>t. (99 * t) XOR t = (99 * 99) XOR (99 :: int) \<longrightarrow> t = 99) [0..127]"
  "list_all (\<lambda>t. (105 * t) XOR t = (105 * 102) XOR (102 :: int) \<longrightarrow> t = 102) [0..127]"
  "list_all (\<lambda>t. (105 * t) XOR t = (105 * 109) XOR (109 :: int) \<longrightarrow> t = 109) [0..127]"
  "list_all (\<lambda>t. (116 * t) XOR t = (116 * 101) XOR (101 :: int) \<longrightarrow> t = 101) [0..127]"
  "list_all (\<lambda>t. (116 * t) XOR t = (116 * 111) XOR (111 :: int) \<longrightarrow> t = 111) [0..127]"
  by code_simp+

lemma hash_2:
  assumes "list_all (\<lambda>t. (m * t) XOR t = (m * k) XOR k \<longrightarrow> t = k) [0..127]"
    and "schar (ascii_tolower x) = m" "schar (ascii_tolower y) = k"
    and b: "uchar b < 128" and eq: "ascii_tolower a = ascii_tolower x" "field_hash [a, b] = field_hash [x, y]"
  shows "ascii_tolower b = ascii_tolower y"
proof -
  have "uchar (ascii_tolower b) < 128"
    using b by (simp add: ascii_tolower_eq)
  then have "schar (ascii_tolower b) \<in> set [0..127]"
    by (simp add: schar_def)
  moreover have "(m * schar (ascii_tolower b)) XOR schar (ascii_tolower b) = (m * k) XOR k"
    using eq assms(2,3) by (simp add: field_hash_def Let_def)
  ultimately have "schar (ascii_tolower b) = k"
    using assms(1) by (auto simp: list_all_iff)
  then show ?thesis
    using assms(3) by (simp add: schar_inj [symmetric])
qed

lemma schar_lower:
  "schar (ascii_tolower CHR ''C'') = 99" "schar (ascii_tolower CHR ''c'') = 99" "schar (ascii_tolower CHR ''I'') = 105"
  "schar (ascii_tolower CHR ''f'') = 102" "schar (ascii_tolower CHR ''M'') = 109" "schar (ascii_tolower CHR ''T'') = 116"
  "schar (ascii_tolower CHR ''E'') = 101" "schar (ascii_tolower CHR ''o'') = 111"
  by (simp_all add: schar_def lower_codes)

lemma iequal_hash_2:
  assumes "name \<in> {''Cc'', ''If'', ''IM'', ''TE'', ''To''}" "length s = 2" "\<forall>c\<in>set s. uchar c < 128"
    and eq: "fst (field_iequal s name)" "field_hash s = field_hash name"
  shows "map ascii_tolower s = map ascii_tolower name"
proof -
  obtain a b where s: "s = [a, b]" "uchar b < 128"
    using assms(2,3) by (auto simp: length_Suc_conv numeral_2_eq_2)
  obtain x y where n: "name = [x, y]"
    using assms(1) by auto
  have "map ascii_tolower (butlast s) = map ascii_tolower (butlast name)"
    by (rule iequal_butlast) (use s n eq in simp_all)
  then have a: "ascii_tolower a = ascii_tolower x"
    using s n by simp
  have "ascii_tolower b = ascii_tolower y"
    using assms(1) a eq(2) s(2) hash_2 [OF hash_2_codes(1), of x y b a] hash_2 [OF hash_2_codes(2), of x y b a]
      hash_2 [OF hash_2_codes(3), of x y b a] hash_2 [OF hash_2_codes(4), of x y b a] hash_2 [OF hash_2_codes(5), of x y b a]
    unfolding s(1) n by (auto simp: schar_lower)
  then show ?thesis
    using a s n by simp
qed

lemma names_short:
  assumes "f < length by_name" "length (by_name ! f) \<le> 2"
  shows "by_name ! f \<in> {''Cc'', ''If'', ''IM'', ''TE'', ''To''}"
proof -
  have "by_name ! f \<in> set (filter (\<lambda>s. length s \<le> 2) by_name)"
    using assms by simp
  then show ?thesis
    unfolding by_name_short by simp
qed

text \<open>On ASCII keys the maps find exactly the names equal up to case.\<close>

lemma key_matches:
  assumes f: "f < length by_name" and len: "length s = length (by_name ! f)" and ascii: "\<forall>c\<in>set s. uchar c < 128"
  shows "field_hash (by_name ! f) = field_hash s \<and> fst (field_iequal s (by_name ! f)) \<longleftrightarrow>
    iequals (by_name ! f) s"
proof
  assume m: "field_hash (by_name ! f) = field_hash s \<and> fst (field_iequal s (by_name ! f))"
  have "map ascii_tolower s = map ascii_tolower (by_name ! f)"
  proof (cases "3 \<le> length s")
    case True
    then show ?thesis
      using iequal_hash_3 [OF len] m by simp
  next
    case False
    then have "by_name ! f \<in> {''Cc'', ''If'', ''IM'', ''TE'', ''To''}"
      using names_short [OF f] len by simp
    moreover from this have "length s = 2"
      using len by auto
    ultimately show ?thesis
      using iequal_hash_2 [of "by_name ! f" s] ascii m by simp
  qed
  then show "iequals (by_name ! f) s"
    by (simp add: iequals_iff)
next
  assume "iequals (by_name ! f) s"
  then have l: "map ascii_tolower s = map ascii_tolower (by_name ! f)"
    by (simp add: iequals_iff)
  then have nth: "ascii_tolower (s ! i) = ascii_tolower (by_name ! f ! i)" if "i < length s" for i
    using that len by (metis nth_map)
  have "field_hash (by_name ! f) = field_hash s"
  proof (cases "s = []")
    case False
    then have "0 < length s" "length s div 2 < length s" "length s - 1 < length s"
      by auto
    from this [THEN nth] show ?thesis
      unfolding field_hash_def Let_def len by simp
  qed (use len in simp)
  then show "field_hash (by_name ! f) = field_hash s \<and> fst (field_iequal s (by_name ! f))"
    using iequal_sound [OF len l] by simp
qed

lemma names_distinct:
  assumes "f < length by_name" "g < length by_name" "iequals (by_name ! f) (by_name ! g)"
  shows "f = g"
proof -
  have "sorted_wrt iless by_name"
    using by_name_sorted successively_conv_sorted_wrt [of iless by_name]
    by (auto simp: transp_def intro: iless_trans)
  then have "f < g \<Longrightarrow> iless (by_name ! f) (by_name ! g)" "g < f \<Longrightarrow> iless (by_name ! g) (by_name ! f)"
    using assms(1,2) sorted_wrt_nth_less by blast+
  then show ?thesis
    using assms(3) iless_equiv [of "by_name ! f" "by_name ! g"] by (metis linorder_neqE_nat)
qed

lemma fold_max: "x \<in> set xs \<or> x \<le> m \<Longrightarrow> x \<le> fold max xs (m :: nat)"
proof (induction xs arbitrary: m)
  case (Cons y ys)
  from Cons.prems have "x \<in> set ys \<or> x \<le> max y m"
    by (simp add: le_max_iff_disj) blast
  from Cons.IH [OF this] show ?case
    by simp
qed simp

lemma high_bound: "f < length by_name \<Longrightarrow> length (by_name ! f) \<le> high"
  unfolding high_def by (rule fold_max) auto

lemma by_size_iff: "f \<in> set (by_size n) \<longleftrightarrow> 1 \<le> f \<and> f < length by_name \<and> length (by_name ! f) = n"
  by (auto simp: by_size_def)

lemma string_to_field_find:
  "string_to_field s = (case map_find (by_size (length s)) s of Some i \<Rightarrow> i | None \<Rightarrow> field_unknown)"
proof -
  have "by_size (length s) = []" if "high + 1 \<le> length s"
  proof -
    have "f \<notin> set (by_size (length s))" for f
      using that high_bound [of f] by (auto simp: by_size_iff)
    then show ?thesis
      by (metis list.set_intros(1) neq_Nil_conv)
  qed
  then show ?thesis
    by (auto simp: string_to_field_def map_find_def)
qed

lemma map_find_Some:
  "map_find m s = Some g \<Longrightarrow>
    g \<in> set m \<and> field_hash (by_name ! g) = field_hash s \<and> fst (field_iequal s (by_name ! g))"
  unfolding map_find_def by (auto simp: find_Some_iff)

lemma map_find_None:
  "map_find m s = None \<Longrightarrow> g \<in> set m \<Longrightarrow>
    \<not> (field_hash (by_name ! g) = field_hash s \<and> fst (field_iequal s (by_name ! g)))"
  unfolding map_find_def find_None_iff by blast

lemma string_to_field_iff:
  assumes ascii: "\<forall>c\<in>set s. uchar c < 128" and f: "1 \<le> f" "f < length by_name"
  shows "string_to_field s = f \<longleftrightarrow> iequals (by_name ! f) s"
proof -
  have key: "field_hash (by_name ! g) = field_hash s \<and> fst (field_iequal s (by_name ! g)) \<longleftrightarrow> iequals (by_name ! g) s"
    if "g \<in> set (by_size (length s))" for g
    using key_matches [of g s] that ascii by (simp add: by_size_iff)
  show ?thesis
  proof (cases "map_find (by_size (length s)) s")
    case None
    have "\<not> iequals (by_name ! f) s"
    proof
      assume e: "iequals (by_name ! f) s"
      then have "f \<in> set (by_size (length s))"
        using f iequals_length [OF e] by (simp add: by_size_iff)
      then show False
        using map_find_None [OF None, of f] key [of f] e by blast
    qed
    then show ?thesis
      using None f(1) by (simp add: string_to_field_find field_unknown_def)
  next
    case (Some g)
    then have g: "g \<in> set (by_size (length s))"
        "field_hash (by_name ! g) = field_hash s \<and> fst (field_iequal s (by_name ! g))"
      using map_find_Some [OF Some] by blast+
    note g = g(1) g(2) [unfolded key [OF g(1)]]
    have "string_to_field s = g"
      using Some by (simp add: string_to_field_find)
    moreover have "g = f" if "iequals (by_name ! f) s"
      using names_distinct [of g f] g f that by (metis by_size_iff iequals_sym iequals_trans)
    ultimately show ?thesis
      using g by auto
  qed
qed

lemma field_constants:
  "by_name ! field_connection = ''Connection''" "by_name ! field_content_length = ''Content-Length''"
  "by_name ! field_proxy_connection = ''Proxy-Connection''" "by_name ! field_transfer_encoding = ''Transfer-Encoding''"
  "by_name ! field_upgrade = ''Upgrade''"
  by code_simp+

lemma ascii_codes:
  "(uchar CHR ''-'' < 128) = True" "(uchar CHR ''0'' < 128) = True" "(uchar CHR ''1'' < 128) = True"
  "(uchar CHR ''2'' < 128) = True" "(uchar CHR ''3'' < 128) = True" "(uchar CHR ''4'' < 128) = True"
  "(uchar CHR ''5'' < 128) = True" "(uchar CHR ''7'' < 128) = True" "(uchar CHR ''<'' < 128) = True"
  "(uchar CHR ''>'' < 128) = True" "(uchar CHR ''A'' < 128) = True" "(uchar CHR ''B'' < 128) = True"
  "(uchar CHR ''C'' < 128) = True" "(uchar CHR ''D'' < 128) = True" "(uchar CHR ''E'' < 128) = True"
  "(uchar CHR ''F'' < 128) = True" "(uchar CHR ''G'' < 128) = True" "(uchar CHR ''H'' < 128) = True"
  "(uchar CHR ''I'' < 128) = True" "(uchar CHR ''J'' < 128) = True" "(uchar CHR ''K'' < 128) = True"
  "(uchar CHR ''L'' < 128) = True" "(uchar CHR ''M'' < 128) = True" "(uchar CHR ''N'' < 128) = True"
  "(uchar CHR ''O'' < 128) = True" "(uchar CHR ''P'' < 128) = True" "(uchar CHR ''Q'' < 128) = True"
  "(uchar CHR ''R'' < 128) = True" "(uchar CHR ''S'' < 128) = True" "(uchar CHR ''T'' < 128) = True"
  "(uchar CHR ''U'' < 128) = True" "(uchar CHR ''V'' < 128) = True" "(uchar CHR ''W'' < 128) = True"
  "(uchar CHR ''X'' < 128) = True" "(uchar CHR ''a'' < 128) = True" "(uchar CHR ''b'' < 128) = True"
  "(uchar CHR ''c'' < 128) = True" "(uchar CHR ''d'' < 128) = True" "(uchar CHR ''e'' < 128) = True"
  "(uchar CHR ''f'' < 128) = True" "(uchar CHR ''g'' < 128) = True" "(uchar CHR ''h'' < 128) = True"
  "(uchar CHR ''i'' < 128) = True" "(uchar CHR ''j'' < 128) = True" "(uchar CHR ''k'' < 128) = True"
  "(uchar CHR ''l'' < 128) = True" "(uchar CHR ''m'' < 128) = True" "(uchar CHR ''n'' < 128) = True"
  "(uchar CHR ''o'' < 128) = True" "(uchar CHR ''p'' < 128) = True" "(uchar CHR ''q'' < 128) = True"
  "(uchar CHR ''r'' < 128) = True" "(uchar CHR ''s'' < 128) = True" "(uchar CHR ''t'' < 128) = True"
  "(uchar CHR ''u'' < 128) = True" "(uchar CHR ''v'' < 128) = True" "(uchar CHR ''w'' < 128) = True"
  "(uchar CHR ''x'' < 128) = True" "(uchar CHR ''y'' < 128) = True" "(uchar CHR ''z'' < 128) = True"
  by (simp_all add: uchar_def)

lemma by_name_ascii: "list_all (list_all (\<lambda>c. uchar c < 128)) by_name"
  by (simp only: by_name_def list.pred_inject ascii_codes simp_thms)

section \<open>Properties\<close>

text \<open>
  On ASCII keys, as every field name of a parsed message is, the lookup by length, hash
  and key predicate finds a known field exactly when the key is its name up to case, and the
  names are distinct up to case.
\<close>

theorem string_to_field_correct:
  assumes "\<forall>c\<in>set s. uchar c < 128" "1 \<le> f" "f < 353"
  shows "(string_to_field s = f \<longleftrightarrow> iequals (field_to_string f) s) \<and>
    string_to_field (field_to_string f) = f"
proof -
  have f: "f < length by_name"
    using assms(3) by (simp add: length_by_name)
  then have "\<forall>c\<in>set (by_name ! f). uchar c < 128"
    using by_name_ascii by (auto simp: list_all_iff)
  then show ?thesis
    using string_to_field_iff [of s, OF assms(1,2) f] string_to_field_iff [of "by_name ! f", OF _ assms(2) f]
    by (simp add: field_to_string_def)
qed

theorem string_to_field_correct_witness:
  "string_to_field ''content-LENGTH'' = 70 \<longleftrightarrow> iequals (field_to_string 70) ''content-LENGTH''"
  using string_to_field_correct [of "''content-LENGTH''" 70] by (simp add: uchar_def)

text \<open>
  The key predicate of the maps is not an equality: after a difference of case it does not
  compare the last character.  The hash hides this for ASCII keys, but not for all: a key of two
  characters, the second not ASCII, is found as the field \<open>If\<close>.
\<close>

theorem field_iequal_last:
  "fst (field_iequal ''hosX'' ''Host'') \<and> string_to_field [CHR ''i'', CHR 0x9A] = 146 \<and>
   field_to_string 146 = ''If''"
proof -
  let ?s = "[CHR ''i'', CHR 0x9A]"
  let ?P = "\<lambda>n. field_hash n = field_hash ?s \<and> fst (field_iequal ?s n)"
  have P: "?P ''If''" "\<not> ?P ''Cc''" "\<not> ?P ''IM''" "\<not> ?P ''TE''" "\<not> ?P ''To''"
    by (simp_all add: field_hash_def Let_def field_iequal_slow.simps ascii_tolower_eq schar_def uchar_def char_of_def bit_Suc_0_iff)
  have name: "by_name ! 146 = ''If''"
    by code_simp
  then have "146 \<in> set (by_size 2)"
    by (simp add: by_size_iff length_by_name)
  then obtain g where m: "map_find (by_size 2) ?s = Some g"
    using map_find_None [of "by_size 2" ?s 146] P(1) unfolding name by (metis option.exhaust)
  then have g: "map_find (by_size 2) ?s = Some g" "g \<in> set (by_size 2)" "?P (by_name ! g)"
    using map_find_Some [OF m] by blast+
  then have "by_name ! g \<in> {''Cc'', ''If'', ''IM'', ''TE'', ''To''}"
    using names_short [of g] by (simp add: by_size_iff)
  then have "by_name ! g = ''If''"
    using g(3) P by (metis insertE singletonD)
  then have "g = 146"
    using names_distinct [of g 146] g(2) name by (simp add: by_size_iff length_by_name)
  moreover have "fst (field_iequal ''hosX'' ''Host'')"
    by code_simp
  ultimately show ?thesis
    using g(1) name by (simp add: string_to_field_find field_to_string_def numeral_2_eq_2)
qed

end
