(* ===== verification/Rfc7230.thy ===== *)
theory Rfc7230
  imports Http_Chars
begin

text \<open>
  The list parsers of \<open>beast/http/rfc7230.hpp\<close>, with \<open>detail/rfc7230.hpp\<close>,
  \<open>detail/basic_parsed_list.hpp\<close> and \<open>impl/rfc7230.ipp\<close>.  An iterator into
  a view is the rest of the view from there on, so \<open>it == last\<close> is \<open>it = []\<close> and two
  iterators into one view are equal when the rests are.
\<close>

section \<open>Skipping\<close>

abbreviation is_ows :: "char \<Rightarrow> bool" where
  "is_ows c \<equiv> c = CHR '' '' \<or> c = CHR 0x09"

fun skip_ows :: "string \<Rightarrow> string" where
  "skip_ows [] = []"
| "skip_ows (c # s) = (if \<not> is_ows c then c # s else skip_ows s)"

function skip_ows_rev :: "string \<Rightarrow> string" where
  "skip_ows_rev s = (if s = [] then [] else if \<not> is_ows (last s) then s else skip_ows_rev (butlast s))"
  by auto
termination by (relation "measure length") auto

declare skip_ows_rev.simps [simp del]

fun skip_token :: "string \<Rightarrow> string" where
  "skip_token [] = []"
| "skip_token (c # s) = (if is_token_char c then skip_token s else c # s)"

definition trim :: "string \<Rightarrow> string" where
  "trim s = skip_ows_rev (skip_ows s)"

text \<open>The view from the iterator \<open>p\<close> up to \<open>it\<close>, a later iterator into the same view.\<close>

definition upto_iter :: "string \<Rightarrow> string \<Rightarrow> string" where
  "upto_iter p it = take (length p - length it) p"

lemma length_skip_ows: "length (skip_ows s) \<le> length s"
  by (induction s) auto

lemma length_skip_token: "length (skip_token s) \<le> length s"
  by (induction s) auto

section \<open>Parameters\<close>

record param_iter =
  pi_it :: string
  pi_first :: string
  pi_name :: string
  pi_value :: string

text \<open>The loop over a quoted string, from after its opening quote to after the closing one.\<close>

fun quoted_end :: "string \<Rightarrow> string option" where
  "quoted_end [] = None"
| "quoted_end (c # s) =
     (if c = CHR 0x22 then Some s
      else if is_qdchar c then quoted_end s
      else if c \<noteq> CHR 0x5C then None
      else case s of [] \<Rightarrow> None | d # s' \<Rightarrow> if \<not> is_qpchar d then None else quoted_end s')"

definition param_increment :: "param_iter \<Rightarrow> param_iter" where
  "param_increment pi =
     (let first = skip_ows (pi_it pi);
          result = \<lambda>it n v. \<lparr>pi_it = it, pi_first = first, pi_name = n, pi_value = v\<rparr>;
          err = \<lambda>n. result first n [];
          it = first in
      if it = [] then err []
      else if hd it \<noteq> CHR '';'' then err []
      else let it = skip_ows (tl it) in
        if it = [] then err []
        else if \<not> is_token_char (hd it) then err []
        else let p0 = it; it = skip_token (tl it); n = upto_iter p0 it; it = skip_ows it in
          if it = [] then result it n []
          else if hd it = CHR '';'' then result it n []
          else if hd it \<noteq> CHR ''='' then err n
          else let it = skip_ows (tl it) in
            if it = [] then result it n []
            else let p2 = it in
              if hd it = CHR 0x22 then
                (case quoted_end (tl it) of
                   None \<Rightarrow> err n
                 | Some it \<Rightarrow> result it n (upto_iter p2 it))
              else if \<not> is_token_char (hd it) then err n
              else let it = skip_token (tl it) in result it n (upto_iter p2 it))"

definition param_empty :: "param_iter \<Rightarrow> bool" where
  "param_empty pi \<longleftrightarrow> pi_first pi = pi_it pi"

text \<open>\<open>unquote\<close>: \<open>None\<close> is a read past the end, after a trailing backslash.\<close>

fun unquote_loop :: "string \<Rightarrow> string option" where
  "unquote_loop [] = Some []"
| "unquote_loop (c # s) =
     (if c = CHR 0x5C
      then case s of [] \<Rightarrow> None | d # s' \<Rightarrow> map_option (Cons d) (unquote_loop s')
      else map_option (Cons c) (unquote_loop s))"

definition unquote :: "string \<Rightarrow> string option" where
  "unquote sr = unquote_loop (butlast (tl sr))"

text \<open>
  \<open>param_list::const_iterator::increment\<close>, and the pairs a loop over a
  \<open>param_list\<close> visits.
\<close>

definition param_list_increment :: "param_iter \<Rightarrow> param_iter option" where
  "param_list_increment pi =
     (let pi = param_increment pi in
      if param_empty pi then Some (pi\<lparr>pi_it := [], pi_first := []\<rparr>)
      else if pi_value pi \<noteq> [] \<and> hd (pi_value pi) = CHR 0x22
        then map_option (\<lambda>v. pi\<lparr>pi_value := v\<rparr>) (unquote (pi_value pi))
      else Some pi)"

lemma upto_iter_append: "upto_iter (a @ b) b = a"
  by (simp add: upto_iter_def)

lemma quoted_end_shorter: "quoted_end s = Some r \<Longrightarrow> length r < length s"
  by (induction s arbitrary: r rule: quoted_end.induct) (fastforce split: if_splits list.splits)+

lemma param_increment_first: "pi_first (param_increment pi) = skip_ows (pi_it pi)"
  by (simp add: param_increment_def Let_def split: option.split)

lemma param_increment_it:
  "pi_it (param_increment pi) = skip_ows (pi_it pi) \<or>
    length (pi_it (param_increment pi)) < length (skip_ows (pi_it pi))"
proof -
  define a where "a = skip_ows (pi_it pi)"
  define b where "b = skip_ows (tl a)"
  define c where "c = skip_token (tl b)"
  define d where "d = skip_ows c"
  define e where "e = skip_ows (tl d)"
  define f where "f = skip_token (tl e)"
  have "length b \<le> length a - 1" "length c \<le> length b - 1" "length d \<le> length c" "length e \<le> length d - 1"
      "length f \<le> length e - 1"
    using length_skip_ows [of "tl a"] length_skip_token [of "tl b"] length_skip_ows [of c] length_skip_ows [of "tl d"]
      length_skip_token [of "tl e"] by (simp_all add: b_def c_def d_def e_def f_def)
  moreover have "length g < length e" if "quoted_end (tl e) = Some g" for g
    using quoted_end_shorter [OF that] by simp
  ultimately have lt: "a \<noteq> [] \<Longrightarrow> length d < length a" "a \<noteq> [] \<Longrightarrow> length e < length a"
      "a \<noteq> [] \<Longrightarrow> length f < length a" "a \<noteq> [] \<Longrightarrow> quoted_end (tl e) = Some g \<Longrightarrow> length g < length a" for g
    by (cases a; fastforce)+
  show ?thesis
    unfolding param_increment_def Let_def a_def [symmetric] b_def [symmetric] c_def [symmetric] d_def [symmetric]
      e_def [symmetric] f_def [symmetric]
    using lt by (simp split: option.split)
qed

lemma param_increment_shrinks:
  assumes "\<not> param_empty (param_increment pi)"
  shows "length (pi_it (param_increment pi)) < length (pi_it pi)"
  using assms param_increment_it [of pi] length_skip_ows [of "pi_it pi"]
  by (auto simp: param_empty_def param_increment_first)

lemma param_increment_le: "length (pi_it (param_increment pi)) \<le> length (pi_it pi)"
  using param_increment_it [of pi] length_skip_ows [of "pi_it pi"] by auto

lemma param_list_increment_shrinks:
  assumes "param_list_increment pi = Some pi'" "\<not> (pi_it pi' = [] \<and> pi_first pi' = [])"
  shows "length (pi_it pi') < length (pi_it pi)"
proof -
  have "\<not> param_empty (param_increment pi)"
    using assms by (auto simp: param_list_increment_def Let_def)
  moreover have "pi_it pi' = pi_it (param_increment pi)"
    using assms by (auto simp: param_list_increment_def Let_def split: if_splits)
  ultimately show ?thesis
    using param_increment_shrinks by simp
qed

text \<open>\<open>None\<close> is a read past the end in \<open>unquote\<close>.\<close>

function params_from :: "param_iter \<Rightarrow> (string \<times> string) list option" where
  "params_from pi =
     (case param_list_increment pi of
        None \<Rightarrow> None
      | Some pi' \<Rightarrow>
          if pi_it pi' = [] \<and> pi_first pi' = [] then Some []
          else map_option (Cons (pi_name pi', pi_value pi')) (params_from pi'))"
  by auto
termination by (relation "measure (length \<circ> pi_it)") (auto dest: param_list_increment_shrinks)

declare params_from.simps [simp del]

definition params :: "string \<Rightarrow> (string \<times> string) list option" where
  "params s = params_from \<lparr>pi_it = s, pi_first = s, pi_name = [], pi_value = []\<rparr>"

section \<open>Comma-separated lists\<close>

text \<open>
  The loop at the head of the three list parsers: up to the next token, to the end, or to
  something that is neither a token nor a comma.
\<close>

datatype scan = Scan_end | Scan_error | Scan_token string

lemma hd_skip_ows: "skip_ows s = c # r \<Longrightarrow> length r < length s"
  using length_skip_ows [of s] by simp

function next_element :: "bool \<Rightarrow> string \<Rightarrow> scan" where
  "next_element need_comma s =
     (case skip_ows s of
        [] \<Rightarrow> Scan_end
      | c # r \<Rightarrow>
          if is_token_char c then (if need_comma then Scan_error else Scan_token (c # r))
          else if c \<noteq> CHR '','' then Scan_error
          else next_element False r)"
  by auto
termination by (relation "measure (length \<circ> snd)") (auto dest: hd_skip_ows)

declare next_element.simps [simp del]

lemma next_element_eqs:
  "skip_ows s = [] \<Longrightarrow> next_element nc s = Scan_end"
  "skip_ows s = c # r \<Longrightarrow> is_token_char c \<Longrightarrow> next_element nc s = (if nc then Scan_error else Scan_token (c # r))"
  "skip_ows s = CHR '','' # r \<Longrightarrow> next_element nc s = next_element False r"
  "skip_ows s = c # r \<Longrightarrow> \<not> is_token_char c \<Longrightarrow> c \<noteq> CHR '','' \<Longrightarrow> next_element nc s = Scan_error"
  using token_not_special(5) by (subst next_element.simps; auto)+

lemma skip_ows_cases:
  obtains "skip_ows s = []" | c r where "skip_ows s = c # r" "is_token_char c"
  | r where "skip_ows s = CHR '','' # r" | c r where "skip_ows s = c # r" "\<not> is_token_char c" "c \<noteq> CHR '',''"
  by (cases "skip_ows s") auto

lemma next_element_token:
  "next_element nc s = Scan_token p \<Longrightarrow> p \<noteq> [] \<and> is_token_char (hd p) \<and> length p \<le> length s"
proof (induction "length s" arbitrary: s nc rule: less_induct)
  case less
  show ?case
  proof (cases s rule: skip_ows_cases)
    case (2 c r)
    then have "p = c # r"
      using less.prems by (simp add: next_element_eqs split: if_splits)
    then show ?thesis
      using 2 hd_skip_ows [OF 2(1)] by simp
  next
    case (3 r)
    then show ?thesis
      using less.prems less.hyps [of r False] hd_skip_ows [OF 3] by (simp add: next_element_eqs)
  qed (use less.prems in \<open>simp_all add: next_element_eqs\<close>)
qed

text \<open>\<open>opt_token_list_policy\<close>: the result, the token, and the iterator, \<open>None\<close> when null.\<close>

definition opt_token_policy :: "string \<Rightarrow> string \<Rightarrow> bool \<times> string \<times> string option" where
  "opt_token_policy it s =
     (case next_element (it \<noteq> s) it of
        Scan_end \<Rightarrow> (True, [], None)
      | Scan_error \<Rightarrow> (False, [], Some it)
      | Scan_token p \<Rightarrow> let r = skip_token (tl p) in (True, upto_iter p r, Some r))"

text \<open>
  Iterating over a \<open>basic_parsed_list\<close>: the elements and whether an iterator had an
  error; an error also ends the iteration.
\<close>

lemma next_element_shrinks:
  "next_element nc s = Scan_token p \<Longrightarrow> length (skip_token (tl p)) < length s"
  using next_element_token [of nc s p] length_skip_token [of "tl p"] by (cases p) auto

lemma opt_token_policy_shrinks:
  "opt_token_policy it s = (True, v, Some it') \<Longrightarrow> length it' < length it"
  by (auto simp: opt_token_policy_def Let_def next_element_shrinks split: scan.splits)

function opt_tokens_from :: "string \<Rightarrow> string \<Rightarrow> string list \<times> bool" where
  "opt_tokens_from s it =
     (case opt_token_policy it s of
        (False, _, _) \<Rightarrow> ([], True)
      | (True, v, None) \<Rightarrow> ([], False)
      | (True, v, Some it') \<Rightarrow> (case opt_tokens_from s it' of (vs, e) \<Rightarrow> (v # vs, e)))"
  by auto
termination by (relation "measure (length \<circ> snd)") (auto dest: opt_token_policy_shrinks [OF sym])

declare opt_tokens_from.simps [simp del]

definition opt_tokens :: "string \<Rightarrow> string list" where
  "opt_tokens s = fst (opt_tokens_from s s)"

definition validate_list :: "string \<Rightarrow> bool" where
  "validate_list s \<longleftrightarrow> \<not> snd (opt_tokens_from s s)"

text \<open>\<open>token_list\<close>: after an error the iterator is at the end.\<close>

definition token_increment :: "string \<Rightarrow> string \<Rightarrow> (string \<times> string) option" where
  "token_increment first it =
     (case next_element (it \<noteq> first) it of
        Scan_token p \<Rightarrow> let r = skip_token (tl p) in Some (upto_iter p r, r)
      | _ \<Rightarrow> None)"

lemma token_increment_shrinks: "token_increment first it = Some (v, r) \<Longrightarrow> length r < length it"
  by (auto simp: token_increment_def Let_def next_element_shrinks split: scan.splits)

function tokens_from :: "string \<Rightarrow> string \<Rightarrow> string list" where
  "tokens_from first it =
     (case token_increment first it of
        None \<Rightarrow> []
      | Some (v, r) \<Rightarrow> v # tokens_from it r)"
  by auto
termination by (relation "measure (length \<circ> snd)") (auto dest: token_increment_shrinks)

declare tokens_from.simps [simp del]

definition tokens :: "string \<Rightarrow> string list" where
  "tokens s = tokens_from s s"

definition token_exists :: "string \<Rightarrow> string \<Rightarrow> bool" where
  "token_exists s list \<longleftrightarrow> (\<exists>v\<in>set (tokens list). iequals s v)"

text \<open>\<open>ext_list\<close>: a token and the view of its parameters, found by the parameter iterator.\<close>

function param_end :: "param_iter \<Rightarrow> param_iter" where
  "param_end pi = (let pi = param_increment pi in if param_empty pi then pi else param_end pi)"
  by auto
termination by (relation "measure (length \<circ> pi_it)") (auto simp: param_increment_shrinks)

declare param_end.simps [simp del]

definition ext_increment :: "string \<Rightarrow> string \<Rightarrow> ((string \<times> string) \<times> string) option" where
  "ext_increment first it =
     (case next_element (it \<noteq> first) it of
        Scan_token p \<Rightarrow>
          let r = skip_token (tl p);
              e = pi_it (param_end \<lparr>pi_it = r, pi_first = r, pi_name = [], pi_value = []\<rparr>)
          in Some ((upto_iter p r, upto_iter r e), e)
      | _ \<Rightarrow> None)"

lemma param_end_le: "length (pi_it (param_end pi)) \<le> length (pi_it pi)"
proof (induction pi rule: param_end.induct)
  case (1 pi)
  then show ?case
    using param_increment_le [of pi] by (subst param_end.simps) (auto simp: Let_def)
qed

lemma ext_increment_shrinks: "ext_increment first it = Some (v, r) \<Longrightarrow> length r < length it"
  using param_end_le next_element_shrinks
  by (fastforce simp: ext_increment_def Let_def split: scan.splits intro: le_less_trans)

function exts_from :: "string \<Rightarrow> string \<Rightarrow> (string \<times> string) list" where
  "exts_from first it =
     (case ext_increment first it of
        None \<Rightarrow> []
      | Some (v, r) \<Rightarrow> v # exts_from it r)"
  by auto
termination by (relation "measure (length \<circ> snd)") (auto dest: ext_increment_shrinks)

declare exts_from.simps [simp del]

definition exts :: "string \<Rightarrow> (string \<times> string) list" where
  "exts s = exts_from s s"

section \<open>Lists by their commas\<close>

text \<open>
  The specification of the list parsers: the text between the commas, each piece blanks, then
  token characters (perhaps none), then blanks.
\<close>

fun pieces :: "string \<Rightarrow> string list" where
  "pieces [] = [[]]"
| "pieces (c # s) = (if c = CHR '','' then [] # pieces s else (c # hd (pieces s)) # tl (pieces s))"

definition piece_token :: "string \<Rightarrow> string" where
  "piece_token p = takeWhile is_token_char (dropWhile is_ows p)"

definition piece_rest :: "string \<Rightarrow> string" where
  "piece_rest p = dropWhile is_token_char (dropWhile is_ows p)"

definition piece_ok :: "string \<Rightarrow> bool" where
  "piece_ok p \<longleftrightarrow> list_all is_ows (piece_rest p)"

lemma skip_ows_dropWhile: "skip_ows s = dropWhile is_ows s"
  by (induction s) auto

lemma skip_token_dropWhile: "skip_token s = dropWhile is_token_char s"
  by (induction s) auto

lemma upto_skip_token: "is_token_char c \<Longrightarrow> upto_iter (c # s) (skip_token s) = takeWhile is_token_char (c # s)"
  using upto_iter_append [of "takeWhile is_token_char (c # s)" "dropWhile is_token_char (c # s)"]
  by (simp add: skip_token_dropWhile)

lemma pieces_split:
  obtains p where "CHR '','' \<notin> set p" "s = p" "pieces s = [p]"
  | p s' where "CHR '','' \<notin> set p" "s = p @ CHR '','' # s'" "pieces s = p # pieces s'"
proof -
  have "(\<exists>p. CHR '','' \<notin> set p \<and> s = p \<and> pieces s = [p]) \<or>
      (\<exists>p s'. CHR '','' \<notin> set p \<and> s = p @ CHR '','' # s' \<and> pieces s = p # pieces s')"
  proof (induction s)
    case (Cons c s)
    show ?case
    proof (cases "c = CHR '',''")
      case True
      then show ?thesis
        by (intro disjI2 exI [of _ "[]"] exI [of _ s]) simp
    next
      case False
      from Cons.IH show ?thesis
      proof (elim disjE exE conjE)
        fix p s'
        assume "CHR '','' \<notin> set p" "s = p @ CHR '','' # s'" "pieces s = p # pieces s'"
        then show ?thesis
          using False by (intro disjI2 exI [of _ "c # p"] exI [of _ s']) simp
      qed (use False in simp)
    qed
  qed simp
  then show thesis
    using that by blast
qed

text \<open>Where the scan stops, by the first piece.\<close>

lemma next_element_piece:
  assumes "CHR '','' \<notin> set p" "t = [] \<or> (\<exists>s'. t = CHR '','' # s')"
  shows "next_element nc (p @ t) =
    (if list_all is_ows p then (if t = [] then Scan_end else next_element False (tl t))
     else if is_token_char (hd (dropWhile is_ows p)) \<and> \<not> nc then Scan_token (dropWhile is_ows p @ t)
     else Scan_error)"
proof (cases "list_all is_ows p")
  case True
  then have "dropWhile is_ows (p @ t) = dropWhile is_ows t"
    by (simp add: list_all_iff)
  moreover have "dropWhile is_ows t = t"
    using assms(2) by auto
  ultimately show ?thesis
    using True assms(2) by (auto simp: next_element_eqs skip_ows_dropWhile)
next
  case False
  then obtain c r where c: "dropWhile is_ows p = c # r"
    by (cases "dropWhile is_ows p") (auto simp: list_all_iff dropWhile_eq_Nil_conv)
  then have d: "skip_ows (p @ t) = c # r @ t"
    using False by (auto simp: skip_ows_dropWhile dropWhile_append list_all_iff)
  have "c \<in> set p"
    using c by (metis list.set_intros(1) set_dropWhileD)
  then have "c \<noteq> CHR '',''"
    using assms(1) by blast
  then show ?thesis
    using False c d by (cases "is_token_char c") (auto simp: next_element_eqs)
qed

lemma blank_piece:
  assumes "list_all is_ows p"
  shows "piece_ok p" "piece_token p = []"
proof -
  have d: "dropWhile is_ows p = []"
    using assms by (simp add: list_all_iff)
  show "piece_ok p" "piece_token p = []"
    unfolding piece_ok_def piece_rest_def piece_token_def d by simp_all
qed

text \<open>The iteration common to the two token lists: the tokens, and whether it met an error.\<close>

function scan_list :: "bool \<Rightarrow> string \<Rightarrow> string list \<times> bool" where
  "scan_list nc it =
     (case next_element nc it of
        Scan_end \<Rightarrow> ([], False)
      | Scan_error \<Rightarrow> ([], True)
      | Scan_token p \<Rightarrow>
          let r = skip_token (tl p) in (upto_iter p r # fst (scan_list True r), snd (scan_list True r)))"
  by auto
termination by (relation "measure (length \<circ> snd)") (auto dest: next_element_shrinks)

declare scan_list.simps [simp del]

lemma opt_tokens_scan: "length it \<le> length s \<Longrightarrow> opt_tokens_from s it = scan_list (it \<noteq> s) it"
proof (induction "length it" arbitrary: it rule: less_induct)
  case less
  show ?case
  proof (cases "next_element (it \<noteq> s) it")
    case (Scan_token p)
    let ?r = "skip_token (tl p)"
    have "length ?r < length it"
      by (rule next_element_shrinks [OF Scan_token])
    moreover from this have "?r \<noteq> s"
      using less.prems by auto
    ultimately have "opt_tokens_from s ?r = scan_list True ?r"
      using less.hyps [of ?r] less.prems by simp
    then show ?thesis
      using Scan_token
      by (subst opt_tokens_from.simps, subst scan_list.simps)
        (simp add: opt_token_policy_def Let_def split: prod.split)
  qed (subst opt_tokens_from.simps, subst scan_list.simps, simp add: opt_token_policy_def)+
qed

lemma tokens_scan: "length it \<le> length first \<Longrightarrow> tokens_from first it = fst (scan_list (it \<noteq> first) it)"
proof (induction "length it" arbitrary: it first rule: less_induct)
  case less
  show ?case
  proof (cases "next_element (it \<noteq> first) it")
    case (Scan_token p)
    let ?r = "skip_token (tl p)"
    have "length ?r < length it"
      by (rule next_element_shrinks [OF Scan_token])
    moreover from this have "?r \<noteq> it"
      by auto
    ultimately have "tokens_from it ?r = fst (scan_list True ?r)"
      using less.hyps [of ?r it] by simp
    then show ?thesis
      using Scan_token
      by (subst tokens_from.simps, subst scan_list.simps) (simp add: token_increment_def Let_def)
  qed (subst tokens_from.simps, subst scan_list.simps, simp add: token_increment_def)+
qed

definition scan_pieces :: "string list \<Rightarrow> string list" where
  "scan_pieces ps = filter (\<lambda>t. t \<noteq> []) (map piece_token (takeWhile piece_ok ps @ take 1 (dropWhile piece_ok ps)))"

lemma scan_pieces_Cons:
  "scan_pieces (p # ps) =
    (if piece_token p = [] then [] else [piece_token p]) @ (if piece_ok p then scan_pieces ps else [])"
  by (simp add: scan_pieces_def)

lemma scan_list_eqs:
  "next_element nc it = Scan_end \<Longrightarrow> scan_list nc it = ([], False)"
  "next_element nc it = Scan_error \<Longrightarrow> scan_list nc it = ([], True)"
  "next_element nc it = Scan_token p \<Longrightarrow> r = skip_token (tl p) \<Longrightarrow>
    scan_list nc it = (upto_iter p r # fst (scan_list True r), snd (scan_list True r))"
  by (subst scan_list.simps; simp add: Let_def)+

lemma scan_list_cong: "next_element nc it = next_element nc' it' \<Longrightarrow> scan_list nc it = scan_list nc' it'"
  by (subst (1 2) scan_list.simps) (simp only:)

lemma pieces_append: "CHR '','' \<notin> set q \<Longrightarrow> pieces (q @ t) = (q @ hd (pieces t)) # tl (pieces t)"
proof (induction q)
  case Nil
  then show ?case
    by (cases t) simp_all
next
  case (Cons a q)
  then show ?case
    by (cases "a = CHR '',''") simp_all
qed

lemma pieces_single: "CHR '','' \<notin> set q \<Longrightarrow> pieces q = [q]"
  using pieces_append [of q "[]"] by simp

lemma dropWhile_token_append:
  "t = [] \<or> (\<exists>s'. t = CHR '','' # s') \<Longrightarrow> dropWhile is_token_char (r @ t) = dropWhile is_token_char r @ t"
proof -
  have "\<not> is_token_char CHR '',''"
    using token_not_special(5) by blast
  then show "t = [] \<or> (\<exists>s'. t = CHR '','' # s') \<Longrightarrow> ?thesis"
    by (induction r) auto
qed

lemma scan_list_pieces:
  "scan_list nc it =
    (if nc \<and> \<not> list_all is_ows (hd (pieces it)) then ([], True)
     else (scan_pieces (if nc then tl (pieces it) else pieces it), \<not> list_all piece_ok (pieces it)))"
proof (induction "length it" arbitrary: nc it rule: less_induct)
  case less
  obtain p t where p: "CHR '','' \<notin> set p" "t = [] \<or> (\<exists>s'. t = CHR '','' # s')" "it = p @ t"
      "pieces it = p # (if t = [] then [] else pieces (tl t))"
  proof (cases it rule: pieces_split)
    case (1 p)
    then show thesis
      using that [of p "[]"] by simp
  next
    case (2 p s')
    then show thesis
      using that [of p "CHR '','' # s'"] by simp
  qed
  let ?ps = "if t = [] then [] else pieces (tl t)"
  note elem = next_element_piece [OF p(1,2), of nc]
  show ?case
  proof (cases "list_all is_ows p")
    case True
    show ?thesis
    proof (cases "t = []")
      case t: True
      then have "scan_list nc it = ([], False)"
        using True elem p(3) by (intro scan_list_eqs(1)) simp
      then show ?thesis
        using True t p(4) blank_piece [OF True] by (simp add: scan_pieces_def)
    next
      case False
      then have "scan_list nc it = scan_list False (tl t)"
        using True elem p(3) by (intro scan_list_cong) simp
      also have "\<dots> = (scan_pieces (pieces (tl t)), \<not> list_all piece_ok (pieces (tl t)))"
        using less.hyps [of "tl t" False] p(3) False by (cases t) simp_all
      finally show ?thesis
        using True False p(4) blank_piece [OF True] by (simp add: scan_pieces_Cons)
    qed
  next
    case False
    then obtain c r where c: "dropWhile is_ows p = c # r"
      by (cases "dropWhile is_ows p") (auto simp: list_all_iff dropWhile_eq_Nil_conv)
    have ows: "\<not> is_ows c"
      using hd_dropWhile [of is_ows p] c by simp
    show ?thesis
    proof (cases "is_token_char c \<and> \<not> nc")
      case True
      let ?q = "dropWhile is_token_char r"
      have rest: "?q @ t = skip_token (tl (c # r @ t))"
        using dropWhile_token_append [OF p(2)] by (simp add: skip_token_dropWhile)
      have piece: "piece_token p = c # takeWhile is_token_char r" "piece_rest p = ?q"
        using True c by (simp_all add: piece_token_def piece_rest_def)
      have "CHR '','' \<notin> set ?q"
        using p(1) c by (metis list.set_intros(2) set_dropWhileD)
      then have q: "pieces (?q @ t) = ?q # ?ps"
        using p(2) by (elim disjE exE) (simp_all add: pieces_append pieces_single)
      have "upto_iter (c # r @ t) (?q @ t) = piece_token p"
        using upto_iter_append [of "c # takeWhile is_token_char r" "?q @ t"] piece(1)
        by (simp flip: append.assoc)
      then have step: "scan_list nc it = (piece_token p # fst (scan_list True (?q @ t)), snd (scan_list True (?q @ t)))"
        using scan_list_eqs(3) [OF _ rest, of nc it] elem True False c p(3) by simp
      have "length (dropWhile is_token_char r) \<le> length r" "length (c # r) \<le> length p"
        using c length_dropWhile_le [of is_token_char r] length_dropWhile_le [of is_ows p] by simp_all
      then have "length (?q @ t) < length it"
        using p(3) by simp
      from less.hyps [OF this, of True] show ?thesis
        unfolding step using q p(4) True piece blank_piece(1) [of ?q] by (simp add: scan_pieces_Cons piece_ok_def)
    next
      case stop: False
      then have "scan_list nc it = ([], True)"
        using False c elem p(3) by (intro scan_list_eqs(2)) simp
      moreover have "piece_token p = []" "\<not> piece_ok p" if "\<not> nc"
        using stop c that ows by (simp_all add: piece_token_def piece_ok_def piece_rest_def)
      ultimately show ?thesis
        using False p(4) by (auto simp: scan_pieces_Cons)
    qed
  qed
qed

lemma opt_tokens_pieces:
  "opt_tokens_from s s = (scan_pieces (pieces s), \<not> list_all piece_ok (pieces s))"
  using opt_tokens_scan [of s s] scan_list_pieces [of False s] by simp

lemma tokens_pieces: "tokens s = scan_pieces (pieces s)"
  using tokens_scan [of s s] scan_list_pieces [of False s] by (simp add: tokens_def)

section \<open>Writing parameters\<close>

definition escape :: "char \<Rightarrow> string" where
  "escape c = (if c = CHR 0x22 \<or> c = CHR 0x5C then [CHR 0x5C, c] else [c])"

definition quote :: "string \<Rightarrow> string" where
  "quote v = CHR 0x22 # concat (map escape v) @ [CHR 0x22]"

definition render_param :: "string \<times> string \<Rightarrow> string" where
  "render_param nv = (case nv of (n, v) \<Rightarrow>
     CHR '';'' # n @ CHR ''='' # (if v \<noteq> [] \<and> list_all is_token_char v then v else quote v))"

definition param_ok :: "string \<times> string \<Rightarrow> bool" where
  "param_ok nv \<longleftrightarrow> fst nv \<noteq> [] \<and> list_all is_token_char (fst nv) \<and> list_all is_qpchar (snd nv)"

lemma qdchar_iff: "is_qdchar c \<longleftrightarrow> qdtext_code (uchar c)"
  using table_all [OF qdchar_tab, of c] by (simp add: is_qdchar_def)

lemma qpchar_iff: "is_qpchar c \<longleftrightarrow> text_code (uchar c)"
  using table_all [OF text_tab, of c] by (simp add: is_qpchar_def qpchar_tab)

lemma quote_codes: "uchar c = 34 \<longleftrightarrow> c = CHR 0x22" "uchar c = 92 \<longleftrightarrow> c = CHR 0x5C"
  using uchar_inj [of c "CHR 0x22"] uchar_inj [of c "CHR 0x5C"] by (auto simp: uchar_def)

lemma qdchar_of_text: "is_qpchar c \<Longrightarrow> c \<noteq> CHR 0x22 \<Longrightarrow> c \<noteq> CHR 0x5C \<Longrightarrow> is_qdchar c"
  using quote_codes [of c] by (auto simp: qdchar_iff qpchar_iff text_code_def qdtext_code_def vchar_code_def)

lemma not_qdchar: "\<not> is_qdchar CHR 0x5C"
  by (simp add: qdchar_iff qdtext_code_def blank_code_def uchar_def)

lemma quoted_end_escape: "list_all is_qpchar v \<Longrightarrow> quoted_end (concat (map escape v) @ CHR 0x22 # r) = Some r"
proof (induction v)
  case (Cons c v)
  then show ?case
    using qdchar_of_text [of c] not_qdchar
    by (cases "c = CHR 0x22 \<or> c = CHR 0x5C") (auto simp: escape_def)
qed simp

lemma unquote_quote: "unquote (quote v) = Some v"
proof -
  have "unquote_loop (concat (map escape v)) = Some v"
    by (induction v) (auto simp: escape_def)
  then show ?thesis
    by (simp add: unquote_def quote_def butlast_append)
qed

lemma skip_token_all: "list_all is_token_char n \<Longrightarrow> r = [] \<or> \<not> is_token_char (hd r) \<Longrightarrow> skip_token (n @ r) = r"
  by (induction n) (cases r; auto)+

lemma not_token: "\<not> is_token_char CHR ''=''" "\<not> is_token_char CHR '';''" "\<not> is_token_char CHR 0x22"
  using token_not_special by blast+

lemma param_increment_render:
  assumes ok: "param_ok (n, v)" and r: "r = [] \<or> hd r = CHR '';''"
  shows "param_increment \<lparr>pi_it = render_param (n, v) @ r, pi_first = f, pi_name = n0, pi_value = v0\<rparr> =
    \<lparr>pi_it = r, pi_first = render_param (n, v) @ r, pi_name = n,
     pi_value = (if v \<noteq> [] \<and> list_all is_token_char v then v else quote v)\<rparr>"
proof -
  obtain c n' where n: "n = c # n'" "is_token_char c" "list_all is_token_char n'"
    using ok by (cases n) (auto simp: param_ok_def)
  define w where "w = (if v \<noteq> [] \<and> list_all is_token_char v then v else quote v)"
  have c: "\<not> is_ows c"
    using token_not_special [OF n(2)] by auto
  have name: "skip_token (n' @ CHR ''='' # w @ r) = CHR ''='' # w @ r"
    using skip_token_all [OF n(3), of "CHR ''='' # w @ r"] not_token(1) by simp
  have upto: "upto_iter (c # n' @ CHR ''='' # w @ r) (CHR ''='' # w @ r) = c # n'"
    using upto_iter_append [of "c # n'" "CHR ''='' # w @ r"] by simp
  obtain d w' where w: "w = d # w'" "\<not> is_ows d"
    "if d = CHR 0x22 then quoted_end (w' @ r) = Some r else is_token_char d \<and> skip_token (w' @ r) = r"
  proof (cases "v \<noteq> [] \<and> list_all is_token_char v")
    case True
    then obtain d v' where d: "v = d # v'" "is_token_char d" "list_all is_token_char v'"
      by (cases v) auto
    moreover have "skip_token (v' @ r) = r"
      using skip_token_all [OF d(3), of r] r not_token(2) by auto
    ultimately show thesis
      using that [of d v'] token_not_special [OF d(2)] True by (auto simp: w_def)
  next
    case False
    have "list_all is_qpchar v"
      using ok by (simp add: param_ok_def)
    from quoted_end_escape [OF this, of r] show thesis
      using that [of "CHR 0x22" "concat (map escape v) @ [CHR 0x22]"] False by (simp add: w_def quote_def)
  qed
  have val: "upto_iter (d # w' @ r) r = w"
    using upto_iter_append [of w r] w(1) by simp
  have render: "render_param (n, v) = CHR '';'' # c # n' @ CHR ''='' # w"
    unfolding w_def using n(1) by (simp add: render_param_def)
  show ?thesis
    unfolding render w_def [symmetric]
    using n c name upto w val by (auto simp: param_increment_def Let_def split: if_splits)
qed

lemma params_from_render:
  "list_all param_ok ps \<Longrightarrow> pi_it pi = concat (map render_param ps) \<Longrightarrow> params_from pi = Some ps"
proof (induction ps arbitrary: pi)
  case Nil
  then have "param_increment pi = \<lparr>pi_it = [], pi_first = [], pi_name = [], pi_value = []\<rparr>"
    by (simp add: param_increment_def)
  then show ?case
    by (subst params_from.simps) (simp add: param_list_increment_def param_empty_def)
next
  case (Cons nv ps)
  obtain n v where nv: "nv = (n, v)"
    by (cases nv)
  let ?r = "concat (map render_param ps)"
  let ?v = "if v \<noteq> [] \<and> list_all is_token_char v then v else quote v"
  let ?pi = "\<lparr>pi_it = ?r, pi_first = render_param (n, v) @ ?r, pi_name = n, pi_value = ?v\<rparr>"
  have "?r = [] \<or> hd ?r = CHR '';''"
    by (cases ps) (auto simp: render_param_def)
  then have inc: "param_increment pi = ?pi"
    using param_increment_render [of n v ?r "pi_first pi" "pi_name pi" "pi_value pi"] Cons.prems nv by (cases pi) simp
  have "hd v \<noteq> CHR 0x22" if "v \<noteq> []" "list_all is_token_char v"
    using that not_token(3) by (cases v) auto
  then have "param_list_increment pi = Some (?pi\<lparr>pi_value := v\<rparr>)"
    using inc unquote_quote [of v]
    by (auto simp: param_list_increment_def param_empty_def render_param_def quote_def)
  moreover have "params_from (?pi\<lparr>pi_value := v\<rparr>) = Some ps"
    using Cons.IH [of "?pi\<lparr>pi_value := v\<rparr>"] Cons.prems by simp
  ultimately show ?case
    using nv by (subst params_from.simps) (simp add: render_param_def)
qed

section \<open>Properties\<close>

text \<open>
  C25: the list of optional tokens, the syntax of the Connection field, accepts exactly the
  lists whose pieces between the commas are blanks, at most one token, blanks; iterating gives the
  tokens of the pieces that have one, up to and including the first piece that is not of this form.
\<close>

theorem opt_token_list_correct:
  "(validate_list s \<longleftrightarrow> list_all piece_ok (pieces s)) \<and>
   opt_tokens s = filter (\<lambda>t. t \<noteq> [])
     (map piece_token (takeWhile piece_ok (pieces s) @ take 1 (dropWhile piece_ok (pieces s))))"
  by (simp add: validate_list_def opt_tokens_def opt_tokens_pieces scan_pieces_def)

text \<open>
  The other token list visits the same tokens and ends without an error: what follows a token
  in a malformed piece is dropped, so \<open>chunked;q=1\<close> is read as \<open>chunked\<close>.
\<close>

theorem token_list_correct:
  "tokens s = opt_tokens s \<and> tokens ''gzip , chunked;q=1, x'' = [''gzip'', ''chunked'']"
proof -
  have "tokens s = opt_tokens s" for s
    by (simp add: opt_tokens_def opt_tokens_pieces tokens_pieces)
  moreover have "tokens ''gzip , chunked;q=1, x'' = [''gzip'', ''chunked'']"
    by code_simp
  ultimately show ?thesis
    by blast
qed

text \<open>
  C31: parameters written as \<open>;name=value\<close>, values that are not tokens as quoted strings
  with quotes and backslashes escaped, are read back as the pairs they were.
\<close>

theorem params_roundtrip:
  assumes "list_all param_ok ps"
  shows "params (concat (map render_param ps)) = Some ps"
  unfolding params_def by (rule params_from_render [OF assms]) simp

theorem params_roundtrip_witness:
  "params (concat (map render_param [(''a'', ''x y''), (''bits'', ''15''), (''e'', [])])) =
    Some [(''a'', ''x y''), (''bits'', ''15''), (''e'', [])]"
proof (rule params_roundtrip)
  show "list_all param_ok [(''a'', ''x y''), (''bits'', ''15''), (''e'', [])]"
    by (simp add: param_ok_def token_char_iff tchar_code_def digit_code_def alpha_code_def qpchar_iff text_code_def
      vchar_code_def blank_code_def uchar_def)
qed

end
