(* ===== verification/Http_Parser_Base.thy ===== *)
theory Http_Parser_Base
  imports Http_Fields Rfc7230
begin

text \<open>
  \<open>basic_parser_base\<close> (\<open>beast/http/detail/basic_parser.hpp\<close>): the parsers of
  the elements of a message.  A pointer into the input is the input from there up to the
  \<open>last\<close> of the call, so \<open>p == last\<close> is the empty list; a parser returns an error or
  its results with the rest of the input.  Where the code reads without testing for
  \<open>last\<close>, a read past the input is a value of its own.
\<close>

datatype http_error = End_of_stream | Partial_message | Need_more | Unexpected_body | Need_buffer
  | End_of_chunk | Buffer_overflow | Header_limit | Body_limit | Bad_alloc | Bad_line_ending
  | Bad_method | Bad_target | Bad_version | Bad_status | Bad_reason | Bad_field | Bad_value
  | Bad_content_length | Bad_transfer_encoding | Bad_chunk | Bad_chunk_extension | Bad_obs_fold
  | Other_error nat
  | Length_error_thrown | Assertion_failed

text \<open>
  The last three are not enumerators: the errors of a derived class that are not the parser's
  own, an exception \<open>std::length_error\<close> that leaves the call, and a
  \<open>BOOST_ASSERT\<close> or \<open>BOOST_VERIFY\<close> that does not hold.
\<close>

abbreviation CR :: char where "CR \<equiv> CHR 0x0D"
abbreviation LF :: char where "LF \<equiv> CHR 0x0A"

definition max_obs_fold :: nat where
  "max_obs_fold = 4096"

section \<open>Lines\<close>

fun find_eol :: "string \<Rightarrow> http_error + string option" where
  "find_eol [] = Inr None"
| "find_eol (c # s) =
     (if c = CR then
        (case s of
           [] \<Rightarrow> Inr None
         | d # s' \<Rightarrow> if d \<noteq> LF then Inl Bad_line_ending else Inr (Some s'))
      else find_eol s)"

text \<open>The end of the message: it looks at every fourth character while it can.\<close>

function find_eom :: "string \<Rightarrow> string option" where
  "find_eom p =
     (if length p < 4 then None
      else if p ! 3 \<noteq> LF then
        (if p ! 3 = CR then find_eom (drop 1 p) else find_eom (drop 4 p))
      else if p ! 2 \<noteq> CR then find_eom (drop 4 p)
      else if p ! 1 \<noteq> LF then find_eom (drop 2 p)
      else if p ! 0 \<noteq> CR then find_eom (drop 2 p)
      else Some (drop 4 p))"
  by auto
termination by (relation "measure length") auto

declare find_eom.simps [simp del]

text \<open>\<open>trim_front\<close> and \<open>trim_back\<close> are the blank-skipping loops over again.\<close>

definition trim_front :: "string \<Rightarrow> string" where
  "trim_front s = skip_ows s"

definition trim_back :: "string \<Rightarrow> string" where
  "trim_back s = skip_ows_rev s"

text \<open>
  A line of text up to its CRLF: the text and the rest, \<open>None\<close> (the null pointer) at a
  control character other than the tab.
\<close>

definition is_control_char :: "char \<Rightarrow> bool" where
  "is_control_char c \<longleftrightarrow> \<not> is_print c \<and> (uchar c < 32 \<and> c \<noteq> CHR 0x09 \<or> c = CHR 0x7F)"

fun parse_token_to_eol :: "string \<Rightarrow> http_error + (string \<times> string) option" where
  "parse_token_to_eol [] = Inl Need_more"
| "parse_token_to_eol (c # s) =
     (if is_control_char c then
        (if c = CR then
           (case s of
              [] \<Rightarrow> Inl Need_more
            | d # s' \<Rightarrow> if d \<noteq> LF then Inl Bad_line_ending else Inr (Some ([], s')))
         else Inr None)
      else case parse_token_to_eol s of
          Inl e \<Rightarrow> Inl e
        | Inr None \<Rightarrow> Inr None
        | Inr (Some (t, r)) \<Rightarrow> Inr (Some (c # t, r)))"

section \<open>Numbers\<close>

definition digit_value :: "char \<Rightarrow> u64" where
  "digit_value c = of_nat (uchar c - 48)"

text \<open>
  \<open>parse_dec\<close> of the characters of a view, \<open>n\<close> of them left, and of the memory
  after it, which it may look at; the outer \<open>None\<close> is a read past that memory.
\<close>

fun dec_loop :: "u64 \<Rightarrow> string \<Rightarrow> int \<Rightarrow> u64 option option" where
  "dec_loop v [] n = None"
| "dec_loop v (c # s) n =
     (if \<not> is_digit c then Some (if n = 0 then Some v else None)
      else if v > (- 1 - 10) div 10 then Some None
      else dec_loop (10 * v + digit_value c) s (n - 1))"

definition parse_dec :: "string \<Rightarrow> string \<Rightarrow> u64 option option" where
  "parse_dec s mem =
     (case s @ mem of
        [] \<Rightarrow> None
      | c # r \<Rightarrow> if \<not> is_digit c then Some None else dec_loop (digit_value c) r (int (length s) - 1))"

text \<open>\<open>parse_hex\<close>: the value and the rest.\<close>

fun hex_loop :: "u64 \<Rightarrow> string \<Rightarrow> (u64 \<times> string) option option" where
  "hex_loop v [] = None"
| "hex_loop v (c # s) =
     (case hex_digit c of
        None \<Rightarrow> Some (Some (v, c # s))
      | Some d \<Rightarrow> let v' = 16 * v + of_nat d in if v' < v then Some None else hex_loop v' s)"

fun parse_hex :: "string \<Rightarrow> (u64 \<times> string) option option" where
  "parse_hex [] = None"
| "parse_hex (c # s) = (case hex_digit c of None \<Rightarrow> Some None | Some d \<Rightarrow> hex_loop (of_nat d) s)"

text \<open>\<open>parse_crlf\<close>, with two characters there to read.\<close>

definition parse_crlf :: "string \<Rightarrow> string option" where
  "parse_crlf s = (if s ! 0 \<noteq> CR \<or> s ! 1 \<noteq> LF then None else Some (drop 2 s))"

section \<open>The start line\<close>

text \<open>A word and the space after it; the error codes differ.\<close>

fun word_loop :: "(char \<Rightarrow> bool) \<Rightarrow> http_error \<Rightarrow> string \<Rightarrow> http_error + (string \<times> string)" where
  "word_loop ok e [] = Inl Need_more"
| "word_loop ok e (c # s) =
     (if ok c then (case word_loop ok e s of Inl e \<Rightarrow> Inl e | Inr (w, r) \<Rightarrow> Inr (c # w, r))
      else if c \<noteq> CHR '' '' then Inl e
      else Inr ([], s))"

definition parse_method :: "string \<Rightarrow> http_error + (string \<times> string)" where
  "parse_method it =
     (case word_loop is_token_char Bad_method it of
        Inl e \<Rightarrow> Inl e
      | Inr (w, r) \<Rightarrow> if w = [] then Inl Bad_method else Inr (w, r))"

definition parse_target :: "string \<Rightarrow> http_error + (string \<times> string)" where
  "parse_target it =
     (case word_loop is_pathchar Bad_target it of
        Inl e \<Rightarrow> Inl e
      | Inr (w, r) \<Rightarrow> if w = [] then Inl Bad_target else Inr (w, r))"

definition parse_version :: "string \<Rightarrow> http_error + (nat \<times> string)" where
  "parse_version it =
     (if length it < 8 then Inl Need_more
      else if it ! 0 \<noteq> CHR ''H'' then Inl Bad_version
      else if it ! 1 \<noteq> CHR ''T'' then Inl Bad_version
      else if it ! 2 \<noteq> CHR ''T'' then Inl Bad_version
      else if it ! 3 \<noteq> CHR ''P'' then Inl Bad_version
      else if it ! 4 \<noteq> CHR ''/'' then Inl Bad_version
      else if \<not> is_digit (it ! 5) then Inl Bad_version
      else if it ! 6 \<noteq> CHR ''.'' then Inl Bad_version
      else if \<not> is_digit (it ! 7) then Inl Bad_version
      else Inr (10 * (uchar (it ! 5) - 48) + (uchar (it ! 7) - 48), drop 8 it))"

text \<open>\<open>parse_status\<close> stores the digits as it reads them, also when it then fails.\<close>

definition parse_status :: "string \<Rightarrow> nat \<Rightarrow> nat \<times> (http_error + string)" where
  "parse_status it result =
     (let d = \<lambda>i. uchar (it ! i) - 48 in
      if length it < 4 then (result, Inl Need_more)
      else if \<not> is_digit (it ! 0) then (result, Inl Bad_status)
      else if \<not> is_digit (it ! 1) then (100 * d 0, Inl Bad_status)
      else if \<not> is_digit (it ! 2) then (100 * d 0 + 10 * d 1, Inl Bad_status)
      else if it ! 3 \<noteq> CHR '' '' then (100 * d 0 + 10 * d 1 + d 2, Inl Bad_status)
      else (100 * d 0 + 10 * d 1 + d 2, Inr (drop 4 it)))"

definition parse_reason :: "string \<Rightarrow> http_error + (string \<times> string)" where
  "parse_reason it =
     (case parse_token_to_eol it of
        Inl e \<Rightarrow> Inl e
      | Inr None \<Rightarrow> Inl Bad_reason
      | Inr (Some (t, p)) \<Rightarrow> Inr (t, p))"

section \<open>Fields\<close>

fun field_name :: "string \<Rightarrow> http_error + (string \<times> string)" where
  "field_name [] = Inl Need_more"
| "field_name (c # s) =
     (if c = CHR '':'' then Inr ([], s)
      else if \<not> is_field_token c then Inl Bad_field
      else case field_name s of Inl e \<Rightarrow> Inl e | Inr (n, r) \<Rightarrow> Inr (c # n, r))"

text \<open>
  One line of a value: the text with the blanks at both ends removed, what follows the text in
  memory, and the next line, of which at least one character is there.
\<close>

definition value_line :: "string \<Rightarrow> http_error + (string \<times> string \<times> string)" where
  "value_line p =
     (let first = trim_front p in
      if first = [] then Inl Need_more
      else case parse_token_to_eol first of
          Inl e \<Rightarrow> Inl e
        | Inr None \<Rightarrow> Inl Bad_value
        | Inr (Some (t, p)) \<Rightarrow>
            if p = [] then Inl Need_more
            else let v = trim_back t in Inr (v, drop (length v) first, p))"

lemma parse_token_eq:
  "parse_token_to_eol s = Inr (Some (t, r)) \<Longrightarrow> s = t @ CR # LF # r \<and> list_all (\<lambda>c. \<not> is_control_char c) t"
  by (induction s arbitrary: t rule: parse_token_to_eol.induct)
     (auto split: if_splits sum.splits option.splits prod.splits list.splits)

lemma parse_token_shorter: "parse_token_to_eol s = Inr (Some (t, r)) \<Longrightarrow> length r + length t + 2 = length s"
  by (drule parse_token_eq) auto

lemma value_line_shorter: "value_line p = Inr (v, mem, r) \<Longrightarrow> r \<noteq> [] \<and> length r + 2 \<le> length p"
  using length_skip_ows [of p]
  by (auto simp: value_line_def trim_front_def Let_def dest!: parse_token_shorter
      split: if_splits sum.splits option.splits prod.splits)

text \<open>
  The first loop: lines until one that is not blank or not continued.  The value is complete, or
  the obs-fold buffer starts with the line.
\<close>

function value_first :: "string \<Rightarrow> http_error + ((string \<times> string) + string) \<times> string" where
  "value_first p =
     (case value_line p of
        Inl e \<Rightarrow> Inl e
      | Inr (v, mem, r) \<Rightarrow>
          if \<not> is_ows (hd r) then Inr (Inl (v, mem), r)
          else if v \<noteq> [] then Inr (Inr v, tl r)
          else value_first (tl r))"
  by auto
termination by (relation "measure length") (auto dest!: value_line_shorter)

declare value_first.simps [simp del]

text \<open>The loop over the folded lines; the buffer holds \<open>max_obs_fold\<close> characters.\<close>

function value_fold :: "string \<Rightarrow> string \<Rightarrow> http_error + (string \<times> string)" where
  "value_fold buf p =
     (case value_line p of
        Inl e \<Rightarrow> Inl e
      | Inr (v, mem, r) \<Rightarrow>
          let buf' = (if v \<noteq> [] then buf @ CHR '' '' # v else buf) in
          if length buf' > max_obs_fold then Inl Header_limit
          else if \<not> is_ows (hd r) then Inr (buf', r)
          else value_fold buf' (tl r))"
  by auto
termination by (relation "measure (length \<circ> snd)") (auto dest!: value_line_shorter)

declare value_fold.simps [simp del]

text \<open>
  The result is the name, the value, what follows the value in memory, and the rest.  The first
  \<open>append\<close> is outside the \<open>try\<close> block.
\<close>

definition parse_field :: "string \<Rightarrow> http_error + (string \<times> string \<times> string \<times> string)" where
  "parse_field p =
     (case field_name p of
        Inl e \<Rightarrow> Inl e
      | Inr (name, r) \<Rightarrow>
          if name = [] then Inl Bad_field
          else case value_first r of
              Inl e \<Rightarrow> Inl e
            | Inr (Inl (v, mem), r) \<Rightarrow> Inr (name, v, mem, r)
            | Inr (Inr v, r) \<Rightarrow>
                if length v > max_obs_fold then Inl Length_error_thrown
                else case value_fold v r of
                    Inl e \<Rightarrow> Inl e
                  | Inr (buf, r) \<Rightarrow> Inr (name, buf, [char_of (0 :: nat)], r))"

section \<open>Chunk extensions\<close>

text \<open>The loop over a quoted string, from its opening quote on.\<close>

fun ext_quoted :: "string \<Rightarrow> http_error + string" where
  "ext_quoted [] = Inl Need_more"
| "ext_quoted (c # s) =
     (if c = CHR 0x22 then Inr s
      else if c = CHR 0x5C then (case s of [] \<Rightarrow> Inl Need_more | d # s' \<Rightarrow> ext_quoted s')
      else ext_quoted s)"

lemma ext_quoted_shorter: "ext_quoted s = Inr r \<Longrightarrow> length r < length s"
  by (induction s rule: ext_quoted.induct) (fastforce split: if_splits list.splits)+

lemma tl_skip_ows: "skip_ows s \<noteq> [] \<Longrightarrow> length (tl (skip_ows s)) < length s"
  using length_skip_ows [of s] by (cases "skip_ows s") auto

text \<open>The label \<open>loop\<close> when \<open>semi\<close> is false, else \<open>semi\<close> after its semicolon.\<close>

function chunk_ext :: "bool \<Rightarrow> string \<Rightarrow> http_error + string" where
  "chunk_ext False it =
     (if it = [] then Inl Need_more
      else if \<not> is_ows (hd it) \<and> hd it \<noteq> CHR '';'' then Inr it
      else let it = skip_ows it in
        if it = [] then Inl Need_more
        else if hd it \<noteq> CHR '';'' then Inl Bad_chunk_extension
        else chunk_ext True (tl it))"
| "chunk_ext True it =
     (let it = skip_ows it in
      if it = [] then Inl Need_more
      else if \<not> is_token_char (hd it) then Inl Bad_chunk_extension
      else let it = skip_token (tl it) in
        if it = [] then Inl Need_more
        else let bws = is_ows (hd it); it = skip_ows it in
          if it = [] then Inl Need_more
          else if hd it = CHR '';'' then chunk_ext True (tl it)
          else if hd it \<noteq> CHR ''='' then (if bws then Inl Bad_chunk_extension else Inr it)
          else let it = skip_ows (tl it) in
            if it = [] then Inl Need_more
            else if hd it \<noteq> CHR 0x22 then
              (if \<not> is_token_char (hd it) then Inl Bad_chunk_extension
               else let it = skip_token (tl it) in
                 if it = [] then Inl Need_more else chunk_ext False it)
            else (case ext_quoted (tl it) of Inl e \<Rightarrow> Inl e | Inr it \<Rightarrow> chunk_ext False it))"
  by pat_completeness auto
termination
proof (relation "measure (\<lambda>(semi, it). length it)", goal_cases)
  case (2 it it1)
  then show ?case using tl_skip_ows by auto
next
  case (3 it it1 it2 bws it3)
  then have "length (tl it3) < length it2" "length it2 \<le> length (tl it1)" "length (tl it1) < length it"
    using tl_skip_ows [of it] tl_skip_ows [of it2] length_skip_token [of "tl it1"] by auto
  then show ?case by simp
next
  case (4 it it1 it2 bws it3 it4 it5)
  then have "length it5 \<le> length (tl it4)" "length (tl it4) < length (tl it3)"
    "length (tl it3) < length it2" "length it2 \<le> length (tl it1)" "length (tl it1) < length it"
    using tl_skip_ows [of it] tl_skip_ows [of it2] tl_skip_ows [of "tl it3"]
      length_skip_token [of "tl it1"] length_skip_token [of "tl it4"] by auto
  then show ?case by simp
next
  case (5 it it1 it2 bws it3 it4 r)
  then have "length r < length (tl it4)" "length (tl it4) < length (tl it3)"
    "length (tl it3) < length it2" "length it2 \<le> length (tl it1)" "length (tl it1) < length it"
    using tl_skip_ows [of it] tl_skip_ows [of it2] tl_skip_ows [of "tl it3"]
      length_skip_token [of "tl it1"] ext_quoted_shorter [of "tl it4" r] by auto
  then show ?case by simp
qed simp

declare chunk_ext.simps [simp del]

definition parse_chunk_extensions :: "string \<Rightarrow> http_error + string" where
  "parse_chunk_extensions it = chunk_ext False it"


section \<open>The end of the message and of the line\<close>

text \<open>The first occurrence of a text, tried at every position; the result is what follows it.\<close>

fun after_first :: "string \<Rightarrow> string \<Rightarrow> string option" where
  "after_first w [] = (if w = [] then Some [] else None)"
| "after_first w (c # s) = (if take (length w) (c # s) = w then Some (drop (length w) (c # s)) else after_first w s)"

lemma after_first_short: "length s < length w \<Longrightarrow> after_first w s = None"
  by (induction s) (auto dest: arg_cong [where f = length])

lemma four_at:
  fixes p :: string
  assumes "\<not> length p < 4"
  obtains a b c d r where "p = a # b # c # d # r"
proof -
  have "\<exists>c t. s = c # t \<and> n \<le> length t" if "Suc n \<le> length s" for n and s :: string
    using that by (cases s) auto
  from this [of 3 p] this [of 2 "tl p"] this [of 1 "tl (tl p)"] this [of 0 "tl (tl (tl p))"]
  show thesis
    using assms that by (auto simp: numeral_eq_Suc)
qed

lemma take_4 [simp]: "take 4 (a # b # c # d # r) = [a, b, c, d]"
  "take 4 (a # b # c # r) = a # b # c # take 1 r"
  "take 4 (a # b # r) = a # b # take 2 r"
  "take 4 (a # r) = a # take 3 r"
  by simp_all

lemma find_eom_eq: "find_eom p = after_first [CR, LF, CR, LF] p"
proof (induction p rule: find_eom.induct)
  case (1 p)
  show ?case
  proof (cases "length p < 4")
    case True
    then show ?thesis
      by (subst find_eom.simps) (simp add: after_first_short)
  next
    case False
    then obtain a b c d r where p: "p = a # b # c # d # r"
      by (rule four_at)
    let ?w = "[CR, LF, CR, LF]"
    have step: "find_eom p =
        (if d \<noteq> LF then (if d = CR then find_eom (b # c # d # r) else find_eom r)
         else if c \<noteq> CR then find_eom r else if b \<noteq> LF then find_eom (c # d # r)
         else if a \<noteq> CR then find_eom (c # d # r) else Some r)"
      unfolding p by (subst find_eom.simps) simp
    have ih: "d = CR \<Longrightarrow> find_eom (b # c # d # r) = after_first ?w (b # c # d # r)"
      "d \<noteq> LF \<and> d \<noteq> CR \<or> d = LF \<and> c \<noteq> CR \<Longrightarrow> find_eom r = after_first ?w r"
      "d = LF \<Longrightarrow> c = CR \<Longrightarrow> b \<noteq> LF \<or> a \<noteq> CR \<Longrightarrow> find_eom (c # d # r) = after_first ?w (c # d # r)"
      using 1 [OF False] by (simp_all (no_asm_use) add: p del: after_first.simps) blast+
    consider "d = CR" | "d \<noteq> LF \<and> d \<noteq> CR \<or> d = LF \<and> c \<noteq> CR"
      | "d = LF" "c = CR" "b \<noteq> LF \<or> a \<noteq> CR" | "a = CR" "b = LF" "c = CR" "d = LF"
      by blast
    then show ?thesis
    proof cases
      case 1
      then show ?thesis
        using step ih(1) by (simp add: p)
    next
      case 2
      then have "find_eom p = after_first ?w r"
        using step ih(2) by auto
      also have "... = after_first ?w p"
        using 2 by (auto simp: p)
      finally show ?thesis .
    next
      case 3
      then have "find_eom p = after_first ?w (c # d # r)"
        using step ih(3) by auto
      also have "... = after_first ?w p"
        using 3 by (auto simp: p)
      finally show ?thesis .
    qed (use step in \<open>simp add: p\<close>)
  qed
qed


text \<open>
  C40: \<open>find_eom\<close>, which looks at every fourth character and jumps by four, two or
  one, is the search that tries every position: it finds the end of the first empty line, and
  finds nothing only when there is none.
\<close>

theorem find_eom_first: "find_eom p = after_first [CR, LF, CR, LF] p"
  by (rule find_eom_eq)

section \<open>Input in pieces\<close>

text \<open>
  What a parser that looks at a growing input may do when \<open>q\<close> arrives: after
  \<open>Need_more\<close> anything, otherwise give the same result with \<open>q\<close> left over.
\<close>

fun resumes :: "string \<Rightarrow> http_error + ('a \<times> string) \<Rightarrow> http_error + ('a \<times> string) \<Rightarrow> bool" where
  "resumes q (Inl e) y \<longleftrightarrow> e = Need_more \<or> y = Inl e"
| "resumes q (Inr (x, r)) y \<longleftrightarrow> y = Inr (x, r @ q)"

lemma word_loop_resumes: "resumes q (word_loop ok e p) (word_loop ok e (p @ q))"
  by (induction p) (auto split: sum.splits)

lemma parse_token_resumes:
  "parse_token_to_eol p = Inl Need_more \<or>
   parse_token_to_eol (p @ q) = map_sum id (map_option (\<lambda>(t, r). (t, r @ q))) (parse_token_to_eol p)"
proof (induction p rule: parse_token_to_eol.induct)
  case (2 c s)
  show ?case
  proof (cases "is_control_char c")
    case True
    then show ?thesis
      by (cases s) simp_all
  next
    case False
    show ?thesis
      using 2 [OF False] False
      by (cases "parse_token_to_eol s" rule: sum.exhaust; cases "projr (parse_token_to_eol s)") auto
  qed
qed simp

lemma field_name_resumes: "resumes q (field_name p) (field_name (p @ q))"
  by (induction p) (auto split: sum.splits)

lemma skip_ows_append: "skip_ows p \<noteq> [] \<Longrightarrow> skip_ows (p @ q) = skip_ows p @ q"
  by (induction p) auto

lemma skip_token_append: "skip_token p \<noteq> [] \<Longrightarrow> skip_token (p @ q) = skip_token p @ q"
  by (induction p) auto

lemma ext_quoted_append:
  "ext_quoted p = Inl Need_more \<or> (\<exists>r. ext_quoted p = Inr r \<and> ext_quoted (p @ q) = Inr (r @ q))"
  by (induction p rule: ext_quoted.induct) (auto split: list.splits)


lemma trim_back_eq: "trim_back s = rev (skip_ows (rev s))"
  unfolding trim_back_def
proof (induction s rule: rev_induct)
  case (snoc c s)
  then show ?case
    by (simp add: skip_ows_rev.simps [of "s @ [c]"])
qed (simp add: skip_ows_rev.simps)

lemma length_trim_back: "length (trim_back s) \<le> length s"
  using length_skip_ows [of "rev s"] by (simp add: trim_back_eq)

lemma value_line_resumes:
  "value_line p = Inl Need_more \<or>
   value_line (p @ q) = map_sum id (\<lambda>(v, mem, r). (v, mem @ q, r @ q)) (value_line p)"
proof (cases "skip_ows p = []")
  case False
  have "length (trim_back t) \<le> length (skip_ows p)" if "parse_token_to_eol (skip_ows p) = Inr (Some (t, r))" for t r
    using parse_token_shorter [OF that] length_trim_back [of t] by linarith
  then show ?thesis
    using parse_token_resumes [of "skip_ows p" q] False
    by (cases "parse_token_to_eol (skip_ows p)")
       (auto simp: value_line_def trim_front_def skip_ows_append Let_def split: option.splits prod.splits)
qed (simp add: value_line_def trim_front_def)

lemma value_first_resumes:
  "value_first p = Inl Need_more \<or>
   value_first (p @ q) = map_sum id (\<lambda>(x, r). (map_sum (\<lambda>(v, mem). (v, mem @ q)) id x, r @ q)) (value_first p)"
proof (induction p rule: value_first.induct)
  case (1 p)
  show ?case
  proof (cases "value_line p")
    case (Inl e)
    then show ?thesis
      using value_line_resumes [of p q] by (auto simp: value_first.simps [of p] value_first.simps [of "p @ q"])
  next
    case (Inr x)
    obtain v mem r where x: "x = (v, mem, r)"
      by (cases x)
    have r: "r \<noteq> []"
      using value_line_shorter Inr x by blast
    note ih = 1 [OF Inr, OF x [symmetric] refl]
    have "value_line (p @ q) = Inr (v, mem @ q, r @ q)"
      using value_line_resumes [of p q] Inr x by auto
    then show ?thesis
      using ih Inr x r
      by (auto simp: value_first.simps [of p] value_first.simps [of "p @ q"])
  qed
qed

lemma value_fold_resumes: "resumes q (value_fold buf p) (value_fold buf (p @ q))"
proof (induction buf p rule: value_fold.induct)
  case (1 buf p)
  show ?case
  proof (cases "value_line p")
    case (Inl e)
    then show ?thesis
      using value_line_resumes [of p q] by (auto simp: value_fold.simps [of buf p] value_fold.simps [of buf "p @ q"])
  next
    case (Inr x)
    obtain v mem r where x: "x = (v, mem, r)"
      by (cases x)
    have r: "r \<noteq> []"
      using value_line_shorter Inr x by blast
    note ih = 1 [OF Inr, OF x [symmetric] refl]
    have "value_line (p @ q) = Inr (v, mem @ q, r @ q)"
      using value_line_resumes [of p q] Inr x by auto
    then show ?thesis
      using ih Inr x r
      by (auto simp: value_fold.simps [of buf p] value_fold.simps [of buf "p @ q"] Let_def)
  qed
qed


lemma parse_field_resumes:
  "case parse_field p of
     Inl e \<Rightarrow> e = Need_more \<or> parse_field (p @ q) = Inl e
   | Inr (n, v, mem, r) \<Rightarrow> \<exists>mem'. parse_field (p @ q) = Inr (n, v, mem', r @ q)"
proof (cases "field_name p")
  case (Inr x)
  obtain n r where x: "x = (n, r)"
    by (cases x)
  have name: "field_name (p @ q) = Inr (n, r @ q)"
    using field_name_resumes [of q p] Inr x by simp
  show ?thesis
  proof (cases "n = []")
    case False
    show ?thesis
    proof (cases "value_first r")
      case (Inl e)
      then show ?thesis
        using value_first_resumes [of r q] Inr x name False by (auto simp: parse_field_def)
    next
      case (Inr y)
      obtain a r' where y: "y = (a, r')"
        by (cases y)
      have "value_first (r @ q) = Inr (map_sum (\<lambda>(v, mem). (v, mem @ q)) id a, r' @ q)"
        using value_first_resumes [of r q] Inr y by simp
      then show ?thesis
        using \<open>field_name p = _\<close> x name False Inr y value_fold_resumes [of q "projr a" r']
        by (cases a; cases "value_fold (projr a) r'") (auto simp: parse_field_def)
    qed
  qed (use Inr x name in \<open>simp add: parse_field_def\<close>)
qed (use field_name_resumes [of q p] in \<open>auto simp: parse_field_def\<close>)

lemma parse_version_resumes: "resumes q (parse_version p) (parse_version (p @ q))"
  by (auto simp: parse_version_def nth_append)

lemma parse_status_resumes:
  "case parse_status p n of
     (m, Inl e) \<Rightarrow> e = Need_more \<or> parse_status (p @ q) n = (m, Inl e)
   | (m, Inr r) \<Rightarrow> parse_status (p @ q) n = (m, Inr (r @ q))"
  by (auto simp: parse_status_def nth_append Let_def)

text \<open>\<open>resumes\<close> for a parser without a result but the rest.\<close>

fun resumes_at :: "string \<Rightarrow> http_error + string \<Rightarrow> http_error + string \<Rightarrow> bool" where
  "resumes_at q (Inl e) y \<longleftrightarrow> e = Need_more \<or> y = Inl e"
| "resumes_at q (Inr r) y \<longleftrightarrow> y = Inr (r @ q)"

lemma chunk_ext_resumes: "resumes_at q (chunk_ext semi it) (chunk_ext semi (it @ q))"
proof (induction semi it rule: chunk_ext.induct)
  case (1 it)
  show ?case
  proof (cases "it = [] \<or> \<not> is_ows (hd it) \<and> hd it \<noteq> CHR '';'' \<or> skip_ows it = []")
    case True
    then show ?thesis
      by (simp only: chunk_ext.simps(1) [of it] chunk_ext.simps(1) [of "it @ q"] Let_def) auto
  next
    case False
    then have "skip_ows (it @ q) = skip_ows it @ q" "it @ q \<noteq> []" "hd (it @ q) = hd it"
      using skip_ows_append [of it q] by auto
    moreover have "resumes_at q (chunk_ext True (tl (skip_ows it))) (chunk_ext True (tl (skip_ows it) @ q))"
      if "hd (skip_ows it) = CHR '';''"
      using 1 [OF _ _ refl] that False by simp
    ultimately show ?thesis
      using False by (simp only: chunk_ext.simps(1) [of it] chunk_ext.simps(1) [of "it @ q"] Let_def) auto
  qed
next
  case (2 it)
  define i1 where "i1 = skip_ows it"
  define i2 where "i2 = skip_token (tl i1)"
  define i3 where "i3 = skip_ows i2"
  define i4 where "i4 = skip_ows (tl i3)"
  note defs = i1_def [symmetric] i2_def [symmetric] i3_def [symmetric] i4_def [symmetric]
  note ih = 2 [OF i1_def _ _ i2_def _ refl i3_def]
  have unfold: "chunk_ext True it =
     (if i1 = [] then Inl Need_more else if \<not> is_token_char (hd i1) then Inl Bad_chunk_extension
      else if i2 = [] then Inl Need_more else if i3 = [] then Inl Need_more
      else if hd i3 = CHR '';'' then chunk_ext True (tl i3)
      else if hd i3 \<noteq> CHR ''='' then (if is_ows (hd i2) then Inl Bad_chunk_extension else Inr i3)
      else if i4 = [] then Inl Need_more
      else if hd i4 \<noteq> CHR 0x22 then
        (if \<not> is_token_char (hd i4) then Inl Bad_chunk_extension
         else if skip_token (tl i4) = [] then Inl Need_more else chunk_ext False (skip_token (tl i4)))
      else (case ext_quoted (tl i4) of Inl e \<Rightarrow> Inl e | Inr it \<Rightarrow> chunk_ext False it))"
    by (simp only: chunk_ext.simps(2) [of it] Let_def defs)
  note unfold' = chunk_ext.simps(2) [of "it @ q", unfolded Let_def]
  show ?case
  proof (cases "i1 = [] \<or> \<not> is_token_char (hd i1) \<or> i2 = [] \<or> i3 = []")
    case True
    show ?thesis
    proof (cases "i1 \<noteq> [] \<and> \<not> is_token_char (hd i1)")
      case bad: True
      then have "skip_ows (it @ q) = i1 @ q" "hd (i1 @ q) = hd i1" "i1 @ q \<noteq> []"
        using skip_ows_append [of it q, folded i1_def] by auto
      then show ?thesis
        using bad unfolding unfold unfold' by simp
    next
      case False
      then have "chunk_ext True it = Inl Need_more"
        using True unfolding unfold by auto
      then show ?thesis
        by simp
    qed
  next
    case False
    then have q: "skip_ows (it @ q) = i1 @ q" "tl (i1 @ q) = tl i1 @ q" "hd (i1 @ q) = hd i1" "i1 @ q \<noteq> []"
        "skip_token (tl i1 @ q) = i2 @ q" "skip_ows (i2 @ q) = i3 @ q" "tl (i3 @ q) = tl i3 @ q"
        "hd (i3 @ q) = hd i3" "hd (i2 @ q) = hd i2" "i2 @ q \<noteq> []" "i3 @ q \<noteq> []"
      using skip_ows_append [of it q] skip_token_append [of "tl i1" q] skip_ows_append [of i2 q] defs by auto
    note step = unfold' [unfolded q]
    show ?thesis
    proof (cases "hd i3 = CHR '';'' \<or> hd i3 \<noteq> CHR ''='' \<or> i4 = []")
      case True
      have "resumes_at q (chunk_ext True (tl i3)) (chunk_ext True (tl i3 @ q))" if "hd i3 = CHR '';''"
        using ih(1) [OF _ _ _ _ that] False by simp
      then show ?thesis
        using False True unfolding unfold step by (cases "hd i3 = CHR '';''"; cases "hd i3 = CHR ''=''") auto
    next
      case val: False
      then have r: "skip_ows (tl i3 @ q) = i4 @ q" "hd (i4 @ q) = hd i4" "tl (i4 @ q) = tl i4 @ q" "i4 @ q \<noteq> []"
        using skip_ows_append [of "tl i3" q, folded i4_def] by auto
      consider "hd i4 \<noteq> CHR 0x22" "\<not> is_token_char (hd i4) \<or> skip_token (tl i4) = []"
        | "hd i4 \<noteq> CHR 0x22" "is_token_char (hd i4)" "skip_token (tl i4) \<noteq> []" | "hd i4 = CHR 0x22"
        by blast
      then show ?thesis
      proof cases
        case 1
        then show ?thesis
          using False val unfolding unfold step r by auto
      next
        case 2
        then have "resumes_at q (chunk_ext False (skip_token (tl i4))) (chunk_ext False (skip_token (tl i4) @ q))"
          using ih(2) [OF _ _ _ _ _ _ i4_def _ _ _ refl] False val by simp
        then show ?thesis
          using 2 False val skip_token_append [of "tl i4" q] unfolding unfold step r by simp
      next
        case 3
        have "resumes_at q (chunk_ext False x) (chunk_ext False (x @ q))" if "ext_quoted (tl i4) = Inr x" for x
          using ih(3) [OF _ _ _ _ _ _ i4_def] False val 3 that by simp
        then show ?thesis
          using 3 False val ext_quoted_append [of "tl i4" q] unfolding unfold step r by auto
      qed
    qed
  qed
qed

lemma resumes_method: "resumes q (parse_method p) (parse_method (p @ q))"
  and resumes_target: "resumes q (parse_target p) (parse_target (p @ q))"
  and resumes_reason: "resumes q (parse_reason p) (parse_reason (p @ q))"
proof -
  show "resumes q (parse_method p) (parse_method (p @ q))"
    using word_loop_resumes [of q is_token_char Bad_method p]
    by (cases "word_loop is_token_char Bad_method p") (auto simp: parse_method_def)
  show "resumes q (parse_target p) (parse_target (p @ q))"
    using word_loop_resumes [of q is_pathchar Bad_target p]
    by (cases "word_loop is_pathchar Bad_target p") (auto simp: parse_target_def)
  show "resumes q (parse_reason p) (parse_reason (p @ q))"
    using parse_token_resumes [of p q]
    by (cases "parse_token_to_eol p") (auto simp: parse_reason_def split: option.splits)
qed

text \<open>
  C20: no parser of an element depends on how the input arrives.  Whatever bytes \<open>q\<close>
  follow the input \<open>p\<close>, an error other than \<open>Need_more\<close> stays that error and a
  result stays that result with \<open>q\<close> left over: for the method, the target, the version,
  the status code (and the number stored so far), the reason, a field with its folded lines,
  and the extensions of a chunk.
\<close>

theorem elements_resume:
  "resumes q (parse_method p) (parse_method (p @ q)) \<and>
   resumes q (parse_target p) (parse_target (p @ q)) \<and>
   resumes q (parse_version p) (parse_version (p @ q)) \<and>
   (\<lambda>(m, y) (m', y'). y = Inl Need_more \<or> m = m' \<and> resumes_at q y y') (parse_status p n) (parse_status (p @ q) n) \<and>
   resumes q (parse_reason p) (parse_reason (p @ q)) \<and>
   (let strip = map_sum id (\<lambda>(name, value, mem, r). ((name, value), r)) in
    resumes q (strip (parse_field p)) (strip (parse_field (p @ q)))) \<and>
   resumes_at q (parse_chunk_extensions p) (parse_chunk_extensions (p @ q))"
proof (intro conjI)
  show "resumes q (parse_method p) (parse_method (p @ q))"
    by (rule resumes_method)
  show "resumes q (parse_target p) (parse_target (p @ q))"
    by (rule resumes_target)
  show "resumes q (parse_version p) (parse_version (p @ q))"
    by (rule parse_version_resumes)
  show "(\<lambda>(m, y) (m', y'). y = Inl Need_more \<or> m = m' \<and> resumes_at q y y') (parse_status p n) (parse_status (p @ q) n)"
    using parse_status_resumes [where p = p and n = n and q = q] by (auto split: prod.splits sum.splits)
  show "resumes q (parse_reason p) (parse_reason (p @ q))"
    by (rule resumes_reason)
  show "let strip = map_sum id (\<lambda>(name, value, mem, r). ((name, value), r)) in
    resumes q (strip (parse_field p)) (strip (parse_field (p @ q)))"
    using parse_field_resumes [of p q] by (cases "parse_field p") (auto simp: Let_def)
  show "resumes_at q (parse_chunk_extensions p) (parse_chunk_extensions (p @ q))"
    unfolding parse_chunk_extensions_def by (rule chunk_ext_resumes)
qed


section \<open>Numbers as they are read\<close>

definition hex_value :: "string \<Rightarrow> nat" where
  "hex_value = foldl (\<lambda>v c. 16 * v + nat (unhex c)) 0"

lemma digit_value_bound: "is_digit c \<Longrightarrow> uchar c - 48 < 10"
  by (auto simp: is_digit_iff digit_code_def)

lemma dec_loop_correct:
  assumes "m = v" "m < 18446744073709551610" "mem \<noteq> []" "\<not> is_digit (hd mem)" "n = int (length s)"
  shows "dec_loop (of_nat v) (s @ mem) n =
    Some (if list_all is_digit s \<and> foldl (\<lambda>v c. 10 * v + (uchar c - 48)) m s < 18446744073709551610
          then Some (of_nat (foldl (\<lambda>v c. 10 * v + (uchar c - 48)) m s)) else None)"
  using assms
proof (induction s arbitrary: v m n)
  case Nil
  then show ?case
    by (cases mem) simp_all
next
  case (Cons c s)
  show ?case
  proof (cases "is_digit c")
    case digit: True
    have gt: "of_nat v > (- 1 - 10) div (10 :: u64) \<longleftrightarrow> 1844674407370955160 < v"
      using Cons.prems by (simp add: word_less_nat_alt unat_of_nat)
    show ?thesis
    proof (cases "1844674407370955160 < v")
      case True
      then have "18446744073709551610 \<le> 10 * v + (uchar c - 48)"
        by linarith
      then have "18446744073709551610 \<le> foldl (\<lambda>v c. 10 * v + (uchar c - 48)) (10 * v + (uchar c - 48)) s"
        by (rule order_trans [OF _ foldl_dec_mono])
      then show ?thesis
        using True gt digit Cons.prems by simp
    next
      case False
      have small: "10 * v + (uchar c - 48) < 18446744073709551610"
        using False digit_value_bound [OF digit] by linarith
      have "dec_loop (of_nat v) ((c # s) @ mem) n = dec_loop (of_nat (10 * v + (uchar c - 48))) (s @ mem) (n - 1)"
        using False gt digit by (simp add: digit_value_def)
      then show ?thesis
        using Cons.IH [OF refl small] Cons.prems digit by simp
    qed
  qed (use Cons.prems in simp)
qed

lemma parse_dec_eq:
  assumes "mem \<noteq> []" "\<not> is_digit (hd mem)"
  shows "parse_dec s mem = Some
    (if s \<noteq> [] \<and> list_all is_digit s \<and> dec_value s < 18446744073709551610
     then Some (of_nat (dec_value s)) else None)"
proof (cases s)
  case Nil
  then show ?thesis
    using assms by (cases mem) (simp_all add: parse_dec_def)
next
  case (Cons c t)
  have "dec_loop (of_nat (uchar c - 48)) (t @ mem) (int (length t)) = Some
      (if list_all is_digit t \<and> dec_value s < 18446744073709551610 then Some (of_nat (dec_value s)) else None)"
    if "is_digit c"
    unfolding Cons using dec_loop_correct [OF refl _ assms refl, of "uchar c - 48" t] digit_value_bound [OF that]
    by (simp add: dec_value_def)
  then show ?thesis
    by (simp add: Cons parse_dec_def digit_value_def)
qed

text \<open>
  \<open>parse_dec\<close> accepts exactly the non-empty runs of digits with a value below
  18446744073709551610 and returns that value; leading zeros do not count.  It refuses the six
  values from there to the largest one of 64 bits, and it needs a character that is no digit
  after the view it is given.
\<close>

theorem parse_dec_exact:
  assumes "mem \<noteq> []" "\<not> is_digit (hd mem)"
  shows "parse_dec s mem = Some
    (if s \<noteq> [] \<and> list_all is_digit s \<and> dec_value s < 18446744073709551610
     then Some (of_nat (dec_value s)) else None)"
  by (rule parse_dec_eq [OF assms])

theorem parse_dec_exact_witness:
  "parse_dec ''18446744073709551609'' [CR] = Some (Some 18446744073709551609) \<and>
   parse_dec ''18446744073709551610'' [CR] = Some None"
  using parse_dec_exact [of "[CR]" "''18446744073709551609''"] parse_dec_exact [of "[CR]" "''18446744073709551610''"]
  by (simp add: dec_value_def is_digit_iff digit_code_def uchar_def)


lemma unhex_digit:
  "unhex c \<noteq> -1 \<Longrightarrow> hex_digit c = Some (nat (unhex c)) \<and> nat (unhex c) < 16"
  using hex_code_range [of "uchar c"] by (auto simp: hex_digit_eq unhex_eq)

lemma hex_loop_correct:
  assumes "list_all (\<lambda>c. unhex c \<noteq> -1) s" "rest \<noteq> []" "hex_digit (hd rest) = None" "v < 16 ^ k" "k + length s \<le> 16"
  shows "hex_loop (of_nat v) (s @ rest) = Some (Some (of_nat (foldl (\<lambda>v c. 16 * v + nat (unhex c)) v s), rest))"
  using assms
proof (induction s arbitrary: v k)
  case Nil
  then show ?case
    by (cases rest) simp_all
next
  case (Cons c s)
  define d where "d = nat (unhex c)"
  have d: "hex_digit c = Some d" "d < 16"
    using unhex_digit [of c] Cons.prems by (simp_all add: d_def)
  have less: "16 * v + d < 16 ^ Suc k"
    using Cons.prems d by simp
  also have "... \<le> 16 ^ 16"
    using Cons.prems by (intro power_increasing) simp_all
  finally have bound: "16 * v + d < 16 ^ 16" .
  have "unat (of_nat (16 * v + d) :: u64) = 16 * v + d" "unat (of_nat v :: u64) = v"
    using bound by (simp_all only: unat_of_nat) simp_all
  then have "\<not> of_nat (16 * v + d) < (of_nat v :: u64)"
    by (simp only: word_less_nat_alt)
  moreover have "16 * of_nat v + of_nat d = (of_nat (16 * v + d) :: u64)"
    by simp
  ultimately have "hex_loop (of_nat v) ((c # s) @ rest) = hex_loop (of_nat (16 * v + d)) (s @ rest)"
    by (simp only: append_Cons hex_loop.simps d option.case Let_def if_False)
  then show ?case
    using Cons.IH [OF _ _ _ less] Cons.prems by (simp add: d_def)
qed

lemma parse_hex_eq:
  assumes "list_all (\<lambda>c. unhex c \<noteq> -1) s" "s \<noteq> []" "length s \<le> 16" "rest \<noteq> []" "hex_digit (hd rest) = None"
  shows "parse_hex (s @ rest) = Some (Some (of_nat (hex_value s), rest))"
proof (cases s)
  case (Cons c t)
  have "hex_loop (of_nat (nat (unhex c))) (t @ rest) =
      Some (Some (of_nat (foldl (\<lambda>v c. 16 * v + nat (unhex c)) (nat (unhex c)) t), rest))"
    using assms unhex_digit [of c] Cons by (intro hex_loop_correct [where k = 1]) auto
  then show ?thesis
    using assms unhex_digit [of c] by (simp add: Cons hex_value_def)
qed (use assms in simp)

text \<open>
  \<open>parse_hex\<close> reads a number of one to sixteen hexadecimal digits, of either case,
  exactly, and stops at the first character that is none.
\<close>

theorem parse_hex_exact:
  assumes "list_all (\<lambda>c. unhex c \<noteq> -1) s" "s \<noteq> []" "length s \<le> 16" "rest \<noteq> []" "hex_digit (hd rest) = None"
  shows "parse_hex (s @ rest) = Some (Some (of_nat (hex_value s), rest))"
  by (rule parse_hex_eq [OF assms])

theorem parse_hex_exact_witness:
  "parse_hex ''fFffFfffffffffff;'' = Some (Some (- 1, '';''))"
  using parse_hex_exact [of "''fFffFfffffffffff''" "'';''"]
  by (simp add: hex_value_def unhex_eq hex_code_def digit_code_def uchar_def hex_digit_eq hex_stray_def)

lemma hex_digit_ones: "hex_digit (CHR ''1'') = Some 1" "hex_digit (CHR ''0'') = Some 0" "hex_digit CR = None"
    "unhex (CHR ''1'') = 1"
  by (simp_all add: hex_digit_eq unhex_eq hex_code_def digit_code_def uchar_def hex_stray_def)

text \<open>
  More digits wrap around and are not always noticed: the test compares the value with the
  one before, so a chunk size of seventeen ones is accepted as the sixteen it ends in.
\<close>

theorem parse_hex_wraps:
  "parse_hex (''11111111111111111'' @ [CR, LF]) = Some (Some (0x1111111111111111, [CR, LF])) \<and>
   hex_value ''11111111111111111'' = 0x11111111111111111 \<and>
   parse_hex (''10000000000000000'' @ [CR, LF]) = Some None"
  by (simp add: hex_value_def hex_digit_ones)


section \<open>What a field means\<close>

text \<open>
  The value of a field as it is written: lines of blanks, text and blanks.  Every line but the
  first starts with a blank, and the line after the last does not.
\<close>

type_synonym value_part = "string \<times> string \<times> string"

definition part_ok :: "value_part \<Rightarrow> bool" where
  "part_ok = (\<lambda>(pre, v, post). list_all is_ows pre \<and> list_all is_ows post \<and>
     list_all (\<lambda>c. \<not> is_control_char c) v \<and> (v \<noteq> [] \<longrightarrow> \<not> is_ows (hd v) \<and> \<not> is_ows (last v)))"

definition part_text :: "value_part \<Rightarrow> string" where
  "part_text = (\<lambda>(pre, v, post). pre @ v @ post @ [CR, LF])"

definition value_text :: "value_part list \<Rightarrow> string" where
  "value_text ps = concat (map part_text ps)"

definition folded :: "value_part list \<Rightarrow> bool" where
  "folded ps \<longleftrightarrow> list_all part_ok ps \<and> list_all (\<lambda>(pre, _, _). pre \<noteq> []) (tl ps)"

definition texts :: "value_part list \<Rightarrow> string list" where
  "texts ps = filter (\<lambda>v. v \<noteq> []) (map (fst \<circ> snd) ps)"

definition joined :: "string list \<Rightarrow> string" where
  "joined vs = hd vs @ concat (map (Cons (CHR '' '')) (tl vs))"

lemma blank_not_control [simp]: "\<not> is_control_char (CHR '' '')" "\<not> is_control_char (CHR 0x09)"
  by (simp_all add: is_control_char_def is_print_iff uchar_def)

lemma blanks_not_control: "list_all is_ows s \<Longrightarrow> list_all (\<lambda>c. \<not> is_control_char c) s"
  by (induction s) auto

lemma CR_control [simp]: "is_control_char CR"
  by (simp add: is_control_char_def is_print_iff uchar_def)

lemma skip_ows_blanks: "list_all is_ows s \<Longrightarrow> skip_ows (s @ x) = skip_ows x"
  by (induction s) auto

lemma parse_token_text:
  "list_all (\<lambda>c. \<not> is_control_char c) t \<Longrightarrow> parse_token_to_eol (t @ CR # LF # r) = Inr (Some (t, r))"
  by (induction t) auto

lemma value_line_part:
  assumes "part_ok (pre, v, post)" "r \<noteq> []"
  obtains mem where "value_line (part_text (pre, v, post) @ r) = Inr (v, mem, r)"
proof -
  define t where "t = (if v = [] then [] else v @ post)"
  have first: "skip_ows (part_text (pre, v, post) @ r) = t @ CR # LF # r"
    using assms by (cases v) (auto simp: part_ok_def part_text_def t_def skip_ows_blanks)
  have "list_all (\<lambda>c. \<not> is_control_char c) t"
    using assms blanks_not_control [of post] by (simp add: part_ok_def t_def)
  moreover have "trim_back t = v"
  proof (cases "v = []")
    case False
    then have "skip_ows (rev v) = rev v"
      using assms by (cases v rule: rev_cases) (auto simp: part_ok_def)
    then show ?thesis
      using False assms skip_ows_blanks [of "rev post" "rev v"]
      by (simp add: trim_back_eq t_def part_ok_def list_all_iff)
  qed (simp add: t_def trim_back_eq)
  ultimately have "value_line (part_text (pre, v, post) @ r) = Inr (v, drop (length v) (t @ CR # LF # r), r)"
    using assms by (simp add: value_line_def trim_front_def first parse_token_text Let_def)
  then show thesis
    by (rule that)
qed

lemma value_text_Cons: "value_text (p # ps) = part_text p @ value_text ps"
  by (simp add: value_text_def)

lemma texts_Cons: "texts (p # ps) = (if fst (snd p) = [] then texts ps else fst (snd p) # texts ps)"
  by (simp add: texts_def)

text \<open>The next line of a folded value, after its first blank.\<close>

lemma folded_next:
  assumes "folded ((pre, v, post) # (pre', v', post') # ps)"
  shows "is_ows (hd (value_text ((pre', v', post') # ps) @ r))"
    "tl (value_text ((pre', v', post') # ps) @ r) = value_text ((tl pre', v', post') # ps) @ r"
    "folded ((tl pre', v', post') # ps)"
    "texts ((tl pre', v', post') # ps) = texts ((pre', v', post') # ps)"
    "value_text ((pre', v', post') # ps) @ r \<noteq> []"
  using assms by (cases pre'; simp add: folded_def part_ok_def value_text_Cons part_text_def texts_Cons)+

lemma value_text_first:
  assumes "folded (p # ps)" "r \<noteq> []"
  obtains mem where "value_line (value_text (p # ps) @ r) = Inr (fst (snd p), mem, value_text ps @ r)"
proof -
  obtain pre v post where p: "p = (pre, v, post)"
    by (cases p)
  show thesis
    using value_line_part [of pre v post "value_text ps @ r"] assms that
    by (auto simp: p value_text_Cons folded_def)
qed

lemma value_fold_text:
  assumes "folded ps" "ps \<noteq> []" "r \<noteq> []" "\<not> is_ows (hd r)" "length buf \<le> max_obs_fold"
  shows "value_fold buf (value_text ps @ r) =
    (let out = buf @ concat (map (Cons (CHR '' '')) (texts ps)) in
     if length out > max_obs_fold then Inl Header_limit else Inr (out, r))"
  using assms
proof (induction "length ps" arbitrary: ps buf)
  case (Suc n)
  obtain pre v post ps' where ps: "ps = (pre, v, post) # ps'"
    using Suc.prems by (cases ps) auto
  define buf' where "buf' = (if v \<noteq> [] then buf @ CHR '' '' # v else buf)"
  have out: "buf @ concat (map (Cons (CHR '' '')) (texts ps)) = buf' @ concat (map (Cons (CHR '' '')) (texts ps'))"
    by (simp add: ps texts_Cons buf'_def)
  obtain mem where line: "value_line (value_text ps @ r) = Inr (v, mem, value_text ps' @ r)"
    using value_text_first [of "(pre, v, post)" ps' r] Suc.prems ps by auto
  have step: "value_fold buf (value_text ps @ r) =
      (if length buf' > max_obs_fold then Inl Header_limit
       else if \<not> is_ows (hd (value_text ps' @ r)) then Inr (buf', value_text ps' @ r)
       else value_fold buf' (tl (value_text ps' @ r)))"
    by (simp only: value_fold.simps [of buf] line sum.case prod.case Let_def buf'_def)
  show ?case
  proof (cases "length buf' > max_obs_fold")
    case True
    then show ?thesis
      by (simp add: step out Let_def)
  next
    case fits: False
    show ?thesis
    proof (cases ps')
      case Nil
      then show ?thesis
        using Suc.prems fits step by (simp add: out Let_def value_text_def [of "[]"] texts_def [of "[]"])
    next
      case (Cons q ps'')
      obtain pre' v' post' where q: "q = (pre', v', post')"
        by (cases q)
      note next_line = folded_next [OF Suc.prems(1) [unfolded ps Cons q], folded q, folded Cons]
      have "value_fold buf' (value_text ((tl pre', v', post') # ps'') @ r) =
        (let out = buf' @ concat (map (Cons (CHR '' '')) (texts ((tl pre', v', post') # ps''))) in
         if length out > max_obs_fold then Inl Header_limit else Inr (out, r))"
        using Suc.hyps(1) [of "(tl pre', v', post') # ps''" buf'] Suc.hyps(2) Suc.prems next_line(3) fits
        by (simp add: ps Cons)
      then show ?thesis
        using fits next_line by (simp add: step out del: append_is_Nil_conv)
    qed
  qed
qed simp

lemma value_first_text:
  assumes "folded ps" "ps \<noteq> []" "r \<noteq> []" "\<not> is_ows (hd r)"
  defines "vs \<equiv> map (fst \<circ> snd) ps"
  shows "if list_all (\<lambda>v. v = []) (butlast vs) then \<exists>mem. value_first (value_text ps @ r) = Inr (Inl (last vs, mem), r)
    else \<exists>v qs. value_first (value_text ps @ r) = Inr (Inr v, value_text qs @ r) \<and>
      folded qs \<and> qs \<noteq> [] \<and> texts ps = v # texts qs"
  using assms(1-4) unfolding vs_def
proof (induction "length ps" arbitrary: ps)
  case (Suc n)
  obtain pre v post ps' where ps: "ps = (pre, v, post) # ps'"
    using Suc.prems by (cases ps) auto
  obtain mem where line: "value_line (value_text ps @ r) = Inr (v, mem, value_text ps' @ r)"
    using value_text_first [of "(pre, v, post)" ps' r] Suc.prems ps by auto
  have step: "value_first (value_text ps @ r) =
      (if \<not> is_ows (hd (value_text ps' @ r)) then Inr (Inl (v, mem), value_text ps' @ r)
       else if v \<noteq> [] then Inr (Inr v, tl (value_text ps' @ r)) else value_first (tl (value_text ps' @ r)))"
    by (simp only: value_first.simps [of "value_text ps @ r"] line sum.case prod.case)
  show ?case
  proof (cases ps')
    case Nil
    then show ?thesis
      using Suc.prems step by (simp add: ps value_text_def)
  next
    case (Cons q ps'')
    obtain pre' v' post' where q: "q = (pre', v', post')"
      by (cases q)
    let ?qs = "(tl pre', v', post') # ps''"
    note next_line = folded_next [OF Suc.prems(1) [unfolded ps Cons q], folded q, folded Cons]
    have step': "value_first (value_text ps @ r) =
        (if v \<noteq> [] then Inr (Inr v, value_text ?qs @ r) else value_first (value_text ?qs @ r))"
      using step next_line(1,2) by simp
    show ?thesis
    proof (cases "v = []")
      case True
      have "if list_all (\<lambda>v. v = []) (butlast (map (fst \<circ> snd) ?qs))
        then \<exists>mem. value_first (value_text ?qs @ r) = Inr (Inl (last (map (fst \<circ> snd) ?qs), mem), r)
        else \<exists>v qs. value_first (value_text ?qs @ r) = Inr (Inr v, value_text qs @ r) \<and>
          folded qs \<and> qs \<noteq> [] \<and> texts ?qs = v # texts qs"
        using Suc.hyps(2) Suc.prems next_line(3) by (intro Suc.hyps(1)) (auto simp: ps Cons)
      moreover have "butlast (map (fst \<circ> snd) ps) = [] # butlast (map (fst \<circ> snd) ?qs)"
          "last (map (fst \<circ> snd) ps) = last (map (fst \<circ> snd) ?qs)" "texts ps = texts ?qs"
        using True next_line(4) by (simp_all add: ps Cons q texts_Cons)
      ultimately show ?thesis
        using True step' by (simp only: list.pred_inject simp_thms if_False)
    next
      case False
      then show ?thesis
        using next_line(3,4) step' by (auto simp: ps Cons q texts_Cons intro!: exI [of _ ?qs])
    qed
  qed
qed simp

lemma field_name_text:
  "list_all is_token_char n \<Longrightarrow> field_name (n @ CHR '':'' # r) = Inr (n, r)"
  by (induction n) (auto simp: field_token_iff token_char_iff tchar_code_def digit_code_def alpha_code_def uchar_def)

lemma parse_field_text:
  assumes "name \<noteq> []" "list_all is_token_char name" "folded ps" "ps \<noteq> []" "r \<noteq> []" "\<not> is_ows (hd r)"
  defines "vs \<equiv> map (fst \<circ> snd) ps"
  shows "map_sum id (\<lambda>(n, v, mem, rest). (n, v, rest)) (parse_field (name @ CHR '':'' # value_text ps @ r)) =
    (if list_all (\<lambda>v. v = []) (butlast vs) then Inr (name, last vs, r)
     else if length (hd (texts ps)) > 4096 then Inl Length_error_thrown
     else if length (joined (texts ps)) > 4096 then Inl Header_limit
     else Inr (name, joined (texts ps), r))"
proof (cases "list_all (\<lambda>v. v = []) (butlast vs)")
  case True
  then obtain mem where "value_first (value_text ps @ r) = Inr (Inl (last vs, mem), r)"
    using value_first_text [OF assms(3-6)] by (auto simp: vs_def)
  then show ?thesis
    using True assms by (simp add: parse_field_def field_name_text)
next
  case False
  then obtain v qs where qs: "value_first (value_text ps @ r) = Inr (Inr v, value_text qs @ r)"
      "folded qs" "qs \<noteq> []" and texts: "texts ps = v # texts qs"
    using value_first_text [OF assms(3-6)] by (auto simp: vs_def)
  have out: "joined (texts ps) = v @ concat (map (Cons (CHR '' '')) (texts qs))"
    by (simp add: texts joined_def)
  have parse: "parse_field (name @ CHR '':'' # value_text ps @ r) =
      (if length v > max_obs_fold then Inl Length_error_thrown
       else case value_fold v (value_text qs @ r) of
           Inl e \<Rightarrow> Inl e
         | Inr (buf, r) \<Rightarrow> Inr (name, buf, [char_of (0 :: nat)], r))"
    using assms qs by (simp add: parse_field_def field_name_text)
  show ?thesis
    using False assms value_fold_text [OF qs(2,3) assms(5,6), of v]
    by (simp only: parse out) (simp add: texts max_obs_fold_def Let_def)
qed

text \<open>
  What follows a value in memory is there and does not start with a digit, so reading a number
  from a value ends.
\<close>

lemma skip_ows_split: "\<exists>b. s = b @ skip_ows s \<and> list_all is_ows b"
proof (induction s)
  case (Cons c s)
  then obtain b where "s = b @ skip_ows s" "list_all is_ows b"
    by blast
  then show ?case
    by (cases "is_ows c") (auto intro: exI [of _ "c # b"] exI [of _ "[]"])
qed simp

lemma trim_back_split: "\<exists>b. s = trim_back s @ b \<and> list_all is_ows b"
proof -
  obtain b where "rev s = b @ skip_ows (rev s)" "list_all is_ows b"
    using skip_ows_split by blast
  then have "s = trim_back s @ rev b \<and> list_all is_ows (rev b)"
    by (metis list_all_rev rev_append rev_rev_ident trim_back_eq)
  then show ?thesis
    by blast
qed

definition not_digit_next :: "string \<Rightarrow> bool" where
  "not_digit_next mem \<longleftrightarrow> mem \<noteq> [] \<and> \<not> is_digit (hd mem)"

lemma value_line_mem: "value_line p = Inr (v, mem, r) \<Longrightarrow> not_digit_next mem"
proof -
  assume a: "value_line p = Inr (v, mem, r)"
  then obtain t where t: "parse_token_to_eol (skip_ows p) = Inr (Some (t, r))" "v = trim_back t"
      "mem = drop (length v) (skip_ows p)"
    by (auto simp: value_line_def trim_front_def Let_def split: if_splits sum.splits option.splits)
  obtain b where b: "t = trim_back t @ b" "list_all is_ows b"
    using trim_back_split by blast
  have "skip_ows p = v @ b @ CR # LF # r"
    using parse_token_eq [OF t(1)] b(1) t(2) by (metis append.assoc)
  then have "mem = b @ CR # LF # r"
    using t(3) by simp
  then show ?thesis
    using b(2) by (cases b) (auto simp: not_digit_next_def is_digit_iff digit_code_def uchar_def)
qed

lemma value_first_mem: "value_first p = Inr (Inl (v, mem), r) \<Longrightarrow> not_digit_next mem"
proof (induction p rule: value_first.induct)
  case (1 p)
  obtain v1 mem1 r1 where line: "value_line p = Inr (v1, mem1, r1)"
    using 1(2) by (cases "value_line p") (auto simp: value_first.simps [of p])
  then show ?case
    using 1(1) [OF line refl refl] 1(2) value_line_mem [OF line]
    by (cases "is_ows (hd r1) \<and> v1 = []") (auto simp: value_first.simps [of p] split: if_splits)
qed

lemma parse_field_mem: "parse_field p = Inr (n, v, mem, r) \<Longrightarrow> not_digit_next mem"
  by (auto simp: parse_field_def not_digit_next_def [of "[char_of 0]"] is_digit_iff digit_code_def uchar_def
      dest: value_first_mem split: sum.splits prod.splits if_splits)

text \<open>
  C15: what \<open>parse_field\<close> makes of a field written as RFC 7230 writes one, with blanks
  around the value and obsolete line folding.  The value is the text of the lines without the
  blanks at their ends, empty lines dropped and the others joined by one blank.  A value that
  needs joining has to fit into 4096 characters: otherwise the field is an error, and if the
  first line alone is longer, the exception of the buffer leaves the call.
\<close>

theorem parse_field_value:
  assumes "name \<noteq> []" "list_all is_token_char name" "folded ps" "ps \<noteq> []" "r \<noteq> []" "\<not> is_ows (hd r)"
  defines "vs \<equiv> map (fst \<circ> snd) ps"
  shows "map_sum id (\<lambda>(n, v, mem, rest). (n, v, rest)) (parse_field (name @ CHR '':'' # value_text ps @ r)) =
    (if list_all (\<lambda>v. v = []) (butlast vs) then Inr (name, last vs, r)
     else if length (hd (texts ps)) > 4096 then Inl Length_error_thrown
     else if length (joined (texts ps)) > 4096 then Inl Header_limit
     else Inr (name, joined (texts ps), r))"
  unfolding vs_def by (rule parse_field_text [OF assms(1-6)])

theorem parse_field_value_witness:
  "map_sum id (\<lambda>(n, v, mem, rest). (n, v, rest))
     (parse_field (''Via:'' @ [CHR 0x09, CR, LF, CHR 0x09] @ ''a b '' @ [CR, LF] @ ''  c'' @ [CR, LF, CR, LF])) =
   Inr (''Via'', ''a b c'', [CR, LF])"
  using parse_field_value [of "''Via''" "[([CHR 0x09], [], []), ([CHR 0x09], ''a b'', '' ''), (''  '', ''c'', [])]" "[CR, LF]"]
  by (simp add: folded_def part_ok_def value_text_def part_text_def texts_def joined_def is_control_char_def
      is_print_iff uchar_def token_char_iff tchar_code_def alpha_code_def digit_code_def)

end
