(* ===== verification/Http_Parser.thy ===== *)
theory Http_Parser
  imports Http_Parser_Base Varint
begin

text \<open>
  \<open>basic_parser\<close> (\<open>beast/http/basic_parser.hpp\<close>,
  \<open>beast/http/impl/basic_parser.ipp\<close>): the incremental parser of a message.  The class
  a parser is derived from it by (\<open>impl()\<close>) is a parameter, a record of its callbacks over
  its state \<open>'d\<close>; a callback takes and returns the error code it is given by reference.
  The input from \<open>p\<close> to \<open>p1\<close> is a string.
\<close>

type_synonym ec = "http_error option"

datatype pstate = Nothing_yet | Start_line | Fields | Body0 | Body | Body_to_eof0 | Body_to_eof
  | Chunk_header0 | Chunk_header | Chunk_body | Complete

text \<open>The bits of \<open>f_\<close>.\<close>

datatype flag = SkipBody | Eager | GotSome | HasBody | HTTP11 | NeedEOF | ExpectCRLF | ConnectionClose
  | ConnectionUpgrade | ConnectionKeepAlive | ContentLength | Chunked | Upgrade | FinalChunk

text \<open>
  The members; \<open>derived\<close> is the rest of the object, and \<open>buf_len_\<close> the length of
  \<open>buf\<close>.
\<close>

record 'd parser =
  body_limit :: u64
  len :: u64
  buf :: string
  skip :: nat
  header_limit :: nat
  status :: nat
  state :: pstate
  flags :: "flag set"
  derived :: 'd

record 'd impl =
  on_request :: "verb \<times> string \<times> string \<times> nat \<Rightarrow> 'd \<Rightarrow> ec \<Rightarrow> 'd \<times> ec"
  on_response :: "nat \<times> string \<times> nat \<Rightarrow> 'd \<Rightarrow> ec \<Rightarrow> 'd \<times> ec"
  on_field :: "field \<times> string \<times> string \<Rightarrow> 'd \<Rightarrow> ec \<Rightarrow> 'd \<times> ec"
  on_header :: "'d \<Rightarrow> ec \<Rightarrow> 'd \<times> ec"
  on_body_init :: "u64 option \<Rightarrow> 'd \<Rightarrow> ec \<Rightarrow> 'd \<times> ec"
  on_body :: "string \<Rightarrow> 'd \<Rightarrow> ec \<Rightarrow> nat \<times> 'd \<times> ec"
  on_chunk_header :: "u64 \<times> string \<Rightarrow> 'd \<Rightarrow> ec \<Rightarrow> 'd \<times> ec"
  on_chunk_body :: "u64 \<times> string \<Rightarrow> 'd \<Rightarrow> ec \<Rightarrow> nat \<times> 'd \<times> ec"
  on_finish :: "'d \<Rightarrow> ec \<Rightarrow> 'd \<times> ec"

definition default_body_limit :: "bool \<Rightarrow> u64" where
  "default_body_limit is_request = (if is_request then 1 * 1024 * 1024 else 8 * 1024 * 1024)"

definition basic_parser :: "bool \<Rightarrow> 'd \<Rightarrow> 'd parser" where
  "basic_parser is_request d =
     \<lparr>body_limit = default_body_limit is_request, len = 0, buf = [], skip = 0, header_limit = 8192,
      status = 0, state = Nothing_yet, flags = {}, derived = d\<rparr>"

section \<open>Observers and options\<close>

definition got_some :: "'d parser \<Rightarrow> bool" where
  "got_some st \<longleftrightarrow> state st \<noteq> Nothing_yet"

definition is_done :: "'d parser \<Rightarrow> bool" where
  "is_done st \<longleftrightarrow> state st = Complete"

definition is_header_done :: "'d parser \<Rightarrow> bool" where
  "is_header_done st \<longleftrightarrow> state st \<notin> {Nothing_yet, Start_line, Fields}"

definition upgrade :: "'d parser \<Rightarrow> bool" where
  "upgrade st \<longleftrightarrow> ConnectionUpgrade \<in> flags st"

definition chunked :: "'d parser \<Rightarrow> bool" where
  "chunked st \<longleftrightarrow> Chunked \<in> flags st"

definition keep_alive :: "'d parser \<Rightarrow> bool" where
  "keep_alive st \<longleftrightarrow>
     (if HTTP11 \<in> flags st then (if ConnectionClose \<in> flags st then False else NeedEOF \<notin> flags st)
      else if ConnectionKeepAlive \<notin> flags st then False else NeedEOF \<notin> flags st)"

definition content_length :: "'d parser \<Rightarrow> u64 option" where
  "content_length st = (if ContentLength \<notin> flags st then None else Some (len st))"

definition need_eof :: "'d parser \<Rightarrow> bool" where
  "need_eof st \<longleftrightarrow> NeedEOF \<in> flags st"

definition set_body_limit :: "u64 \<Rightarrow> 'd parser \<Rightarrow> 'd parser" where
  "set_body_limit v st = st\<lparr>body_limit := v\<rparr>"

definition set_header_limit :: "nat \<Rightarrow> 'd parser \<Rightarrow> 'd parser" where
  "set_header_limit v st = st\<lparr>header_limit := v\<rparr>"

definition eager :: "'d parser \<Rightarrow> bool" where
  "eager st \<longleftrightarrow> Eager \<in> flags st"

definition set_eager :: "bool \<Rightarrow> 'd parser \<Rightarrow> 'd parser" where
  "set_eager v st = st\<lparr>flags := if v then insert Eager (flags st) else flags st - {Eager}\<rparr>"

definition get_skip :: "'d parser \<Rightarrow> bool" where
  "get_skip st \<longleftrightarrow> SkipBody \<in> flags st"

definition set_skip :: "bool \<Rightarrow> 'd parser \<Rightarrow> 'd parser" where
  "set_skip v st = st\<lparr>flags := if v then insert SkipBody (flags st) else flags st - {SkipBody}\<rparr>"

abbreviation set_flag :: "flag \<Rightarrow> 'd parser \<Rightarrow> 'd parser" where
  "set_flag x st \<equiv> st\<lparr>flags := insert x (flags st)\<rparr>"

section \<open>The header\<close>

definition maybe_need_more :: "'d parser \<Rightarrow> string \<Rightarrow> ec \<Rightarrow> ec \<times> 'd parser" where
  "maybe_need_more st p ec =
     (if skip st = 0 then (ec, st)
      else let n = min (length p) (header_limit st) in
        if n < skip st + 4 then (Some Need_more, st)
        else case find_eom (drop (skip st) (take n p)) of
            None \<Rightarrow>
              let st = st\<lparr>skip := n - 3\<rparr> in
              if skip st + 4 > header_limit st then (Some Header_limit, st) else (Some Need_more, st)
          | Some _ \<Rightarrow> (ec, st\<lparr>skip := 0\<rparr>))"

text \<open>
  A start line from the view \<open>p\<close> up to \<open>last\<close>; the third component is \<open>in\<close>.
  The view of the method has the blank after it in memory.
\<close>

definition parse_request_line :: "'d impl \<Rightarrow> 'd parser \<Rightarrow> string \<Rightarrow> ec \<times> 'd parser \<times> string" where
  "parse_request_line I st p =
     (case parse_method p of
        Inl e \<Rightarrow> (Some e, st, p)
      | Inr (method, p1) \<Rightarrow>
          (case parse_target p1 of
             Inl e \<Rightarrow> (Some e, st, p)
           | Inr (target, p2) \<Rightarrow>
               (case parse_version p2 of
                  Inl e \<Rightarrow> (Some e, st, p)
                | Inr (version, p3) \<Rightarrow>
                    if version < 10 \<or> version > 11 then (Some Bad_version, st, p)
                    else if length p3 < 2 then (Some Need_more, st, p)
                    else if p3 ! 0 \<noteq> CR \<or> p3 ! 1 \<noteq> LF then (Some Bad_version, st, p)
                    else
                      let st = (if version \<ge> 11 then set_flag HTTP11 st else st);
                          v = the (string_to_verb method (CHR '' '' # p1));
                          (d, ec) = on_request I (v, method, target, version) (derived st) None;
                          st = st\<lparr>derived := d\<rparr>
                      in if ec \<noteq> None then (ec, st, p) else (None, st\<lparr>state := Fields\<rparr>, drop 2 p3))))"

definition parse_status_line :: "'d impl \<Rightarrow> 'd parser \<Rightarrow> string \<Rightarrow> ec \<times> 'd parser \<times> string" where
  "parse_status_line I st p =
     (case parse_version p of
        Inl e \<Rightarrow> (Some e, st, p)
      | Inr (version, p1) \<Rightarrow>
          if version < 10 \<or> version > 11 then (Some Bad_version, st, p)
          else (case p1 of
              [] \<Rightarrow> (Some Need_more, st, p)
            | c # p2 \<Rightarrow>
                if c \<noteq> CHR '' '' then (Some Bad_version, st, p)
                else
                  (case parse_status p2 (status st) of
                     (s, Inl e) \<Rightarrow> (Some e, st\<lparr>status := s\<rparr>, p)
                   | (s, Inr p3) \<Rightarrow>
                       let st = st\<lparr>status := s\<rparr> in
                       (case parse_reason p3 of
                         Inl e \<Rightarrow> (Some e, st, p)
                       | Inr (reason, p4) \<Rightarrow>
                           let st = (if version \<ge> 11 then set_flag HTTP11 st else st);
                               (d, ec) = on_response I (status st, reason, version) (derived st) None;
                               st = st\<lparr>derived := d\<rparr>
                           in if ec \<noteq> None then (ec, st, p) else (None, st\<lparr>state := Fields\<rparr>, p4)))))"

text \<open>
  \<open>do_field\<close> of a value with what follows it in memory.  The lists are read as the
  iterators visit them; \<open>std::next(p) != v.end()\<close> says that the token is not the last.
\<close>

fun connection_tokens :: "string list \<Rightarrow> flag set \<Rightarrow> flag set" where
  "connection_tokens [] f = f"
| "connection_tokens (s # ss) f =
     connection_tokens ss
       (if iequals ''close'' s then insert ConnectionClose f
        else if iequals ''keep-alive'' s then insert ConnectionKeepAlive f
        else if iequals ''upgrade'' s then insert ConnectionUpgrade f
        else f)"

definition do_field :: "field \<Rightarrow> string \<Rightarrow> string \<Rightarrow> 'd parser \<Rightarrow> ec \<times> 'd parser" where
  "do_field f value mem st =
     (if f = field_connection \<or> f = field_proxy_connection then
        (if \<not> validate_list value then (Some Bad_value, st)
         else (None, st\<lparr>flags := connection_tokens (opt_tokens value) (flags st)\<rparr>))
      else if f = field_content_length then
        (if ContentLength \<in> flags st then (Some Bad_content_length, st)
         else if Chunked \<in> flags st then (Some Bad_content_length, st)
         else case the (parse_dec value mem) of
             None \<Rightarrow> (Some Bad_content_length, st)
           | Some v \<Rightarrow> (None, set_flag ContentLength (st\<lparr>len := v\<rparr>)))
      else if f = field_transfer_encoding then
        (if Chunked \<in> flags st then (Some Bad_transfer_encoding, st)
         else if ContentLength \<in> flags st then (Some Bad_transfer_encoding, st)
         else case dropWhile (\<lambda>s. \<not> iequals ''chunked'' s) (tokens value) of
             [] \<Rightarrow> (None, st)
           | s # ss \<Rightarrow> if ss \<noteq> [] then (None, st) else (None, set_flag Chunked (st\<lparr>len := 0\<rparr>)))
      else if f = field_upgrade then (None, set_flag Upgrade st)
      else (None, st))"

lemma field_name_split: "field_name p = Inr (n, r) \<Longrightarrow> p = n @ CHR '':'' # r"
  by (induction p arbitrary: n) (auto split: if_splits sum.splits)

lemma value_first_shorter: "value_first p = Inr (x, r) \<Longrightarrow> length r < length p"
proof (induction p rule: value_first.induct)
  case (1 p)
  obtain v mem r1 where line: "value_line p = Inr (v, mem, r1)"
    using 1(2) by (cases "value_line p") (auto simp: value_first.simps [of p])
  then show ?case
    using 1(1) [OF line refl refl] 1(2) value_line_shorter [OF line]
    by (cases "is_ows (hd r1) \<and> v = []") (auto simp: value_first.simps [of p] split: if_splits)
qed

lemma value_fold_shorter: "value_fold b p = Inr (x, r) \<Longrightarrow> length r < length p"
proof (induction b p rule: value_fold.induct)
  case (1 b p)
  obtain v mem r1 where line: "value_line p = Inr (v, mem, r1)"
    using 1(2) by (cases "value_line p") (auto simp: value_fold.simps [of b p])
  then show ?case
    using 1(1) [OF line refl refl refl] 1(2) value_line_shorter [OF line]
    by (cases "is_ows (hd r1)") (auto simp: value_fold.simps [of b p] Let_def split: if_splits)
qed

lemma parse_field_shorter: "parse_field p = Inr (n, v, mem, r) \<Longrightarrow> length r < length p"
  by (auto simp: parse_field_def dest!: field_name_split value_first_shorter value_fold_shorter
      split: sum.splits prod.splits if_splits)

text \<open>\<open>parse_fields\<close>, with \<open>in\<close> as the third component.\<close>

function parse_fields :: "'d impl \<Rightarrow> 'd parser \<Rightarrow> string \<Rightarrow> ec \<times> 'd parser \<times> string" where
  "parse_fields I st p =
     (if length p < 2 then (Some Need_more, st, p)
      else if p ! 0 = CR then (if p ! 1 \<noteq> LF then Some Bad_line_ending else None, st, drop 2 p)
      else case parse_field p of
          Inl e \<Rightarrow> (Some e, st, p)
        | Inr (name, value, mem, r) \<Rightarrow>
            let f = string_to_field name;
                (ec, st) = do_field f value mem st
            in if ec \<noteq> None then (ec, st, p)
               else let (d, ec) = on_field I (f, name, value) (derived st) None; st = st\<lparr>derived := d\<rparr>
                    in if ec \<noteq> None then (ec, st, p) else parse_fields I st r)"
  by auto
termination by (relation "measure (\<lambda>(I, st, p). length p)") (auto dest: parse_field_shorter)

declare parse_fields.simps [simp del]

text \<open>The two overloads of \<open>finish_header\<close> differ in when there is a body.\<close>

definition finish_message :: "'d impl \<Rightarrow> 'd parser \<Rightarrow> ec \<times> 'd parser" where
  "finish_message I st =
     (let (d, ec) = on_finish I (derived st) None in (ec, st\<lparr>derived := d\<rparr>))"

definition header_done :: "'d impl \<Rightarrow> 'd parser \<Rightarrow> ec \<times> 'd parser" where
  "header_done I st =
     (let (d, ec) = on_header I (derived st) None; st = st\<lparr>derived := d\<rparr> in
      if ec \<noteq> None then (ec, st)
      else if state st = Complete then finish_message I st
      else (None, st))"

definition finish_length :: "'d impl \<Rightarrow> 'd parser \<Rightarrow> ec \<times> 'd parser" where
  "finish_length I st =
     (if len st > body_limit st then (Some Body_limit, st)
      else if len st > 0 then header_done I ((set_flag HasBody st)\<lparr>state := Body0\<rparr>)
      else header_done I (st\<lparr>state := Complete\<rparr>))"

definition finish_header_request :: "'d impl \<Rightarrow> 'd parser \<Rightarrow> ec \<times> 'd parser" where
  "finish_header_request I st =
     (if SkipBody \<in> flags st then header_done I (st\<lparr>state := Complete\<rparr>)
      else if ContentLength \<in> flags st then finish_length I st
      else if Chunked \<in> flags st then header_done I ((set_flag HasBody st)\<lparr>state := Chunk_header0\<rparr>)
      else header_done I (st\<lparr>len := 0, state := Complete\<rparr>))"

definition finish_header_response :: "'d impl \<Rightarrow> 'd parser \<Rightarrow> ec \<times> 'd parser" where
  "finish_header_response I st =
     (if SkipBody \<in> flags st \<or> status st div 100 = 1 \<or> status st = 204 \<or> status st = 304
        then header_done I (st\<lparr>state := Complete\<rparr>)
      else if ContentLength \<in> flags st then finish_length I st
      else if Chunked \<in> flags st then header_done I ((set_flag HasBody st)\<lparr>state := Chunk_header0\<rparr>)
      else header_done I ((set_flag NeedEOF (set_flag HasBody st))\<lparr>state := Body_to_eof0\<rparr>))"

section \<open>The body\<close>

definition parse_body :: "'d impl \<Rightarrow> 'd parser \<Rightarrow> string \<Rightarrow> ec \<times> 'd parser \<times> string" where
  "parse_body I st p =
     (let (n, d, ec) = on_body I (take (unat (clamp (len st) (of_nat (length p)))) p) (derived st) None;
          st = st\<lparr>derived := d, len := len st - of_nat n\<rparr>;
          p = drop n p
      in if ec \<noteq> None then (ec, st, p)
         else if len st > 0 then (None, st, p)
         else let (ec, st) = finish_message I st
              in if ec \<noteq> None then (ec, st, p) else (None, st\<lparr>state := Complete\<rparr>, p))"

definition parse_body_to_eof :: "'d impl \<Rightarrow> 'd parser \<Rightarrow> string \<Rightarrow> ec \<times> 'd parser \<times> string" where
  "parse_body_to_eof I st p =
     (if of_nat (length p) > body_limit st then (Some Body_limit, st, p)
      else let st = st\<lparr>body_limit := body_limit st - of_nat (length p)\<rparr>;
               (n, d, ec) = on_body I p (derived st) None
           in (ec, st\<lparr>derived := d\<rparr>, drop n p))"

definition parse_chunk_body :: "'d impl \<Rightarrow> 'd parser \<Rightarrow> string \<Rightarrow> ec \<times> 'd parser \<times> string" where
  "parse_chunk_body I st p =
     (let (n, d, ec) = on_chunk_body I (len st, take (unat (clamp (len st) (of_nat (length p)))) p) (derived st) None;
          st = st\<lparr>derived := d, len := len st - of_nat n\<rparr>
      in (ec, if len st = 0 then st\<lparr>state := Chunk_header\<rparr> else st, drop n p))"

text \<open>
  The end of a chunk header: \<open>start\<close> is the input after the size, \<open>eol\<close> the one
  after the line's CRLF.  The result is the extension.
\<close>

definition chunk_extension :: "string \<Rightarrow> string \<Rightarrow> http_error + string" where
  "chunk_extension start eol =
     (case parse_chunk_extensions start of
        Inl e \<Rightarrow> Inl e
      | Inr p \<Rightarrow>
          if length p \<noteq> length eol + 2 then Inl Bad_chunk_extension
          else Inr (upto_iter start p))"

text \<open>
  The last chunk and the trailer, once the size is read.  Assertions of the code that may fail
  are tests here.
\<close>

definition parse_last_chunk ::
  "'d impl \<Rightarrow> 'd parser \<Rightarrow> string \<Rightarrow> string \<Rightarrow> string \<Rightarrow> ec \<times> 'd parser \<times> string" where
  "parse_last_chunk I st p0 p eol =
     (case find_eom (drop (skip st) p0) of
        None \<Rightarrow>
          if length p0 < 3 then (Some Assertion_failed, st, p0)
          else (Some Need_more, st\<lparr>skip := length p0 - 3\<rparr>, p0)
      | Some eom \<Rightarrow>
          (case chunk_extension p eol of
             Inl e \<Rightarrow> (Some e, st, p0)
           | Inr ext \<Rightarrow>
               let (d, ec) = on_chunk_header I (0, ext) (derived st) None; st = st\<lparr>derived := d\<rparr> in
               if ec \<noteq> None then (ec, st, p0)
               else let (ec, st, p) = parse_fields I st (take (length eol - length eom) eol) in
                 if ec \<noteq> None then (ec, st, p0)
                 else if p \<noteq> [] then (Some Assertion_failed, st, p0)
                 else let (ec, st) = finish_message I st
                   in if ec \<noteq> None then (ec, st, eom) else (None, st\<lparr>state := Complete\<rparr>, eom)))"

definition parse_chunk_header :: "'d impl \<Rightarrow> 'd parser \<Rightarrow> string \<Rightarrow> ec \<times> 'd parser \<times> string" where
  "parse_chunk_header I st p0 =
     (let crlf = (if ExpectCRLF \<in> flags st then parse_crlf p0 else Some p0) in
      if FinalChunk \<notin> flags st then
        (if length p0 < skip st + 2 then (Some Need_more, st, p0)
         else case crlf of
             None \<Rightarrow> (Some Bad_chunk, st, p0)
           | Some p \<Rightarrow>
               (case find_eol (drop (skip st) p0) of
                  Inl e \<Rightarrow> (Some e, st, p0)
                | Inr None \<Rightarrow> (Some Need_more, st\<lparr>skip := length p0 - 1\<rparr>, p0)
                | Inr (Some eol) \<Rightarrow>
                    let st = st\<lparr>skip := length p0 - (length eol + 2)\<rparr> in
                    (case the (parse_hex p) of
                       None \<Rightarrow> (Some Bad_chunk, st, p0)
                     | Some (sz, p) \<Rightarrow>
                         if sz \<noteq> 0 then
                           (if sz > body_limit st then (Some Body_limit, st, p0)
                            else let st = st\<lparr>body_limit := body_limit st - sz\<rparr> in
                              case chunk_extension p eol of
                                Inl e \<Rightarrow> (Some e, st, p0)
                              | Inr ext \<Rightarrow>
                                  let (d, ec) = on_chunk_header I (sz, ext) (derived st) None;
                                      st = st\<lparr>derived := d\<rparr>
                                  in if ec \<noteq> None then (ec, st, p0)
                                     else (None, (set_flag ExpectCRLF st)\<lparr>len := sz, skip := 2, state := Chunk_body\<rparr>, eol))
                         else parse_last_chunk I (set_flag FinalChunk st) p0 p eol)))
      else if length p0 < 5 then (Some Assertion_failed, st, p0)
      else case crlf of
          None \<Rightarrow> (Some Assertion_failed, st, p0)
        | Some p \<Rightarrow>
            (case parse_hex p of
               Some (Some (sz, p)) \<Rightarrow>
                 (case find_eol p of
                    Inr (Some eol) \<Rightarrow> parse_last_chunk I st p0 p eol
                  | _ \<Rightarrow> (Some Assertion_failed, st, p0))
             | _ \<Rightarrow> (Some Assertion_failed, st, p0)))"

section \<open>The state machine\<close>

text \<open>
  One pass through the switch of \<open>put\<close>: whether it ends with \<open>break\<close> rather
  than at \<open>done\<close>, then the error code, the parser and \<open>p\<close>.
\<close>

definition limited :: "'d parser \<Rightarrow> string \<Rightarrow> string" where
  "limited st p = take (header_limit st) p"

text \<open>What both header states do about an error: \<open>n\<close> characters were there.\<close>

definition header_error :: "'d parser \<Rightarrow> nat \<Rightarrow> ec \<Rightarrow> string \<Rightarrow> ec \<times> 'd parser" where
  "header_error st n ec p =
     (if ec = Some Need_more then
        (if n \<ge> header_limit st then (Some Header_limit, st)
         else if 3 \<le> length p then (ec, st\<lparr>skip := length p - 3\<rparr>)
         else (ec, st))
      else (ec, st))"

type_synonym 'd step = "bool \<times> ec \<times> 'd parser \<times> string"

definition step_fields :: "bool \<Rightarrow> 'd impl \<Rightarrow> ec \<Rightarrow> 'd parser \<Rightarrow> string \<Rightarrow> 'd step" where
  "step_fields is_request I ec st p =
     (case maybe_need_more st p ec of
        (Some e, st) \<Rightarrow> (False, Some e, st, p)
      | (None, st) \<Rightarrow>
          let lim = limited st p;
              (ec, st, r) = parse_fields I st lim;
              p' = drop (length lim - length r) p
          in if ec \<noteq> None then
               (let (ec, st) = header_error st (length p) ec p' in (False, ec, st, p'))
             else let (ec, st) = (if is_request then finish_header_request I st else finish_header_response I st)
               in (True, ec, st, p'))"

definition step_start_line :: "bool \<Rightarrow> 'd impl \<Rightarrow> ec \<Rightarrow> 'd parser \<Rightarrow> string \<Rightarrow> 'd step" where
  "step_start_line is_request I ec st p =
     (case maybe_need_more st p ec of
        (Some e, st) \<Rightarrow> (False, Some e, st, p)
      | (None, st) \<Rightarrow>
          let lim = limited st p;
              (ec, st, r) = (if is_request then parse_request_line I st lim else parse_status_line I st lim);
              p' = drop (length lim - length r) p
          in if ec \<noteq> None then
               (let (ec, st) = header_error st (length p) ec p' in (False, ec, st, p'))
             else if p' = [] then (False, Some Need_more, st, p')
             else step_fields is_request I None st p')"

definition body_init :: "'d impl \<Rightarrow> ec \<Rightarrow> 'd parser \<Rightarrow> ec \<times> 'd parser" where
  "body_init I ec st =
     (let (d, ec) = on_body_init I (content_length st) (derived st) ec in (ec, st\<lparr>derived := d\<rparr>))"

definition broke :: "ec \<times> 'd parser \<times> string \<Rightarrow> 'd step" where
  "broke x = (fst x = None, x)"

fun put_step :: "bool \<Rightarrow> 'd impl \<Rightarrow> ec \<Rightarrow> 'd parser \<Rightarrow> string \<Rightarrow> 'd step" where
  "put_step is_request I ec st p =
     (case state st of
        Nothing_yet \<Rightarrow>
          if p = [] then (False, Some Need_more, st, p)
          else step_start_line is_request I ec (st\<lparr>state := Start_line\<rparr>) p
      | Start_line \<Rightarrow> step_start_line is_request I ec st p
      | Fields \<Rightarrow> step_fields is_request I ec st p
      | Body0 \<Rightarrow>
          if skip st \<noteq> 0 then (False, Some Assertion_failed, st, p)
          else let (ec, st) = body_init I ec st
            in if ec \<noteq> None then (False, ec, st, p) else broke (parse_body I (st\<lparr>state := Body\<rparr>) p)
      | Body \<Rightarrow>
          if skip st \<noteq> 0 then (False, Some Assertion_failed, st, p) else broke (parse_body I st p)
      | Body_to_eof0 \<Rightarrow>
          if skip st \<noteq> 0 then (False, Some Assertion_failed, st, p)
          else let (ec, st) = body_init I ec st
            in if ec \<noteq> None then (False, ec, st, p) else broke (parse_body_to_eof I (st\<lparr>state := Body_to_eof\<rparr>) p)
      | Body_to_eof \<Rightarrow>
          if skip st \<noteq> 0 then (False, Some Assertion_failed, st, p) else broke (parse_body_to_eof I st p)
      | Chunk_header0 \<Rightarrow>
          let (ec, st) = body_init I ec st
          in if ec \<noteq> None then (False, ec, st, p) else broke (parse_chunk_header I (st\<lparr>state := Chunk_header\<rparr>) p)
      | Chunk_header \<Rightarrow> broke (parse_chunk_header I st p)
      | Chunk_body \<Rightarrow> broke (parse_chunk_body I st p)
      | Complete \<Rightarrow> (False, None, st, p))"

declare put_step.simps [simp del]

text \<open>
  The loop around it.  It goes on with the error code it has, and need not end when a callback
  takes none of the input it is offered.
\<close>

partial_function (option) put_loop ::
  "bool \<Rightarrow> 'd impl \<Rightarrow> ec \<Rightarrow> 'd parser \<Rightarrow> string \<Rightarrow> (ec \<times> 'd parser \<times> string) option" where
  "put_loop is_request I ec st p =
     (case put_step is_request I ec st p of
        (goes_on, ec, st, p) \<Rightarrow>
          if goes_on \<and> p \<noteq> [] \<and> \<not> is_done st \<and> eager st then put_loop is_request I ec st p
          else Some (ec, st, p))"

declare put_loop.simps [code]

text \<open>\<open>put\<close> of one buffer: the number of characters consumed, the error code and the parser.\<close>

definition put :: "bool \<Rightarrow> 'd impl \<Rightarrow> 'd parser \<Rightarrow> string \<Rightarrow> (nat \<times> ec \<times> 'd parser) option" where
  "put is_request I st s =
     (if state st = Complete then Some (0, Some Assertion_failed, st)
      else map_option (\<lambda>(ec, st, p). (length s - length p, ec, st)) (put_loop is_request I None st s))"

text \<open>
  \<open>put\<close> of a buffer sequence.  A longer sequence is flattened on the stack, or into
  \<open>buf\<close>, reallocated when it is too short and passed on in its whole length.
\<close>

definition max_stack_buffer :: nat where
  "max_stack_buffer = 8192"

definition put_from_stack :: "bool \<Rightarrow> 'd impl \<Rightarrow> 'd parser \<Rightarrow> string list \<Rightarrow> (nat \<times> ec \<times> 'd parser) option" where
  "put_from_stack is_request I st bs = put is_request I st (concat bs)"

definition put_buffers :: "bool \<Rightarrow> 'd impl \<Rightarrow> 'd parser \<Rightarrow> string list \<Rightarrow> (nat \<times> ec \<times> 'd parser) option" where
  "put_buffers is_request I st bs =
     (case bs of
        [] \<Rightarrow> Some (0, None, st)
      | [b] \<Rightarrow> put is_request I st b
      | _ \<Rightarrow>
          let n = length (concat bs) in
          if n \<le> max_stack_buffer then put_from_stack is_request I st bs
          else
            let mem = concat bs @ (if n > length (buf st) then [] else drop n (buf st))
            in put is_request I (st\<lparr>buf := mem\<rparr>) mem)"

text \<open>
  \<open>put_eof\<close> is called with an error code, which \<open>on_finish\<close> is passed as it is;
  \<open>read_some\<close> leaves \<open>asio::error::eof\<close> in it.
\<close>

abbreviation eof_error :: http_error where
  "eof_error \<equiv> Other_error 2"

definition put_eof :: "'d impl \<Rightarrow> ec \<Rightarrow> 'd parser \<Rightarrow> ec \<times> 'd parser" where
  "put_eof I ec st =
     (if \<not> got_some st then (Some Assertion_failed, st)
      else if state st = Start_line \<or> state st = Fields then (Some Partial_message, st)
      else if ContentLength \<in> flags st \<or> Chunked \<in> flags st then
        (if state st \<noteq> Complete then (Some Partial_message, st) else (None, st))
      else let (d, ec) = on_finish I (derived st) ec; st = st\<lparr>derived := d\<rparr>
        in if ec \<noteq> None then (ec, st) else (None, st\<lparr>state := Complete\<rparr>))"

end
