(* ===== verification/Http_Parsing.thy ===== *)
theory Http_Parsing
  imports Http_Parser
begin

text \<open>
  What the incremental parser of \<open>Http_Parser\<close> does with messages.
\<close>

section \<open>A derived class that records\<close>

datatype event = Ev_request verb string string nat | Ev_response nat string nat | Ev_field field string string
  | Ev_header | Ev_body_init "u64 option" | Ev_body string | Ev_chunk_header u64 string | Ev_chunk_body string
  | Ev_finish

definition recorder :: "event list impl" where
  "recorder =
     \<lparr>on_request = (\<lambda>(v, m, t, n) d ec. (d @ [Ev_request v m t n], None)),
      on_response = (\<lambda>(s, r, n) d ec. (d @ [Ev_response s r n], None)),
      on_field = (\<lambda>(f, n, v) d ec. (d @ [Ev_field f n v], None)),
      on_header = (\<lambda>d ec. (d @ [Ev_header], None)),
      on_body_init = (\<lambda>n d ec. (d @ [Ev_body_init n], None)),
      on_body = (\<lambda>s d ec. (length s, d @ [Ev_body s], None)),
      on_chunk_header = (\<lambda>(n, e) d ec. (d @ [Ev_chunk_header n e], None)),
      on_chunk_body = (\<lambda>(n, s) d ec. (length s, d @ [Ev_chunk_body s], None)),
      on_finish = (\<lambda>d ec. (d @ [Ev_finish], None))\<rparr>"

section \<open>Progress\<close>

text \<open>
  What the loop of \<open>put\<close> needs of a derived class: the body callbacks take no more
  than they are offered, and something of it unless they report an error.
\<close>

definition takes_some :: "'d impl \<Rightarrow> bool" where
  "takes_some I \<longleftrightarrow>
     (\<forall>s d n d' ec. on_body I s d None = (n, d', ec) \<longrightarrow> n \<le> length s \<and> (s \<noteq> [] \<longrightarrow> ec = None \<longrightarrow> 0 < n)) \<and>
     (\<forall>m s d n d' ec. on_chunk_body I (m, s) d None = (n, d', ec) \<longrightarrow> n \<le> length s \<and> (s \<noteq> [] \<longrightarrow> ec = None \<longrightarrow> 0 < n))"

lemma takes_some_recorder: "takes_some recorder"
  by (auto simp: takes_some_def recorder_def)

lemma takes_body:
  "takes_some I \<Longrightarrow> on_body I s d None = (n, d', ec) \<Longrightarrow> n \<le> length s \<and> (s \<noteq> [] \<longrightarrow> ec = None \<longrightarrow> 0 < n)"
  "takes_some I \<Longrightarrow> on_chunk_body I (m, s) d None = (n, d', ec) \<Longrightarrow> n \<le> length s \<and> (s \<noteq> [] \<longrightarrow> ec = None \<longrightarrow> 0 < n)"
  unfolding takes_some_def by blast+

lemma find_eol_split: "find_eol s = Inr (Some r) \<Longrightarrow> \<exists>t. s = t @ CR # LF # r \<and> CR \<notin> set t"
proof (induction s rule: find_eol.induct)
  case (2 c s)
  show ?case
  proof (cases "c = CR")
    case True
    then show ?thesis
      using 2(2) by (auto split: list.splits if_splits intro!: exI [of _ "[]"])
  next
    case False
    then obtain t where "s = t @ CR # LF # r" "CR \<notin> set t"
      using 2 by auto
    then show ?thesis
      using False by (intro exI [of _ "c # t"]) auto
  qed
qed simp

lemma after_first_split:
  "after_first w s = Some r \<Longrightarrow> \<exists>t. s = t @ w @ r \<and> (\<forall>i < length t. take (length w) (drop i s) \<noteq> w)"
proof (induction s)
  case (Cons c s)
  show ?case
  proof (cases "take (length w) (c # s) = w")
    case True
    then have "c # s = [] @ w @ r"
      using Cons.prems append_take_drop_id [of "length w" "c # s"] by simp
    then show ?thesis
      by (intro exI [of _ "[]"]) simp
  next
    case False
    then obtain t where t: "s = t @ w @ r" "\<forall>i < length t. take (length w) (drop i s) \<noteq> w"
      using Cons by auto
    have "take (length w) (drop i (c # s)) \<noteq> w" if "i < Suc (length t)" for i
      using t(2) False that by (cases i) auto
    then show ?thesis
      using t(1) by (intro exI [of _ "c # t"]) simp
  qed
qed (simp split: if_splits)

lemma find_eom_split:
  "find_eom s = Some r \<Longrightarrow> \<exists>t. s = t @ [CR, LF, CR, LF] @ r \<and> (\<forall>i < length t. take 4 (drop i s) \<noteq> [CR, LF, CR, LF])"
  using after_first_split [of "[CR, LF, CR, LF]" s r] by (simp add: find_eom_eq eval_nat_numeral)

text \<open>One round of the loop over the fields: it stops, or goes on after a field.\<close>

lemma parse_fields_cases:
  obtains (stop) ec st' r where "parse_fields I st p = (ec, st', r)" "r = p" "ec \<noteq> None"
  | (finish) ec where "parse_fields I st p = (ec, st, drop 2 p)" "2 \<le> length p" "p ! 0 = CR" "p ! 1 = LF \<longleftrightarrow> ec = None"
  | (field) name v mem r1 st1 d where "2 \<le> length p" "p ! 0 \<noteq> CR" "parse_field p = Inr (name, v, mem, r1)"
      "do_field (string_to_field name) v mem st = (None, st1)"
      "on_field I (string_to_field name, name, v) (derived st1) None = (d, None)"
      "parse_fields I st p = parse_fields I (st1\<lparr>derived := d\<rparr>) r1"
proof (cases "length p < 2 \<or> p ! 0 = CR")
  case True
  then show thesis
    using stop [of "Some Need_more" st p] finish [of "if p ! 1 \<noteq> LF then Some Bad_line_ending else None"]
    by (cases "length p < 2") (auto simp: parse_fields.simps [of I st p])
next
  case f: False
  show thesis
  proof (cases "parse_field p")
    case (Inl e)
    then show thesis
      using f stop [OF _ refl, of "Some e" st] by (simp add: parse_fields.simps [of I st p])
  next
    case (Inr x)
    obtain name v mem r1 where x: "parse_field p = Inr (name, v, mem, r1)"
      using Inr by (cases x) auto
    obtain ec1 st1 where d: "do_field (string_to_field name) v mem st = (ec1, st1)"
      by (cases "do_field (string_to_field name) v mem st")
    obtain d2 ec2 where o: "on_field I (string_to_field name, name, v) (derived st1) None = (d2, ec2)"
      by (cases "on_field I (string_to_field name, name, v) (derived st1) None")
    show thesis
      using f x d o stop field by (cases ec1; cases ec2) (simp_all add: parse_fields.simps [of I st p])
  qed
qed

lemma parse_fields_shorter:
  "parse_fields I st p = (ec, st', r) \<Longrightarrow> length r \<le> length p \<and> (ec = None \<longrightarrow> length r + 2 \<le> length p)"
proof (induction "length p" arbitrary: p st rule: less_induct)
  case less
  show ?case
  proof (cases I st p rule: parse_fields_cases)
    case (field name v mem r1 st1 d)
    then show ?thesis
      using less.hyps [of r1 "st1\<lparr>derived := d\<rparr>"] less.prems parse_field_shorter [OF field(3)] by fastforce
  qed (use less.prems in auto)
qed

lemma word_loop_shorter: "word_loop ok e p = Inr (w, r) \<Longrightarrow> length r < length p"
  by (induction p arbitrary: w) (fastforce split: if_splits sum.splits)+

lemma start_line_shorter:
  "parse_request_line I st p = (ec, st', r) \<Longrightarrow> length r \<le> length p"
  "parse_status_line I st p = (ec, st', r) \<Longrightarrow> length r \<le> length p"
proof -
  have v: "length r \<le> length p" if "parse_version p = Inr (n, r)" for p n r
    using that by (auto simp: parse_version_def split: if_splits)
  have m: "length r < length p" if "parse_method p = Inr (w, r)" for p w r
    using that by (auto simp: parse_method_def dest: word_loop_shorter split: sum.splits if_splits)
  have t: "length r < length p" if "parse_target p = Inr (w, r)" for p w r
    using that by (auto simp: parse_target_def dest: word_loop_shorter split: sum.splits if_splits)
  have s: "length r \<le> length p" if "parse_status p n = (m, Inr r)" for p n m r
    using that by (auto simp: parse_status_def Let_def split: if_splits)
  have e: "length r \<le> length p" if "parse_reason p = Inr (w, r)" for p w r
    using that by (auto simp: parse_reason_def dest!: parse_token_shorter split: sum.splits option.splits)
  show "length r \<le> length p" if "parse_request_line I st p = (ec, st', r)"
    using that by (auto simp: parse_request_line_def Let_def dest!: m t v split: sum.splits prod.splits if_splits)
  show "length r \<le> length p" if "parse_status_line I st p = (ec, st', r)"
    using that by (auto simp: parse_status_line_def Let_def dest!: e s v split: sum.splits prod.splits if_splits list.splits)
qed

lemma length_limited: "length (limited st p) \<le> length p"
  by (simp add: limited_def)

lemma step_fields_shorter:
  "step_fields q I ec st p = (b, ec', st', p') \<Longrightarrow> length p' \<le> length p \<and> (b \<longrightarrow> length p' < length p)"
proof -
  assume a: "step_fields q I ec st p = (b, ec', st', p')"
  obtain ec1 st1 where m: "maybe_need_more st p ec = (ec1, st1)"
    by (cases "maybe_need_more st p ec")
  obtain ec2 st2 r where f: "parse_fields I st1 (limited st1 p) = (ec2, st2, r)"
    by (cases "parse_fields I st1 (limited st1 p)") auto
  have "length p' \<le> length p \<and> (b \<longrightarrow> ec2 = None \<and> p' = drop (length (limited st1 p) - length r) p)"
    using a m f by (cases ec1; cases ec2) (auto simp: step_fields_def Let_def split: prod.splits)
  then show ?thesis
    using parse_fields_shorter [OF f] length_limited [of st1 p] by auto
qed

lemma step_start_line_shorter:
  assumes "step_start_line q I ec st p = (b, ec', st', p')"
  shows "length p' \<le> length p \<and> (b \<longrightarrow> length p' < length p)"
proof -
  obtain ec1 st1 where m: "maybe_need_more st p ec = (ec1, st1)"
    by (cases "maybe_need_more st p ec")
  obtain ec2 st2 r where f: "(if q then parse_request_line I st1 (limited st1 p)
      else parse_status_line I st1 (limited st1 p)) = (ec2, st2, r)"
    by (cases "if q then parse_request_line I st1 (limited st1 p) else parse_status_line I st1 (limited st1 p)") auto
  define p1 where "p1 = drop (length (limited st1 p) - length r) p"
  have step: "step_start_line q I ec st p =
      (if ec1 \<noteq> None then (False, ec1, st1, p)
       else if ec2 \<noteq> None then (let (ec, st) = header_error st2 (length p) ec2 p1 in (False, ec, st, p1))
       else if p1 = [] then (False, Some Need_more, st2, p1)
       else step_fields q I None st2 p1)"
    using m f by (cases ec1) (auto simp: step_start_line_def Let_def p1_def split: prod.splits)
  have "length p1 \<le> length p"
    by (simp add: p1_def)
  then show ?thesis
    using assms step_fields_shorter [of q I None st2 p1 b ec' st' p'] unfolding step
    by (auto split: if_splits prod.splits)
qed

lemma parse_hex_shorter: "parse_hex p = Some (Some (v, r)) \<Longrightarrow> length r < length p"
proof -
  have "length r \<le> length p" if "hex_loop v0 p = Some (Some (v, r))" for v0 p
    using that by (induction p arbitrary: v0) (auto simp: Let_def split: option.splits if_splits intro: le_SucI)
  then show "parse_hex p = Some (Some (v, r)) \<Longrightarrow> length r < length p"
    by (cases p) (auto simp: less_Suc_eq_le split: option.splits)
qed

lemma last_chunk_shorter:
  "parse_last_chunk I st p0 p eol = (ec, st', p') \<Longrightarrow>
   length p' \<le> length p0 \<and> (ec = None \<longrightarrow> length p' < length p0 \<and> state st' = Complete)"
proof -
  assume a: "parse_last_chunk I st p0 p eol = (ec, st', p')"
  have eom: "length r < length p0" if "find_eom (drop n p0) = Some r" for n r
    using find_eom_split [OF that] by (auto dest: arg_cong [where f = length])
  show ?thesis
    using a by (auto simp: parse_last_chunk_def Let_def split: option.splits sum.splits prod.splits if_splits dest: eom)
qed

lemma chunk_header_shorter:
  "parse_chunk_header I st p = (ec, st', p') \<Longrightarrow>
   length p' \<le> length p \<and> (ec = None \<longrightarrow> length p' < length p)"
proof -
  assume a: "parse_chunk_header I st p = (ec, st', p')"
  have eol: "length r < length p" if "find_eol (drop n p) = Inr (Some r)" for n r
    using find_eol_split [OF that] by (auto dest: arg_cong [where f = length])
  show ?thesis
    using a by (auto simp: parse_chunk_header_def Let_def split: option.splits sum.splits prod.splits if_splits
        dest: eol dest!: last_chunk_shorter)
qed

text \<open>The part of the input offered to a body callback.\<close>

definition offered :: "u64 \<Rightarrow> string \<Rightarrow> string" where
  "offered n p = take (unat (clamp n (of_nat (length p)))) p"

lemma offered_eq: "length p < 2 ^ 64 \<Longrightarrow> offered n p = take (unat n) p"
  by (simp add: offered_def clamp_min unat_of_nat take_bit_eq_mod min_def)

lemma parse_body_shorter:
  assumes "takes_some I" "parse_body I st p = (ec, st', p')" "length p < 2 ^ 64"
  shows "length p' \<le> length p \<and> (ec = None \<and> p \<noteq> [] \<longrightarrow> length p' < length p \<or> state st' = Complete)"
proof -
  obtain n d ec1 where b: "on_body I (offered (len st) p) (derived st) None = (n, d, ec1)"
    by (cases "on_body I (offered (len st) p) (derived st) None")
  have p': "p' = drop n p"
    using assms(2) b by (auto simp: parse_body_def offered_def [symmetric] Let_def split: prod.splits if_splits)
  have "state st' = Complete" if "ec = None" "n = 0" "p \<noteq> []"
  proof -
    have "offered (len st) p = []" if "ec1 = None"
      using takes_body(1) [OF assms(1) b] \<open>n = 0\<close> that by blast
    then have "ec1 = None \<Longrightarrow> len st = 0"
      using offered_eq [OF assms(3), of "len st"] that(3) by (auto simp: unat_eq_0)
    then show ?thesis
      using assms(2) b that by (auto simp: parse_body_def offered_def [symmetric] Let_def split: prod.splits if_splits)
  qed
  then show ?thesis
    by (cases "n = 0") (auto simp: p')
qed

lemma parse_body_to_eof_shorter:
  assumes "takes_some I" "parse_body_to_eof I st p = (ec, st', p')"
  shows "length p' \<le> length p \<and> (ec = None \<and> p \<noteq> [] \<longrightarrow> length p' < length p)"
proof -
  obtain n d ec1 where b: "on_body I p (derived st) None = (n, d, ec1)"
    by (cases "on_body I p (derived st) None")
  show ?thesis
    using assms(2) b takes_body(1) [OF assms(1) b]
    by (auto simp: parse_body_to_eof_def Let_def split: if_splits)
qed

lemma parse_chunk_body_shorter:
  assumes "takes_some I" "parse_chunk_body I st p = (ec, st', p')" "length p < 2 ^ 64" "state st = Chunk_body"
  shows "length p' \<le> length p \<and> (ec = None \<and> p \<noteq> [] \<longrightarrow> length p' < length p \<or> state st' = Chunk_header)"
proof -
  obtain n d ec1 where b: "on_chunk_body I (len st, offered (len st) p) (derived st) None = (n, d, ec1)"
    by (cases "on_chunk_body I (len st, offered (len st) p) (derived st) None")
  have eqs: "p' = drop n p" "ec = ec1" "state st' = (if len st - of_nat n = 0 then Chunk_header else Chunk_body)"
    using assms(2,4) b by (auto simp: parse_chunk_body_def offered_def [symmetric] Let_def)
  have "len st = 0" if "ec = None" "n = 0" "p \<noteq> []"
    using takes_body(2) [OF assms(1) b] that offered_eq [OF assms(3), of "len st"] eqs by (auto simp: unat_eq_0)
  then show ?thesis
    by (cases "n = 0") (auto simp: eqs)
qed

definition loop_measure :: "'d parser \<Rightarrow> string \<Rightarrow> nat" where
  "loop_measure st p = 2 * length p + (if state st = Chunk_body then 1 else 0)"

lemma put_step_progress:
  assumes I: "takes_some I" and p: "length p < 2 ^ 64" and step: "put_step q I ec st p = (b, ec', st', p')"
  shows "length p' \<le> length p \<and> (b \<and> p \<noteq> [] \<longrightarrow> is_done st' \<or> loop_measure st' p' < loop_measure st p)"
proof -
  have less: "length p' < length p \<Longrightarrow> loop_measure st' p' < loop_measure st p" for st' p' and st :: "'d parser"
    by (auto simp: loop_measure_def)
  have init: "length p' \<le> length p \<and> (b \<and> p \<noteq> [] \<longrightarrow> is_done st' \<or> loop_measure st' p' < loop_measure st p)"
    if "length p' \<le> length p \<and> (b \<and> p \<noteq> [] \<longrightarrow> length p' < length p \<or> state st' = Complete)"
    using that less by (auto simp: is_done_def)
  show ?thesis
  proof (cases "state st")
    case Nothing_yet
    then show ?thesis
      using step init step_start_line_shorter by (force simp: put_step.simps split: if_splits)
  next
    case Chunk_body
    then have c: "parse_chunk_body I st p = (ec', st', p')" "b \<longleftrightarrow> ec' = None"
      using step by (auto simp: put_step.simps broke_def)
    note parse_chunk_body_shorter [OF I c(1) p Chunk_body]
    then show ?thesis
      unfolding c(2) using Chunk_body by (cases "length p' < length p") (auto simp: loop_measure_def)
  next
    case Body0
    then show ?thesis
      using step init parse_body_shorter [OF I _ p]
      by (fastforce simp: put_step.simps broke_def Let_def split: if_splits prod.splits)
  next
    case Body
    then show ?thesis
      using step init parse_body_shorter [OF I _ p] by (fastforce simp: put_step.simps broke_def split: if_splits)
  next
    case Body_to_eof0
    then show ?thesis
      using step init parse_body_to_eof_shorter [OF I]
      by (fastforce simp: put_step.simps broke_def Let_def split: if_splits prod.splits)
  next
    case Body_to_eof
    then show ?thesis
      using step init parse_body_to_eof_shorter [OF I] by (fastforce simp: put_step.simps broke_def split: if_splits)
  next
    case Chunk_header0
    then show ?thesis
      using step init chunk_header_shorter
      by (fastforce simp: put_step.simps broke_def Let_def split: if_splits prod.splits)
  next
    case Chunk_header
    then show ?thesis
      using step init chunk_header_shorter by (fastforce simp: put_step.simps broke_def)
  next
    case Start_line
    then show ?thesis
      using step init step_start_line_shorter [of q I ec st p b ec' st' p'] by (simp add: put_step.simps)
  next
    case Fields
    then show ?thesis
      using step init step_fields_shorter [of q I ec st p b ec' st' p'] by (simp add: put_step.simps)
  next
    case Complete
    then show ?thesis
      using step by (simp add: put_step.simps)
  qed
qed


lemma put_loop_returns:
  assumes I: "takes_some I"
  shows "length p < 2 ^ 64 \<Longrightarrow>
    \<exists>ec' st' p'. put_loop q I ec st p = Some (ec', st', p') \<and> length p' \<le> length p"
proof (induction "loop_measure st p" arbitrary: ec st p rule: less_induct)
  case less
  obtain b ec1 st1 p1 where step: "put_step q I ec st p = (b, ec1, st1, p1)"
    by (cases "put_step q I ec st p") auto
  note progress = put_step_progress [OF I less.prems step]
  show ?case
  proof (cases "b \<and> p1 \<noteq> [] \<and> \<not> is_done st1 \<and> eager st1")
    case True
    then have "loop_measure st1 p1 < loop_measure st p" "length p1 \<le> length p"
      using progress by auto
    then show ?thesis
      using less.hyps [of st1 p1 ec1] less.prems True step by (subst put_loop.simps) auto
  next
    case False
    then show ?thesis
      using step progress by (subst put_loop.simps) auto
  qed
qed

section \<open>Properties\<close>

text \<open>
  C27: \<open>put\<close> returns, in whatever state the parser is and whatever the input, and
  consumes no more than it was given, if the body callbacks of the derived class take no more than
  they are offered and take something of it unless they report an error.
\<close>

theorem put_returns:
  assumes "takes_some I" "length s < 2 ^ 64"
  shows "\<exists>n ec st'. put q I st s = Some (n, ec, st') \<and> n \<le> length s"
  using put_loop_returns [OF assms(1), of s q None st] assms(2) by (auto simp: put_def)

theorem put_returns_witness:
  "\<exists>n ec st'. put False recorder (basic_parser False []) ''HTTP/1.1 200 OK'' = Some (n, ec, st') \<and>
     n \<le> length ''HTTP/1.1 200 OK''"
  by (rule put_returns [OF takes_some_recorder]) simp

end
