(* ===== verification/Http_Header.thy ===== *)
theory Http_Header
  imports Http_Parsing
begin

text \<open>
  The header of a message, as RFC 7230 writes it, and what the parser makes of it: the events the
  derived class sees and the framing of the body.
\<close>

section \<open>Fields\<close>

type_synonym hfield = "string \<times> value_part list"

definition field_text :: "hfield \<Rightarrow> string" where
  "field_text = (\<lambda>(n, ps). n @ CHR '':'' # value_text ps)"

definition one_line :: "value_part list \<Rightarrow> bool" where
  "one_line ps \<longleftrightarrow> list_all (\<lambda>v. v = []) (butlast (map (fst \<circ> snd) ps))"

definition field_value :: "value_part list \<Rightarrow> string" where
  "field_value ps = (if one_line ps then last (map (fst \<circ> snd) ps) else joined (texts ps))"

definition field_wf :: "hfield \<Rightarrow> bool" where
  "field_wf = (\<lambda>(n, ps). n \<noteq> [] \<and> list_all is_token_char n \<and> folded ps \<and> ps \<noteq> [] \<and>
     (one_line ps \<or> length (joined (texts ps)) \<le> 4096))"

lemma texts_nonempty: "\<not> one_line ps \<Longrightarrow> texts ps \<noteq> []"
  unfolding one_line_def texts_def list_all_iff filter_empty_conv by (blast dest: in_set_butlastD)

lemma parse_field_wf:
  assumes "field_wf (n, ps)" "r \<noteq> []" "\<not> is_ows (hd r)"
  obtains mem where "parse_field (field_text (n, ps) @ r) = Inr (n, field_value ps, mem, r)" "not_digit_next mem"
proof -
  have "length (hd (texts ps)) \<le> length (joined (texts ps))"
    by (simp add: joined_def)
  then have "map_sum id (\<lambda>(n, v, mem, rest). (n, v, rest)) (parse_field (field_text (n, ps) @ r)) =
      Inr (n, field_value ps, r)"
    using parse_field_text [of n ps r] assms by (auto simp: field_wf_def field_text_def field_value_def one_line_def)
  then obtain mem where "parse_field (field_text (n, ps) @ r) = Inr (n, field_value ps, mem, r)"
    by (cases "parse_field (field_text (n, ps) @ r)") auto
  then show thesis
    using that parse_field_mem by blast
qed

section \<open>What a field says\<close>

text \<open>
  The codings say that the message is chunked when the first chunked among them is the last of them:
  a list that has it twice does not, although its last value is chunked.
\<close>

definition chunked_last :: "string \<Rightarrow> bool" where
  "chunked_last v \<longleftrightarrow> tokens v \<noteq> [] \<and> iequals ''chunked'' (last (tokens v)) \<and>
     list_all (\<lambda>t. \<not> iequals ''chunked'' t) (butlast (tokens v))"

definition length_ok :: "string \<Rightarrow> bool" where
  "length_ok v \<longleftrightarrow> v \<noteq> [] \<and> list_all is_digit v \<and> dec_value v < 18446744073709551610"

definition connection_name :: "string \<Rightarrow> bool" where
  "connection_name n \<longleftrightarrow> iequals ''Connection'' n \<or> iequals ''Proxy-Connection'' n"

definition list_flags :: "string list \<Rightarrow> flag set" where
  "list_flags ts =
     (if list_ex (iequals ''close'') ts then {ConnectionClose} else {}) \<union>
     (if list_ex (iequals ''keep-alive'') ts then {ConnectionKeepAlive} else {}) \<union>
     (if list_ex (iequals ''upgrade'') ts then {ConnectionUpgrade} else {})"

definition field_flags :: "string \<times> string \<Rightarrow> flag set" where
  "field_flags = (\<lambda>(n, v).
     if connection_name n then list_flags (opt_tokens v)
     else if iequals ''Content-Length'' n then {ContentLength}
     else if iequals ''Transfer-Encoding'' n then (if chunked_last v then {Chunked} else {})
     else if iequals ''Upgrade'' n then {Upgrade} else {})"

text \<open>Which field is in order after others that set the flags \<open>F\<close>.\<close>

definition field_ok :: "flag set \<Rightarrow> string \<times> string \<Rightarrow> bool" where
  "field_ok F = (\<lambda>(n, v).
     if connection_name n then validate_list v
     else if iequals ''Content-Length'' n then ContentLength \<notin> F \<and> Chunked \<notin> F \<and> length_ok v
     else if iequals ''Transfer-Encoding'' n then ContentLength \<notin> F \<and> Chunked \<notin> F
     else True)"

lemma iequals_trans_sym: "iequals a s \<Longrightarrow> iequals b s \<Longrightarrow> iequals a b"
  using iequals_trans iequals_sym by blast

lemma known_names:
  assumes "list_all is_token_char n"
  shows "string_to_field n = field_connection \<longleftrightarrow> iequals ''Connection'' n"
    "string_to_field n = field_proxy_connection \<longleftrightarrow> iequals ''Proxy-Connection'' n"
    "string_to_field n = field_content_length \<longleftrightarrow> iequals ''Content-Length'' n"
    "string_to_field n = field_transfer_encoding \<longleftrightarrow> iequals ''Transfer-Encoding'' n"
    "string_to_field n = field_upgrade \<longleftrightarrow> iequals ''Upgrade'' n"
proof -
  have ascii: "\<forall>c\<in>set n. uchar c < 128"
    using assms by (auto simp: list_all_iff token_char_iff tchar_code_def digit_code_def alpha_code_def)
  note iff = string_to_field_iff [OF ascii]
  show "string_to_field n = field_connection \<longleftrightarrow> iequals ''Connection'' n"
    "string_to_field n = field_proxy_connection \<longleftrightarrow> iequals ''Proxy-Connection'' n"
    "string_to_field n = field_content_length \<longleftrightarrow> iequals ''Content-Length'' n"
    "string_to_field n = field_transfer_encoding \<longleftrightarrow> iequals ''Transfer-Encoding'' n"
    "string_to_field n = field_upgrade \<longleftrightarrow> iequals ''Upgrade'' n"
    using iff [of field_connection] iff [of field_proxy_connection] iff [of field_content_length]
      iff [of field_transfer_encoding] iff [of field_upgrade]
    unfolding field_constants
    by (simp_all add: field_connection_def field_proxy_connection_def field_content_length_def
        field_transfer_encoding_def field_upgrade_def length_by_name)
qed

lemma connection_tokens_eq: "connection_tokens ss f = f \<union> list_flags ss"
proof (induction ss arbitrary: f)
  case (Cons s ss)
  have "\<not> (iequals ''close'' s \<and> iequals ''keep-alive'' s)" "\<not> (iequals ''close'' s \<and> iequals ''upgrade'' s)"
      "\<not> (iequals ''keep-alive'' s \<and> iequals ''upgrade'' s)"
    by (auto dest!: iequals_length)
  then show ?case
    unfolding connection_tokens.simps Cons.IH by (auto simp: list_flags_def)
qed (simp add: list_flags_def)

lemma chunked_last_eq:
  "(case dropWhile (\<lambda>s. \<not> iequals ''chunked'' s) (tokens v) of [] \<Rightarrow> False | s # ss \<Rightarrow> ss = []) \<longleftrightarrow> chunked_last v"
proof -
  have "(case dropWhile (\<lambda>s. \<not> P s) ts of [] \<Rightarrow> False | s # ss \<Rightarrow> ss = []) \<longleftrightarrow>
      ts \<noteq> [] \<and> P (last ts) \<and> list_all (\<lambda>t. \<not> P t) (butlast ts)" for P :: "string \<Rightarrow> bool" and ts
    by (induction ts) auto
  then show ?thesis
    by (simp add: chunked_last_def)
qed

definition field_len :: "string \<times> string \<Rightarrow> u64 \<Rightarrow> u64" where
  "field_len = (\<lambda>(n, v) l.
     if connection_name n then l
     else if iequals ''Content-Length'' n then of_nat (dec_value v)
     else if iequals ''Transfer-Encoding'' n then (if chunked_last v then 0 else l) else l)"

lemma do_field_ok:
  assumes "list_all is_token_char n" "not_digit_next mem"
  shows "field_ok (flags st) (n, v) \<Longrightarrow> do_field (string_to_field n) v mem st =
      (None, st\<lparr>flags := flags st \<union> field_flags (n, v), len := field_len (n, v) (len st)\<rparr>)"
    "\<not> field_ok (flags st) (n, v) \<Longrightarrow> \<exists>e\<in>{Bad_value, Bad_content_length, Bad_transfer_encoding}.
      do_field (string_to_field n) v mem st = (Some e, st)"
proof -
  have dec: "parse_dec v mem = Some (if length_ok v then Some (of_nat (dec_value v)) else None)"
    using parse_dec_eq assms(2) by (simp add: not_digit_next_def length_ok_def)
  define T where "T = dropWhile (\<lambda>s. \<not> iequals ''chunked'' s) (tokens v)"
  have T: "chunked_last v \<longleftrightarrow> (case T of [] \<Rightarrow> False | s # ss \<Rightarrow> ss = [])"
    using chunked_last_eq [of v] by (simp add: T_def)
  note eqs = do_field_def T_def [symmetric] known_names [OF assms(1)] connection_name_def [symmetric] dec option.sel
    connection_tokens_eq field_ok_def field_flags_def field_len_def prod.case
  show "do_field (string_to_field n) v mem st =
      (None, st\<lparr>flags := flags st \<union> field_flags (n, v), len := field_len (n, v) (len st)\<rparr>)"
    if "field_ok (flags st) (n, v)"
    using that unfolding eqs by (cases T) (auto simp: T)
  show "\<exists>e\<in>{Bad_value, Bad_content_length, Bad_transfer_encoding}.
      do_field (string_to_field n) v mem st = (Some e, st)" if "\<not> field_ok (flags st) (n, v)"
    using that unfolding eqs by (auto split: if_splits)
qed

text \<open>The fields of a header in order.\<close>

fun fields_ok :: "flag set \<Rightarrow> (string \<times> string) list \<Rightarrow> bool" where
  "fields_ok F [] = True"
| "fields_ok F (x # xs) \<longleftrightarrow> field_ok F x \<and> fields_ok (F \<union> field_flags x) xs"

definition fields_flags :: "(string \<times> string) list \<Rightarrow> flag set" where
  "fields_flags xs = (\<Union>x\<in>set xs. field_flags x)"

definition fields_len :: "(string \<times> string) list \<Rightarrow> u64 \<Rightarrow> u64" where
  "fields_len xs l = fold field_len xs l"

definition content :: "hfield list \<Rightarrow> (string \<times> string) list" where
  "content fs = map (\<lambda>(n, ps). (n, field_value ps)) fs"

definition field_event :: "string \<times> string \<Rightarrow> event" where
  "field_event = (\<lambda>(n, v). Ev_field (string_to_field n) n v)"

definition fields_text :: "hfield list \<Rightarrow> string" where
  "fields_text fs = concat (map field_text fs) @ [CR, LF]"

lemma fields_text_Cons: "fields_text (f # fs) = field_text f @ fields_text fs"
  by (simp add: fields_text_def)

lemma fields_text_start: "list_all field_wf fs \<Longrightarrow> \<not> is_ows (hd (fields_text fs @ r)) \<and> fields_text fs @ r \<noteq> []"
  by (cases fs; cases "fst (hd fs)")
     (auto simp: fields_text_def field_text_def field_wf_def token_char_iff tchar_code_def digit_code_def
       alpha_code_def uchar_def split: prod.splits)

lemma parse_fields_step:
  assumes "field_wf (n, ps)" "r \<noteq> []" "\<not> is_ows (hd r)"
  obtains mem where "not_digit_next mem"
    "parse_fields I st (field_text (n, ps) @ r) =
       (case do_field (string_to_field n) (field_value ps) mem st of
          (Some e, st) \<Rightarrow> (Some e, st, field_text (n, ps) @ r)
        | (None, st) \<Rightarrow>
            (case on_field I (string_to_field n, n, field_value ps) (derived st) None of
               (d, Some e) \<Rightarrow> (Some e, st\<lparr>derived := d\<rparr>, field_text (n, ps) @ r)
             | (d, None) \<Rightarrow> parse_fields I (st\<lparr>derived := d\<rparr>) r))"
proof -
  obtain mem where mem: "parse_field (field_text (n, ps) @ r) = Inr (n, field_value ps, mem, r)" "not_digit_next mem"
    using parse_field_wf [OF assms] .
  have "n \<noteq> []" "is_token_char (hd n)"
    using assms(1) by (cases n; simp add: field_wf_def)+
  then have start: "\<not> length (field_text (n, ps) @ r) < 2" "(field_text (n, ps) @ r) ! 0 \<noteq> CR"
    using assms(2) by (cases n; cases r; auto simp: field_text_def token_char_iff tchar_code_def digit_code_def
        alpha_code_def uchar_def)+
  have "parse_fields I st (field_text (n, ps) @ r) =
       (case do_field (string_to_field n) (field_value ps) mem st of
          (Some e, st) \<Rightarrow> (Some e, st, field_text (n, ps) @ r)
        | (None, st) \<Rightarrow>
            (case on_field I (string_to_field n, n, field_value ps) (derived st) None of
               (d, Some e) \<Rightarrow> (Some e, st\<lparr>derived := d\<rparr>, field_text (n, ps) @ r)
             | (d, None) \<Rightarrow> parse_fields I (st\<lparr>derived := d\<rparr>) r))"
    using start by (subst parse_fields.simps) (simp add: mem(1) Let_def split: prod.splits option.splits)
  then show thesis
    by (rule that [OF mem(2)])
qed

lemma recorder_field [simp]:
  "on_field recorder (string_to_field n, n, v) d ec = (d @ [field_event (n, v)], None)"
  by (simp add: recorder_def field_event_def)

lemma content_simps: "content [] = []" "content ((n, ps) # fs) = (n, field_value ps) # content fs"
  by (simp_all add: content_def)

lemma parse_fields_run:
  assumes "list_all field_wf fs"
  shows "if fields_ok (flags st) (content fs)
    then parse_fields recorder st (fields_text fs @ r) =
      (None, st\<lparr>flags := flags st \<union> fields_flags (content fs), len := fields_len (content fs) (len st),
        derived := derived st @ map field_event (content fs)\<rparr>, r)
    else \<exists>e\<in>{Bad_value, Bad_content_length, Bad_transfer_encoding}. \<exists>st' r'.
      parse_fields recorder st (fields_text fs @ r) = (Some e, st', r')"
  using assms
proof (induction fs arbitrary: st)
  case Nil
  then show ?case
    by (subst (1 2) parse_fields.simps) (simp add: content_simps fields_text_def fields_flags_def fields_len_def)
next
  case (Cons f fs)
  obtain n ps where f: "f = (n, ps)"
    by (cases f)
  have wf: "field_wf (n, ps)" "list_all field_wf fs" "list_all is_token_char n"
    using Cons.prems by (auto simp: f field_wf_def)
  have start: "fields_text fs @ r \<noteq> []" "\<not> is_ows (hd (fields_text fs @ r))"
    using fields_text_start [OF wf(2)] by blast+
  have unfolded: "fields_text (f # fs) @ r = field_text (n, ps) @ fields_text fs @ r"
    by (simp add: f fields_text_Cons)
  obtain mem where mem: "not_digit_next mem" and step:
    "parse_fields recorder st (fields_text (f # fs) @ r) =
       (case do_field (string_to_field n) (field_value ps) mem st of
          (Some e, st) \<Rightarrow> (Some e, st, fields_text (f # fs) @ r)
        | (None, st) \<Rightarrow>
            (case on_field recorder (string_to_field n, n, field_value ps) (derived st) None of
               (d, Some e) \<Rightarrow> (Some e, st\<lparr>derived := d\<rparr>, fields_text (f # fs) @ r)
             | (d, None) \<Rightarrow> parse_fields recorder (st\<lparr>derived := d\<rparr>) (fields_text fs @ r)))"
    unfolding unfolded by (rule parse_fields_step [OF wf(1) start])
  note field = do_field_ok [OF wf(3) mem, of st "field_value ps"]
  show ?case
  proof (cases "field_ok (flags st) (n, field_value ps)")
    case True
    define st1 where "st1 = st\<lparr>flags := flags st \<union> field_flags (n, field_value ps),
      len := field_len (n, field_value ps) (len st), derived := derived st @ [field_event (n, field_value ps)]\<rparr>"
    have run: "parse_fields recorder st (fields_text (f # fs) @ r) = parse_fields recorder st1 (fields_text fs @ r)"
      by (simp add: step field(1) [OF True] st1_def)
    have ok: "fields_ok (flags st) (content (f # fs)) \<longleftrightarrow> fields_ok (flags st1) (content fs)"
      using True by (simp add: f content_simps st1_def)
    have st1: "st1\<lparr>flags := flags st1 \<union> fields_flags (content fs), len := fields_len (content fs) (len st1),
        derived := derived st1 @ map field_event (content fs)\<rparr> =
      st\<lparr>flags := flags st \<union> fields_flags (content (f # fs)), len := fields_len (content (f # fs)) (len st),
        derived := derived st @ map field_event (content (f # fs))\<rparr>"
      by (simp add: f content_simps fields_flags_def fields_len_def st1_def Un_assoc)
    show ?thesis
      using Cons.IH [OF wf(2), of st1] unfolding run ok st1 .
  next
    case False
    then obtain e where "e \<in> {Bad_value, Bad_content_length, Bad_transfer_encoding}"
        "do_field (string_to_field n) (field_value ps) mem st = (Some e, st)"
      using field(2) by blast
    moreover from this have "parse_fields recorder st (fields_text (f # fs) @ r) = (Some e, st, fields_text (f # fs) @ r)"
      by (simp add: step)
    moreover have "\<not> fields_ok (flags st) (content (f # fs))"
      using False by (simp add: f content_simps)
    ultimately show ?thesis
      by auto
  qed
qed

section \<open>The start line\<close>

datatype start = Request string string bool | Response nat string bool

definition version_text :: "bool \<Rightarrow> string" where
  "version_text v = ''HTTP/1.'' @ (if v then ''1'' else ''0'')"

definition code_text :: "nat \<Rightarrow> string" where
  "code_text c = [char_of (48 + c div 100), char_of (48 + c div 10 mod 10), char_of (48 + c mod 10)]"

fun start_text :: "start \<Rightarrow> string" where
  "start_text (Request m t v) = m @ '' '' @ t @ '' '' @ version_text v @ [CR, LF]"
| "start_text (Response c r v) = version_text v @ '' '' @ code_text c @ '' '' @ r @ [CR, LF]"

fun start_wf :: "start \<Rightarrow> bool" where
  "start_wf (Request m t v) \<longleftrightarrow> m \<noteq> [] \<and> list_all is_token_char m \<and> t \<noteq> [] \<and> list_all is_pathchar t"
| "start_wf (Response c r v) \<longleftrightarrow> c < 1000 \<and> list_all (\<lambda>c. \<not> is_control_char c) r"

fun is_request :: "start \<Rightarrow> bool" where
  "is_request (Request m t v) = True"
| "is_request (Response c r v) = False"

fun code :: "start \<Rightarrow> nat" where
  "code (Request m t v) = 0"
| "code (Response c r v) = c"

fun version11 :: "start \<Rightarrow> bool" where
  "version11 (Request m t v) = v"
| "version11 (Response c r v) = v"

text \<open>The verb of a method: the one it names, if there is one.\<close>

definition verb_of :: "string \<Rightarrow> verb" where
  "verb_of m = the (string_to_verb m '' '')"

fun start_event :: "start \<Rightarrow> event" where
  "start_event (Request m t v) = Ev_request (verb_of m) m t (if v then 11 else 10)"
| "start_event (Response c r v) = Ev_response c r (if v then 11 else 10)"

lemma word_loop_text: "list_all ok w \<Longrightarrow> \<not> ok (CHR '' '') \<Longrightarrow> word_loop ok e (w @ CHR '' '' # r) = Inr (w, r)"
  by (induction w) auto

lemma parse_version_text: "parse_version (version_text v @ r) = Inr (if v then 11 else 10, r)"
  by (simp add: parse_version_def version_text_def is_digit_iff digit_code_def uchar_def)

lemma digit_chars: "n < 10 \<Longrightarrow> is_digit (char_of (48 + n)) \<and> uchar (char_of (48 + n)) - 48 = n"
  by (simp add: is_digit_iff digit_code_def)

lemma parse_status_text:
  assumes "c < 1000"
  shows "parse_status (code_text c @ '' '' @ r) n = (c, Inr r)"
proof -
  have split: "c div 10 = 10 * (c div 100) + c div 10 mod 10" "c = 10 * (c div 10) + c mod 10"
    using div_mult2_eq [of c 10 10] by simp_all
  have "c div 100 < 10" "c div 10 mod 10 < 10" "c mod 10 < 10" "100 * (c div 100) + 10 * (c div 10 mod 10) + c mod 10 = c"
    using assms split by linarith+
  then show ?thesis
    using digit_chars by (simp add: parse_status_def code_text_def Let_def)
qed

lemma verb_of_eq: "string_to_verb m (CHR '' '' # r) = Some (verb_of m)"
proof -
  have "verb_stop (CHR '' '')"
    by (simp add: verb_stop_def uchar_def)
  then obtain v v' where v: "string_to_verb m (CHR '' '' # r) = Some v" "string_to_verb m '' '' = Some v'"
    using verb_total [of "CHR '' '' # r" m] verb_total [of "'' ''" m] by auto
  have "v = v'"
    using v name_of_verb [of "CHR '' '' # r" m v] name_of_verb [of "'' ''" m v'] \<open>verb_stop (CHR '' '')\<close>
      verb_of_name [of "CHR '' '' # r" v'] verb_of_name [of "'' ''" v] by (metis list.distinct(1) list.sel(1) option.inject)
  then show ?thesis
    using v by (simp add: verb_of_def)
qed

lemma parse_start_text:
  fixes st :: "event list parser"
  assumes "start_wf s"
  defines "st' \<equiv> (if version11 s then set_flag HTTP11 st else st)"
  shows "(if is_request s then parse_request_line recorder st (start_text s @ r) else parse_status_line recorder st (start_text s @ r)) =
    (None, st'\<lparr>status := if is_request s then status st else code s, state := Fields,
      derived := derived st @ [start_event s]\<rparr>, r)"
proof (cases s)
  case (Request m t v)
  have "\<not> is_token_char (CHR '' '')" "\<not> is_pathchar (CHR '' '')"
    by (simp_all add: token_char_iff tchar_code_def digit_code_def alpha_code_def pathchar_iff vchar_code_def uchar_def)
  then have "parse_method (start_text s @ r) = Inr (m, t @ '' '' @ version_text v @ [CR, LF] @ r)"
      "parse_target (t @ '' '' @ version_text v @ [CR, LF] @ r) = Inr (t, version_text v @ [CR, LF] @ r)"
    using assms(1) Request by (simp_all add: parse_method_def parse_target_def word_loop_text)
  then show ?thesis
    using Request by (simp add: parse_request_line_def parse_version_text verb_of_eq st'_def recorder_def)
next
  case (Response c t v)
  have "parse_version (start_text s @ r) = Inr (if v then 11 else 10, '' '' @ code_text c @ '' '' @ t @ [CR, LF] @ r)"
    using parse_version_text [of v] by (simp add: Response)
  moreover have "parse_status (code_text c @ '' '' @ t @ [CR, LF] @ r) n = (c, Inr (t @ [CR, LF] @ r))" for n
    using parse_status_text assms(1) Response by simp
  moreover have "parse_reason (t @ [CR, LF] @ r) = Inr (t, r)"
    using assms(1) Response by (simp add: parse_reason_def parse_token_text)
  ultimately show ?thesis
    using Response by (simp add: parse_status_line_def st'_def recorder_def)
qed

section \<open>The framing of the body\<close>

datatype framing = No_body | Length u64 | Chunks | Until_close

text \<open>RFC 7230, section 3.3.3; \<open>sk\<close> is the option for answers to HEAD.\<close>

definition body_framing :: "bool \<Rightarrow> start \<Rightarrow> (string \<times> string) list \<Rightarrow> framing" where
  "body_framing sk s xs =
     (if sk \<or> \<not> is_request s \<and> (code s div 100 = 1 \<or> code s = 204 \<or> code s = 304) then No_body
      else if ContentLength \<in> fields_flags xs then Length (fields_len xs 0)
      else if Chunked \<in> fields_flags xs then Chunks
      else if is_request s then No_body
      else Until_close)"

fun framing_error :: "u64 \<Rightarrow> framing \<Rightarrow> ec" where
  "framing_error limit (Length n) = (if n > limit then Some Body_limit else None)"
| "framing_error limit _ = None"

fun framing_state :: "framing \<Rightarrow> pstate" where
  "framing_state No_body = Complete"
| "framing_state (Length n) = (if n = 0 then Complete else Body0)"
| "framing_state Chunks = Chunk_header0"
| "framing_state Until_close = Body_to_eof0"

definition header_text :: "start \<Rightarrow> hfield list \<Rightarrow> string" where
  "header_text s fs = start_text s @ fields_text fs"

text \<open>A new parser with its options set.\<close>

definition fresh :: "bool \<Rightarrow> u64 \<Rightarrow> nat \<Rightarrow> bool \<Rightarrow> event list parser" where
  "fresh q b h sk = set_skip sk (set_header_limit h (set_body_limit b (basic_parser q [])))"

lemma fresh_simps [simp]:
  "state (fresh q b h sk) = Nothing_yet" "skip (fresh q b h sk) = 0" "flags (fresh q b h sk) = (if sk then {SkipBody} else {})"
  "header_limit (fresh q b h sk) = h" "body_limit (fresh q b h sk) = b" "derived (fresh q b h sk) = []"
  "len (fresh q b h sk) = 0"
  by (simp_all add: fresh_def set_skip_def set_header_limit_def set_body_limit_def basic_parser_def)

lemma start_flags: "fields_flags xs \<inter> {SkipBody, Eager, HTTP11, HasBody, NeedEOF} = {}"
  by (auto simp: fields_flags_def field_flags_def list_flags_def split: if_splits)

lemma fields_ok_cong:
  "ContentLength \<in> F \<longleftrightarrow> ContentLength \<in> G \<Longrightarrow> Chunked \<in> F \<longleftrightarrow> Chunked \<in> G \<Longrightarrow>
   fields_ok F xs \<longleftrightarrow> fields_ok G xs"
proof (induction xs arbitrary: F G)
  case (Cons x xs)
  have "field_ok F x \<longleftrightarrow> field_ok G x"
    using Cons.prems by (cases x) (simp add: field_ok_def)
  then show ?case
    using Cons.IH [of "F \<union> field_flags x" "G \<union> field_flags x"] Cons.prems by simp
qed simp

text \<open>The two header steps in one call, when the header is all there.\<close>

lemma header_step:
  fixes st :: "event list parser" and rest :: string
  assumes "start_wf s" "list_all field_wf fs"
    "length (start_text s) \<le> header_limit st" "length (fields_text fs) \<le> header_limit st"
    "state st = Start_line" "skip st = 0"
  defines "st1 \<equiv> (if version11 s then set_flag HTTP11 st else st)
      \<lparr>status := if is_request s then status st else code s, state := Fields, derived := derived st @ [start_event s]\<rparr>"
    and "t \<equiv> take (header_limit st - length (fields_text fs)) rest"
  shows "step_start_line (is_request s) recorder None st (header_text s fs @ rest) =
    step_fields (is_request s) recorder None st1 (fields_text fs @ rest)"
    "limited st1 (fields_text fs @ rest) = fields_text fs @ t"
proof -
  let ?r = "take (header_limit st - length (start_text s)) (fields_text fs @ rest)"
  have lim: "limited st (header_text s fs @ rest) = start_text s @ ?r"
    using assms(3) by (simp add: limited_def header_text_def)
  have "maybe_need_more st p None = (None, st)" for p
    using assms(6) by (simp add: maybe_need_more_def)
  moreover have "fields_text fs @ rest \<noteq> []"
    by (simp add: fields_text_def)
  moreover have "drop (length (start_text s @ ?r) - length ?r) (header_text s fs @ rest) = fields_text fs @ rest"
    by (simp add: header_text_def)
  ultimately show "step_start_line (is_request s) recorder None st (header_text s fs @ rest) =
      step_fields (is_request s) recorder None st1 (fields_text fs @ rest)"
    unfolding step_start_line_def
    by (simp only: prod.case option.case lim parse_start_text [OF assms(1)] Let_def st1_def simp_thms if_False)
  show "limited st1 (fields_text fs @ rest) = fields_text fs @ t"
    using assms(4) by (simp add: limited_def st1_def t_def header_text_def)
qed

lemma header_done_recorder:
  "header_done recorder st =
    (None, st\<lparr>derived := derived st @ Ev_header # (if state st = Complete then [Ev_finish] else [])\<rparr>)"
  by (simp add: header_done_def finish_message_def recorder_def)

text \<open>What a finished header leaves behind.\<close>

definition header_outcome :: "framing \<Rightarrow> event list parser \<Rightarrow> ec \<times> event list parser \<Rightarrow> bool" where
  "header_outcome fr st = (\<lambda>(ec, st').
     ec = framing_error (body_limit st) fr \<and> eager st' = eager st \<and>
     state st' = (if ec = None then framing_state fr else state st) \<and>
     derived st' = derived st @
       (if ec \<noteq> None then [] else Ev_header # (if framing_state fr = Complete then [Ev_finish] else [])) \<and>
     (case fr of Length n \<Rightarrow> len st' = n | _ \<Rightarrow> True))"

lemma header_outcome_cong:
  "body_limit st = body_limit st2 \<Longrightarrow> \<not> eager st \<Longrightarrow> \<not> eager st2 \<Longrightarrow> state st = Fields \<Longrightarrow> derived st = d \<Longrightarrow>
   header_outcome fr st x \<longleftrightarrow> header_outcome fr (st2\<lparr>state := Fields, derived := d\<rparr>) x"
  by (cases x) (simp add: header_outcome_def eager_def)

lemma finish_header_outcome:
  assumes "flags st = A \<union> fields_flags xs" "SkipBody \<in> A \<longleftrightarrow> sk" "A \<subseteq> {SkipBody, HTTP11}"
    "len st = fields_len xs 0" "is_request s \<or> status st = code s"
  shows "header_outcome (body_framing sk s xs) st
    (if is_request s then finish_header_request recorder st else finish_header_response recorder st)"
proof -
  have "SkipBody \<in> flags st \<longleftrightarrow> sk" "ContentLength \<in> flags st \<longleftrightarrow> ContentLength \<in> fields_flags xs"
      "Chunked \<in> flags st \<longleftrightarrow> Chunked \<in> fields_flags xs"
    using assms(1-3) start_flags [of xs] by auto
  note flags = this finish_header_request_def finish_header_response_def finish_length_def header_done_recorder
    header_outcome_def body_framing_def assms(4)
  show ?thesis
  proof (cases "is_request s")
    case True
    then show ?thesis
      by (simp add: flags eager_def word_gt_0)
  next
    case False
    then have "status st = code s"
      using assms(5) by blast
    then show ?thesis
      using False by (simp add: flags eager_def word_gt_0)
  qed
qed

lemma put_header:
  assumes "start_wf s" "list_all field_wf fs" "length (start_text s) \<le> h" "length (fields_text fs) \<le> h"
  shows "if fields_ok {} (content fs)
    then \<exists>ec st'. put (is_request s) recorder (fresh (is_request s) b h sk) (header_text s fs @ rest) =
        Some (length (header_text s fs), ec, st') \<and>
      header_outcome (body_framing sk s (content fs))
        ((fresh (is_request s) b h sk)\<lparr>state := Fields, derived := start_event s # map field_event (content fs)\<rparr>) (ec, st')
    else \<exists>e\<in>{Bad_value, Bad_content_length, Bad_transfer_encoding}. \<exists>n st'.
      put (is_request s) recorder (fresh (is_request s) b h sk) (header_text s fs @ rest) = Some (n, Some e, st')"
proof -
  define st0 where "st0 = (fresh (is_request s) b h sk)\<lparr>state := Start_line\<rparr>"
  define st1 where "st1 = (if version11 s then set_flag HTTP11 st0 else st0)
      \<lparr>status := if is_request s then status st0 else code s, state := Fields, derived := [start_event s]\<rparr>"
  define t where "t = take (h - length (fields_text fs)) rest"
  have st0: "header_limit st0 = h" "state st0 = Start_line" "skip st0 = 0" "derived st0 = []"
    by (simp_all add: st0_def)
  have step: "step_start_line (is_request s) recorder None st0 (header_text s fs @ rest) =
      step_fields (is_request s) recorder None st1 (fields_text fs @ rest)"
      "limited st1 (fields_text fs @ rest) = fields_text fs @ t"
    using header_step [OF assms(1,2) _ _ st0(2,3), of rest] assms(3,4) by (simp_all add: st0 st1_def t_def)
  have nonempty: "header_text s fs @ rest \<noteq> []"
    by (simp add: header_text_def fields_text_def)
  have loop: "put_loop (is_request s) recorder None (fresh (is_request s) b h sk) (header_text s fs @ rest) =
      (case step_fields (is_request s) recorder None st1 (fields_text fs @ rest) of
        (goes_on, ec, st, p) \<Rightarrow>
          if goes_on \<and> p \<noteq> [] \<and> \<not> is_done st \<and> eager st then put_loop (is_request s) recorder ec st p
          else Some (ec, st, p))"
    by (subst put_loop.simps, subst put_step.simps) (simp add: st0_def [symmetric] step(1) nonempty del: append_is_Nil_conv)
  have more: "maybe_need_more st1 p None = (None, st1)" for p
    by (simp add: maybe_need_more_def st1_def st0_def)
  have eager: "\<not> eager st1"
    by (simp add: st1_def st0_def eager_def)
  have same: "fields_ok (flags st1) (content fs) \<longleftrightarrow> fields_ok {} (content fs)"
    by (rule fields_ok_cong) (simp_all add: st1_def st0_def)
  have drop: "drop (length (fields_text fs @ t) - length t) (fields_text fs @ rest) = rest"
    by simp
  show ?thesis
  proof (cases "fields_ok {} (content fs)")
    case ok: True
    define st2 where "st2 = st1\<lparr>flags := flags st1 \<union> fields_flags (content fs),
      len := fields_len (content fs) (len st1), derived := derived st1 @ map field_event (content fs)\<rparr>"
    have "fields_ok (flags st1) (content fs)"
      using ok same by blast
    then have run: "parse_fields recorder st1 (fields_text fs @ t) = (None, st2, t)"
      using parse_fields_run [OF assms(2), of st1 t] by (simp add: st2_def)
    obtain ec st' where fin: "(if is_request s then finish_header_request recorder st2 else finish_header_response recorder st2) = (ec, st')"
      by (cases "if is_request s then finish_header_request recorder st2 else finish_header_response recorder st2")
    have outcome: "header_outcome (body_framing sk s (content fs)) st2 (ec, st')"
      unfolding fin [symmetric]
      by (rule finish_header_outcome [where A = "flags st1"])
         (cases "version11 s"; auto simp: st2_def st1_def st0_def)+
    have not_eager: "Eager \<notin> fields_flags (content fs)"
      using start_flags [of "content fs"] by blast
    have st2: "body_limit st2 = body_limit (fresh (is_request s) b h sk)" "\<not> eager st2"
        "\<not> eager (fresh (is_request s) b h sk)" "state st2 = Fields"
        "derived st2 = start_event s # map field_event (content fs)"
      using not_eager by (cases "version11 s"; simp add: st2_def st1_def st0_def eager_def)+
    have out: "header_outcome (body_framing sk s (content fs))
        ((fresh (is_request s) b h sk)\<lparr>state := Fields, derived := start_event s # map field_event (content fs)\<rparr>) (ec, st')"
        "\<not> eager st'"
      using outcome header_outcome_cong [OF st2, THEN iffD1] st2(2) by (blast, simp add: header_outcome_def)
    have "step_fields (is_request s) recorder None st1 (fields_text fs @ rest) = (True, ec, st', rest)"
      using fin unfolding step_fields_def by (simp add: more step(2) run Let_def)
    then have "put_loop (is_request s) recorder None (fresh (is_request s) b h sk) (header_text s fs @ rest) = Some (ec, st', rest)"
      using loop out(2) by simp
    then have "put (is_request s) recorder (fresh (is_request s) b h sk) (header_text s fs @ rest) =
        Some (length (header_text s fs), ec, st')"
      by (simp add: put_def)
    then show ?thesis
      using ok out(1) by auto
  next
    case False
    then have "\<not> fields_ok (flags st1) (content fs)"
      using same by blast
    then obtain e st' r' where e: "e \<in> {Bad_value, Bad_content_length, Bad_transfer_encoding}"
        and run: "parse_fields recorder st1 (fields_text fs @ t) = (Some e, st', r')"
      using parse_fields_run [OF assms(2), of st1 t] by (metis (no_types, lifting))
    then have "header_error st' n (Some e) q = (Some e, st')" for n q
      by (auto simp: header_error_def)
    then have "put_loop (is_request s) recorder None (fresh (is_request s) b h sk) (header_text s fs @ rest) =
        Some (Some e, st', drop (length (fields_text fs @ t) - length r') (fields_text fs @ rest))"
      using loop unfolding step_fields_def by (simp add: more step(2) run Let_def)
    then show ?thesis
      using False e by (auto simp: put_def)
  qed
qed

section \<open>Properties\<close>

text \<open>
  C10: a header written as RFC 7230 writes it, given to a new parser in one call, is read
  completely and nothing behind it is touched.  The derived class sees the start line, the fields
  with their values, and the end of the header; the parser is then in the state that the framing of
  the body calls for: Content-Length, chunked coding, until the end of the stream, or no body, and
  an announced body above the limit is an error.  A list of fields that the rules for Connection,
  Content-Length and Transfer-Encoding forbid, such as both lengths at once, is an error.
\<close>

theorem header_parsed:
  assumes "start_wf s" "list_all field_wf fs" "length (header_text s fs) \<le> h"
  shows "if fields_ok {} (content fs)
    then \<exists>ec st'. put (is_request s) recorder (fresh (is_request s) b h sk) (header_text s fs @ rest) =
        Some (length (header_text s fs), ec, st') \<and>
      header_outcome (body_framing sk s (content fs))
        ((fresh (is_request s) b h sk)\<lparr>state := Fields, derived := start_event s # map field_event (content fs)\<rparr>) (ec, st')
    else \<exists>e\<in>{Bad_value, Bad_content_length, Bad_transfer_encoding}. \<exists>n st'.
      put (is_request s) recorder (fresh (is_request s) b h sk) (header_text s fs @ rest) = Some (n, Some e, st')"
  by (rule put_header [OF assms(1,2)]) (use assms(3) in \<open>simp_all add: header_text_def\<close>)

theorem header_parsed_witness:
  "\<exists>ec st'. put True recorder (fresh True 10 100 False)
      (header_text (Request ''PUT'' ''/x'' True) [(''content-length'', [('' '', ''5'', [])])] @ ''hello'') =
      Some (length (header_text (Request ''PUT'' ''/x'' True) [(''content-length'', [('' '', ''5'', [])])]), ec, st') \<and>
    header_outcome (body_framing False (Request ''PUT'' ''/x'' True) [(''content-length'', ''5'')])
      ((fresh True 10 100 False)\<lparr>state := Fields, derived := [start_event (Request ''PUT'' ''/x'' True),
        field_event (''content-length'', ''5'')]\<rparr>) (ec, st')"
proof -
  let ?s = "Request ''PUT'' ''/x'' True"
  let ?fs = "[(''content-length'', [('' '', ''5'', [])])]"
  note chars = token_char_iff tchar_code_def alpha_code_def digit_code_def pathchar_iff vchar_code_def uchar_def
    is_control_char_def is_print_iff is_digit_iff
  have "start_wf ?s" "list_all field_wf ?fs" "length (header_text ?s ?fs) \<le> 100"
    by (simp_all add: chars field_wf_def folded_def part_ok_def one_line_def header_text_def fields_text_def
        field_text_def value_text_def part_text_def version_text_def)
  moreover have fields: "content ?fs = [(''content-length'', ''5'')]"
    by (simp add: content_def field_value_def one_line_def)
  moreover have "fields_ok {} [(''content-length'', ''5'')]"
    by (simp add: field_ok_def connection_name_def iequals_iff ascii_tolower_eq length_ok_def dec_value_def chars)
  ultimately show ?thesis
    using header_parsed [of ?s ?fs 100 10 False "''hello''"] by simp
qed

end
