(* ===== verification/Http_Resume.thy ===== *)
theory Http_Resume
  imports Http_Header
begin

text \<open>
  A message that arrives in pieces.
\<close>

section \<open>A caller\<close>

text \<open>
  What the caller of \<open>put\<close> does, as \<open>read_some\<close> does with its buffer: it keeps
  the input that was not consumed, and calls again when there is more and the parser needs it.
\<close>

fun feed :: "bool \<Rightarrow> 'd impl \<Rightarrow> 'd parser \<Rightarrow> string \<Rightarrow> string list \<Rightarrow> (ec \<times> 'd parser \<times> string) option" where
  "feed q I st pending [] = Some (Some Need_more, st, pending)"
| "feed q I st pending (p # ps) =
     (case put q I st (pending @ p) of
        None \<Rightarrow> None
      | Some (n, ec, st') \<Rightarrow>
          if ec = Some Need_more then feed q I st' (drop n (pending @ p)) ps
          else Some (ec, st', drop n (pending @ p) @ concat ps))"

section \<open>A start line cut short\<close>

lemma resumes_cases:
  assumes "resumes q a b" "b = Inr (x, r)"
  obtains "a = Inl Need_more" | r' where "a = Inr (x, r')" "r = r' @ q"
proof (cases a)
  case (Inl e)
  then show thesis
    using assms that(1) by simp
next
  case (Inr y)
  then show thesis
    using assms that(2) by (cases y) simp
qed

lemma request_line_cut:
  assumes "start_wf (Request m t v)" "u @ w = start_text (Request m t v)" "w \<noteq> []"
  shows "parse_request_line I st u = (Some Need_more, st, u)"
proof -
  have "\<not> is_token_char (CHR '' '')" "\<not> is_pathchar (CHR '' '')"
    by (simp_all add: token_char_iff tchar_code_def digit_code_def alpha_code_def pathchar_iff vchar_code_def uchar_def)
  then have full: "parse_method (u @ w) = Inr (m, t @ '' '' @ version_text v @ [CR, LF])"
      "parse_target (t @ '' '' @ version_text v @ [CR, LF]) = Inr (t, version_text v @ [CR, LF])"
      "parse_version (version_text v @ [CR, LF]) = Inr (if v then 11 else 10, [CR, LF])"
    using assms(1) parse_version_text [of v] unfolding assms(2)
    by (simp_all add: parse_method_def parse_target_def word_loop_text)
  show ?thesis
  proof (rule resumes_cases [OF resumes_method full(1)])
    fix r1
    assume m: "parse_method u = Inr (m, r1)" and r1: "t @ '' '' @ version_text v @ [CR, LF] = r1 @ w"
    show ?thesis
    proof (rule resumes_cases [OF resumes_target full(2) [unfolded r1]])
      fix r2
      assume t: "parse_target r1 = Inr (t, r2)" and r2: "version_text v @ [CR, LF] = r2 @ w"
      show ?thesis
      proof (rule resumes_cases [OF parse_version_resumes full(3) [unfolded r2]])
        fix r3
        assume v: "parse_version r2 = Inr (if v then 11 else 10, r3)" and r3: "[CR, LF] = r3 @ w"
        then have "length r3 < 2"
          using assms(3) by (cases r3; cases "tl r3"; cases w) auto
        then show ?thesis
          by (simp add: parse_request_line_def m t v)
      qed (simp add: parse_request_line_def m t)
    qed (simp add: parse_request_line_def m)
  qed (simp add: parse_request_line_def)
qed

lemma parse_status_cut:
  assumes "parse_status (p @ q) n = (m, Inr r)"
  obtains "parse_status p n = (n, Inl Need_more)" | r' where "parse_status p n = (m, Inr r')" "r = r' @ q"
proof (cases "length p < 4")
  case True
  then show thesis
    using that(1) by (simp add: parse_status_def)
next
  case False
  then show thesis
    using assms parse_status_resumes [where p = p and n = n and q = q] that(2) by (auto simp: parse_status_def Let_def split: if_splits)
qed

lemma status_line_cut:
  assumes "start_wf (Response c t v)" "u @ w = start_text (Response c t v)" "w \<noteq> []"
  obtains n where "parse_status_line I st u = (Some Need_more, st\<lparr>status := n\<rparr>, u)"
proof -
  have full: "parse_version (u @ w) = Inr (if v then 11 else 10, '' '' @ code_text c @ '' '' @ t @ [CR, LF])"
      "parse_status (code_text c @ '' '' @ t @ [CR, LF]) (status st) = (c, Inr (t @ [CR, LF]))"
      "parse_reason (t @ [CR, LF]) = Inr (t, [])"
    using assms(1) parse_version_text [of v] parse_status_text unfolding assms(2)
    by (simp_all add: parse_reason_def parse_token_text)
  have st: "st\<lparr>status := status st\<rparr> = st"
    by simp
  show ?thesis
  proof (rule resumes_cases [OF parse_version_resumes full(1)])
    assume "parse_version u = Inl Need_more"
    then show thesis
      using that [of "status st"] by (simp add: parse_status_line_def)
  next
    fix r1
    assume v: "parse_version u = Inr (if v then 11 else 10, r1)" and r1: "'' '' @ code_text c @ '' '' @ t @ [CR, LF] = r1 @ w"
    show thesis
    proof (cases r1)
      case Nil
      then show thesis
        using that [of "status st"] v by (simp add: parse_status_line_def)
    next
      case (Cons b r2)
      then have b: "b = CHR '' ''" and r2: "code_text c @ '' '' @ t @ [CR, LF] = r2 @ w"
        using r1 by auto
      show thesis
      proof (rule parse_status_cut [OF full(2) [unfolded r2]])
        assume "parse_status r2 (status st) = (status st, Inl Need_more)"
        then show thesis
          using that [of "status st"] v Cons b by (simp add: parse_status_line_def)
      next
        fix r3
        assume s: "parse_status r2 (status st) = (c, Inr r3)" and r3: "t @ [CR, LF] = r3 @ w"
        show thesis
        proof (rule resumes_cases [OF resumes_reason full(3) [unfolded r3]])
          assume "parse_reason r3 = Inl Need_more"
          then show thesis
            using that [of c] v Cons b s by (simp add: parse_status_line_def)
        next
          fix r4
          assume "[] = r4 @ w"
          then show thesis
            using assms(3) by simp
        qed
      qed
    qed
  qed
qed

lemma start_line_cut:
  assumes "start_wf s" "u @ w = start_text s" "w \<noteq> []"
  obtains n where "(if is_request s then parse_request_line I st u else parse_status_line I st u) =
      (Some Need_more, st\<lparr>status := n\<rparr>, u)" "is_request s \<Longrightarrow> n = status st"
proof (cases s)
  case (Request m t v)
  then show thesis
    using request_line_cut [of m t v u w I st] assms that [of "status st"] by simp
next
  case (Response c t v)
  then show thesis
    using status_line_cut [of c t v u w I st] assms that by auto
qed

section \<open>Fields cut short\<close>

definition after_fields :: "(string \<times> string) list \<Rightarrow> event list parser \<Rightarrow> event list parser" where
  "after_fields xs st = st\<lparr>flags := flags st \<union> fields_flags xs, len := fields_len xs (len st),
     derived := derived st @ map field_event xs\<rparr>"

lemma after_fields_Nil [simp]: "after_fields [] st = st"
  by (simp add: after_fields_def fields_flags_def fields_len_def)

lemma after_fields_Cons:
  "after_fields (x # xs) st = after_fields xs
     (st\<lparr>flags := flags st \<union> field_flags x, len := field_len x (len st), derived := derived st @ [field_event x]\<rparr>)"
  by (simp add: after_fields_def fields_flags_def fields_len_def Un_assoc)

lemma after_fields_append: "after_fields (xs @ ys) st = after_fields ys (after_fields xs st)"
  by (induction xs arbitrary: st) (simp_all add: after_fields_Cons)

lemma content_append: "content (fs @ gs) = content fs @ content gs"
  by (simp add: content_def)

lemma fields_cut:
  assumes "list_all field_wf fs" "fields_ok (flags st) (content fs)" "u @ w = fields_text fs" "w \<noteq> []"
  obtains gs hs u' where "fs = gs @ hs" "u' @ w = fields_text hs"
    "parse_fields recorder st u = (Some Need_more, after_fields (content gs) st, u')"
  using assms
proof (induction fs arbitrary: st u thesis)
  case Nil
  then have "length u < 2"
    by (cases u; cases "tl u"; cases w) (auto simp: fields_text_def)
  then show ?case
    using Nil.prems(1) [of "[]" "[]" u] Nil.prems(4) by (simp add: parse_fields.simps content_def)
next
  case (Cons f fs)
  obtain n ps where f: "f = (n, ps)"
    by (cases f)
  have wf: "field_wf (n, ps)" "list_all field_wf fs" "list_all is_token_char n"
    using Cons.prems by (auto simp: f field_wf_def)
  have start: "fields_text fs \<noteq> []" "\<not> is_ows (hd (fields_text fs))"
    using fields_text_start [OF wf(2), of "[]"] by simp_all
  have whole: "u @ w = field_text (n, ps) @ fields_text fs"
    using Cons.prems(4) by (simp add: f fields_text_Cons)
  have gs: ?case if "parse_fields recorder st u = (Some Need_more, st, u)"
    using Cons.prems(1) [of "[]" "f # fs" u] that Cons.prems(4) by (simp add: content_def)
  show ?case
  proof (cases "length u < 2")
    case True
    then show ?thesis
      by (intro gs) (simp add: parse_fields.simps)
  next
    case long: False
    have "n \<noteq> []" "is_token_char (hd n)"
      using wf by (cases n; simp add: field_wf_def)+
    then have hd: "u ! 0 \<noteq> CR"
      using whole long by (cases n; cases u; auto simp: field_text_def token_char_iff tchar_code_def digit_code_def
          alpha_code_def uchar_def)
    obtain mem where field: "parse_field (u @ w) = Inr (n, field_value ps, mem, fields_text fs)"
      using parse_field_wf [OF wf(1) start] unfolding whole by blast
    show ?thesis
    proof (cases "parse_field u")
      case (Inl e)
      then have "e = Need_more"
        using parse_field_resumes [of u w] field by simp
      then show ?thesis
        using Inl long hd by (intro gs) (simp add: parse_fields.simps [of recorder st u])
    next
      case (Inr x)
      then obtain mem1 r1 where x: "parse_field u = Inr (n, field_value ps, mem1, r1)" and r1: "r1 @ w = fields_text fs"
        using parse_field_resumes [of u w] field by (cases x) auto
      have ok: "field_ok (flags st) (n, field_value ps)"
        using Cons.prems(3) by (simp add: f content_simps)
      let ?st = "st\<lparr>flags := flags st \<union> field_flags (n, field_value ps), len := field_len (n, field_value ps) (len st),
        derived := derived st @ [field_event (n, field_value ps)]\<rparr>"
      have run: "parse_fields recorder st u = parse_fields recorder ?st r1"
        using long hd by (simp add: parse_fields.simps [of recorder st u] x Let_def
            do_field_ok(1) [OF wf(3) parse_field_mem [OF x] ok])
      have "fields_ok (flags ?st) (content fs)"
        using Cons.prems(3) by (simp add: f content_simps)
      then obtain gs hs u' where "fs = gs @ hs" "u' @ w = fields_text hs"
          "parse_fields recorder ?st r1 = (Some Need_more, after_fields (content gs) ?st, u')"
        using Cons.IH [OF _ wf(2) _ r1 Cons.prems(5)] by blast
      then show ?thesis
        using Cons.prems(1) [of "f # gs" hs u'] run by (simp add: f content_simps after_fields_Cons)
    qed
  qed
qed

section \<open>Where the search resumes\<close>

lemma after_first_found: "after_first w (a @ w @ b) \<noteq> None"
proof (induction a)
  case Nil
  have "take (length w) (w @ b) = w"
    by simp
  then show ?case
    by (cases "w @ b") (auto simp del: take_append)
qed simp

lemma find_eom_found:
  assumes "k \<le> length a"
  shows "find_eom (drop k (a @ [CR, LF, CR, LF] @ b)) \<noteq> None"
  using after_first_found [of "[CR, LF, CR, LF]" "drop k a" b] assms by (simp add: find_eom_eq)

lemma maybe_need_more_found:
  assumes "length t \<le> header_limit st" "t = a @ [CR, LF, CR, LF]" "skip st + 4 \<le> length t"
  shows "maybe_need_more st (t @ rest) None = (None, st\<lparr>skip := 0\<rparr>)"
proof (cases "skip st = 0")
  case True
  then show ?thesis
    by (simp add: maybe_need_more_def)
next
  case False
  let ?n = "min (length (t @ rest)) (header_limit st)"
  have "length t \<le> ?n"
    using assms(1) by simp
  then have "take ?n (t @ rest) = t @ take (?n - length t) rest"
    by (simp only: take_append take_all)
  then have "take ?n (t @ rest) = a @ [CR, LF, CR, LF] @ take (?n - length t) rest"
    by (simp only: assms(2) append_assoc)
  then have "find_eom (drop (skip st) (take ?n (t @ rest))) \<noteq> None"
    using find_eom_found [of "skip st" a] assms(2,3) by (simp only:) simp
  then obtain r where "find_eom (drop (skip st) (take ?n (t @ rest))) = Some r"
    by blast
  moreover have "\<not> ?n < skip st + 4"
    using assms(1,3) by simp
  ultimately show ?thesis
    using False unfolding maybe_need_more_def Let_def by (simp only: if_False option.case)
qed

lemma maybe_need_more_cases:
  assumes "length p < header_limit st" "skip st + 3 \<le> length p \<or> skip st = 0"
  obtains "maybe_need_more st p None = (None, st\<lparr>skip := 0\<rparr>)"
    | k where "maybe_need_more st p None = (Some Need_more, st\<lparr>skip := k\<rparr>)" "k + 3 \<le> length p \<or> k = 0"
proof -
  consider "skip st = 0" | "skip st \<noteq> 0" "length p < skip st + 4"
    | "skip st \<noteq> 0" "\<not> length p < skip st + 4" "find_eom (drop (skip st) p) = None"
    | "skip st \<noteq> 0" "\<not> length p < skip st + 4" "find_eom (drop (skip st) p) \<noteq> None"
    by blast
  then show thesis
  proof cases
    case 1
    then show thesis
      using that(1) by (simp add: maybe_need_more_def)
  next
    case 2
    then show thesis
      using that(2) [of "skip st"] assms by (simp add: maybe_need_more_def Let_def)
  next
    case 3
    then show thesis
      using that(2) [of "length p - 3"] assms by (simp add: maybe_need_more_def Let_def)
  next
    case 4
    then show thesis
      using that(1) assms by (simp add: maybe_need_more_def Let_def split: option.splits)
  qed
qed

lemma header_error_more:
  assumes "n < header_limit st" "skip st = 0"
  obtains k where "header_error st n (Some Need_more) p = (Some Need_more, st\<lparr>skip := k\<rparr>)" "k + 3 \<le> length p \<or> k = 0"
proof (cases "3 \<le> length p")
  case True
  then show thesis
    using assms that [of "length p - 3"] by (simp add: header_error_def)
next
  case False
  then show thesis
    using assms that [of 0] by (simp add: header_error_def)
qed

section \<open>Between two calls\<close>

definition started :: "start \<Rightarrow> event list parser \<Rightarrow> event list parser" where
  "started s st = (if version11 s then set_flag HTTP11 st else st)
     \<lparr>status := if is_request s then status st else code s, state := Fields, derived := derived st @ [start_event s]\<rparr>"

text \<open>
  The parser has read the start line and some fields; \<open>pending\<close> is the input it left, and
  \<open>w\<close> what is still to come of the header.
\<close>

definition in_fields :: "start \<Rightarrow> hfield list \<Rightarrow> event list parser \<Rightarrow> string \<Rightarrow> string \<Rightarrow> event list parser \<Rightarrow> bool" where
  "in_fields s fs st0 pending w st \<longleftrightarrow>
     (\<exists>gs hs k. fs = gs @ hs \<and> pending @ w = fields_text hs \<and> (k + 3 \<le> length pending \<or> k = 0) \<and>
        st = (after_fields (content gs) (started s st0))\<lparr>skip := k\<rparr>)"

lemma started_simps [simp]:
  "header_limit (started s st) = header_limit st" "skip (started s st) = skip st" "state (started s st) = Fields"
  "fields_ok (flags (started s st)) xs \<longleftrightarrow> fields_ok (flags st) xs"
  by (simp_all add: started_def fields_ok_cong [of "insert HTTP11 (flags st)" "flags st"])

lemma started_flags [simp]: "fields_ok (flags (started s st) \<union> F) xs \<longleftrightarrow> fields_ok (flags st \<union> F) xs"
  by (rule fields_ok_cong) (simp_all add: started_def)

lemma after_fields_simps [simp]:
  "header_limit (after_fields xs st) = header_limit st" "skip (after_fields xs st) = skip st"
  "state (after_fields xs st) = state st" "after_fields xs (st\<lparr>skip := k\<rparr>) = (after_fields xs st)\<lparr>skip := k\<rparr>"
  "flags (after_fields xs st) = flags st \<union> fields_flags xs"
  by (simp_all add: after_fields_def)

lemma fields_ok_append:
  "fields_ok F (xs @ ys) \<longleftrightarrow> fields_ok F xs \<and> fields_ok (F \<union> fields_flags xs) ys"
proof (induction xs arbitrary: F)
  case (Cons x xs)
  have "F \<union> field_flags x \<union> fields_flags xs = F \<union> fields_flags (x # xs)"
    by (auto simp: fields_flags_def)
  then show ?case
    using Cons.IH by simp
qed (simp add: fields_flags_def)

lemma in_fields_more:
  assumes given: "list_all field_wf fs" "fields_ok (flags st0) (content fs)" "skip st0 = 0"
    and mid: "in_fields s fs st0 pending (x @ w) st" "w \<noteq> []" "length (pending @ x) < header_limit st0"
  obtains st' pending' used where "step_fields q recorder None st (pending @ x) = (False, Some Need_more, st', pending')"
    "in_fields s fs st0 pending' w st'" "pending @ x = used @ pending'"
proof -
  obtain gs hs k where m: "fs = gs @ hs" "pending @ x @ w = fields_text hs" "k + 3 \<le> length pending \<or> k = 0"
      and st: "st = (after_fields (content gs) (started s st0))\<lparr>skip := k\<rparr>"
    using mid(1) unfolding in_fields_def by blast
  let ?st = "after_fields (content gs) (started s st0)" and ?p = "pending @ x"
  have limit: "length ?p < header_limit st" "skip st + 3 \<le> length ?p \<or> skip st = 0"
    using mid(3) m(3) by (auto simp: st)
  show thesis
  proof (rule maybe_need_more_cases [OF limit])
    fix k'
    assume a: "maybe_need_more st ?p None = (Some Need_more, st\<lparr>skip := k'\<rparr>)" "k' + 3 \<le> length ?p \<or> k' = 0"
    have "step_fields q recorder None st ?p = (False, Some Need_more, st\<lparr>skip := k'\<rparr>, ?p)"
      unfolding step_fields_def a by simp
    moreover have "in_fields s fs st0 ?p w (st\<lparr>skip := k'\<rparr>)"
      unfolding in_fields_def using m a(2) by (intro exI [of _ gs] exI [of _ hs] exI [of _ k']) (simp add: st)
    ultimately show thesis
      using that [of "st\<lparr>skip := k'\<rparr>" ?p "[]"] by simp
  next
    assume more: "maybe_need_more st ?p None = (None, st\<lparr>skip := 0\<rparr>)"
    have st0: "st\<lparr>skip := 0\<rparr> = ?st"
      using given(3) by (simp add: st after_fields_def started_def)
    have ok: "list_all field_wf hs" "fields_ok (flags ?st) (content hs)" "?p @ w = fields_text hs"
      using given(1,2) m by (simp_all add: content_append fields_ok_append)
    obtain gs2 hs2 u where u: "hs = gs2 @ hs2" "u @ w = fields_text hs2"
        "parse_fields recorder ?st ?p = (Some Need_more, after_fields (content gs2) ?st, u)"
      using fields_cut [OF ok mid(2)] by blast
    have "?p @ w = (concat (map field_text gs2) @ u) @ w"
      using ok(3) u(1,2) by (simp add: fields_text_def)
    then have used: "?p = concat (map field_text gs2) @ u"
      by (simp only: append_same_eq)
    have lim: "limited ?st ?p = ?p"
      using mid(3) by (simp add: limited_def)
    obtain k' where e: "header_error (after_fields (content gs2) ?st) (length ?p) (Some Need_more) u =
        (Some Need_more, (after_fields (content gs2) ?st)\<lparr>skip := k'\<rparr>)" "k' + 3 \<le> length u \<or> k' = 0"
      using header_error_more [of "length ?p" "after_fields (content gs2) ?st" u] mid(3) given(3) by auto
    have "drop (length ?p - length u) ?p = u"
      by (subst (2) used) (simp add: used)
    then have "step_fields q recorder None st ?p =
        (False, Some Need_more, (after_fields (content gs2) ?st)\<lparr>skip := k'\<rparr>, u)"
      unfolding step_fields_def more st0 by (simp add: lim u(3) e(1) del: length_append append_is_Nil_conv)
    moreover have "in_fields s fs st0 u w ((after_fields (content gs2) ?st)\<lparr>skip := k'\<rparr>)"
      unfolding in_fields_def using m(1) u(1,2) e(2)
      by (intro exI [of _ "gs @ gs2"] exI [of _ hs2] exI [of _ k']) (simp add: content_append after_fields_append)
    ultimately show thesis
      using that used by blast
  qed
qed

lemma fields_text_end:
  assumes "list_all field_wf hs" "hs \<noteq> []"
  obtains a where "fields_text hs = a @ [CR, LF, CR, LF]"
proof -
  obtain hs' n ps where hs: "hs = hs' @ [(n, ps)]"
    using assms(2) by (cases hs rule: rev_cases) auto
  then have "ps \<noteq> []"
    using assms(1) by (simp add: field_wf_def)
  then obtain qs pre v post where "ps = qs @ [(pre, v, post)]"
    by (cases ps rule: rev_cases) auto
  then have "fields_text hs = (concat (map field_text hs') @ n @ CHR '':'' # concat (map part_text qs) @ pre @ v @ post)
      @ [CR, LF, CR, LF]"
    by (simp add: hs fields_text_def field_text_def value_text_def part_text_def)
  then show thesis
    by (rule that)
qed

lemma header_text_end:
  assumes "list_all field_wf fs"
  obtains a where "header_text s fs = a @ [CR, LF, CR, LF]"
proof (cases "fs = []")
  case True
  then show thesis
    using that by (cases s) (auto simp: header_text_def fields_text_def)
next
  case False
  then obtain a where "fields_text fs = a @ [CR, LF, CR, LF]"
    using fields_text_end [OF assms] by blast
  then show thesis
    using that [of "start_text s @ a"] by (simp add: header_text_def)
qed

definition finish_header :: "bool \<Rightarrow> event list parser \<Rightarrow> ec \<times> event list parser" where
  "finish_header q st = (if q then finish_header_request recorder st else finish_header_response recorder st)"

lemma in_fields_rest:
  assumes given: "list_all field_wf fs" "fields_ok (flags st0) (content fs)" "skip st0 = 0"
    and mid: "in_fields s fs st0 pending w st" "w \<noteq> []" "length (pending @ w) \<le> header_limit st0"
    and fin: "finish_header q (after_fields (content fs) (started s st0)) = (ec, st')"
  shows "step_fields q recorder None st (pending @ w @ rest) = (True, ec, st', rest)"
proof -
  obtain gs hs k where m: "fs = gs @ hs" "pending @ w = fields_text hs" "k + 3 \<le> length pending \<or> k = 0"
      and st: "st = (after_fields (content gs) (started s st0))\<lparr>skip := k\<rparr>"
    using mid(1) unfolding in_fields_def by blast
  let ?st = "after_fields (content gs) (started s st0)"
  have st0: "st\<lparr>skip := 0\<rparr> = ?st"
    using given(3) by (simp add: st after_fields_def started_def)
  have more: "maybe_need_more st (fields_text hs @ rest) None = (None, ?st)"
  proof (cases "k = 0")
    case True
    then show ?thesis
      using st0 given(3) by (simp add: maybe_need_more_def st)
  next
    case False
    then have "k + 3 < length (fields_text hs)"
      using m(2,3) mid(2) by (metis add.right_neutral add_less_cancel_left length_append length_greater_0_conv le_less_trans
          less_add_same_cancel1 nat_less_le)
    then have long: "k + 4 \<le> length (fields_text hs)"
      by simp
    then have "hs \<noteq> []"
      by (auto simp: fields_text_def)
    then obtain a where "fields_text hs = a @ [CR, LF, CR, LF]"
      using fields_text_end [of hs] given(1) m(1) by auto
    then show ?thesis
      using maybe_need_more_found [of "fields_text hs" st a rest] long mid(3) m(2) st0 by (simp add: st)
  qed
  have ok: "list_all field_wf hs" "fields_ok (flags ?st) (content hs)"
    using given(1,2) m by (simp_all add: content_append fields_ok_append)
  have lim: "limited ?st (fields_text hs @ rest) = fields_text hs @ take (header_limit st0 - length (fields_text hs)) rest"
    using mid(3) m(2) by (simp add: limited_def)
  have run: "parse_fields recorder ?st (fields_text hs @ r) = (None, after_fields (content hs) ?st, r)" for r
    using parse_fields_run [OF ok(1), of ?st r] ok(2) by (simp add: after_fields_def)
  have "after_fields (content hs) ?st = after_fields (content fs) (started s st0)"
    by (simp add: m(1) content_append after_fields_append)
  then show ?thesis
    unfolding append_assoc [symmetric] m(2) step_fields_def more
    using fin by (simp add: lim run finish_header_def)
qed

definition waiting :: "start \<Rightarrow> hfield list \<Rightarrow> event list parser \<Rightarrow> string \<Rightarrow> string \<Rightarrow> event list parser \<Rightarrow> bool" where
  "waiting s fs st0 pending w st \<longleftrightarrow>
     pending = [] \<and> w = header_text s fs \<and> st = st0\<lparr>state := Nothing_yet\<rparr> \<or>
     pending @ w = header_text s fs \<and> (\<exists>k n. st = st0\<lparr>state := Start_line, status := n, skip := k\<rparr> \<and>
        (is_request s \<longrightarrow> n = status st0) \<and> (k + 3 \<le> length pending \<or> k = 0)) \<or>
     in_fields s fs st0 pending w st"

lemma started_eq:
  "skip st0 = 0 \<Longrightarrow> is_request s \<longrightarrow> n = status st0 \<Longrightarrow>
   started s (st0\<lparr>state := Start_line, status := n, skip := 0\<rparr>) = started s st0"
  by (cases "is_request s") (simp_all add: started_def)

lemma parse_start_started:
  "start_wf s \<Longrightarrow> (if is_request s then parse_request_line recorder st (start_text s @ r)
     else parse_status_line recorder st (start_text s @ r)) = (None, started s st, r)"
  using parse_start_text [of s st r] by (simp add: started_def)

lemma loop_stops:
  "put_step q I ec st p = (False, ec', st', p') \<Longrightarrow> put_loop q I ec st p = Some (ec', st', p')"
  "put_step q I ec st p = (True, ec', st', p') \<Longrightarrow> \<not> eager st' \<Longrightarrow> put_loop q I ec st p = Some (ec', st', p')"
  by (subst put_loop.simps; simp)+

text \<open>The start line, when the rest of the header is not there.\<close>

lemma start_line_more:
  assumes given: "start_wf s" "list_all field_wf fs" "fields_ok (flags st0) (content fs)" "skip st0 = 0"
    and st: "st = st0\<lparr>state := Start_line, status := n, skip := k\<rparr>" "is_request s \<longrightarrow> n = status st0"
    and p: "p @ w = header_text s fs" "w \<noteq> []" "length p < header_limit st0" "k + 3 \<le> length p \<or> k = 0"
  obtains st' p' used where "step_start_line (is_request s) recorder None st p = (False, Some Need_more, st', p')"
    "waiting s fs st0 p' w st'" "p = used @ p'"
proof -
  have limit: "length p < header_limit st" "skip st + 3 \<le> length p \<or> skip st = 0"
    using p(3,4) by (auto simp: st)
  show thesis
  proof (rule maybe_need_more_cases [OF limit])
    fix k'
    assume a: "maybe_need_more st p None = (Some Need_more, st\<lparr>skip := k'\<rparr>)" "k' + 3 \<le> length p \<or> k' = 0"
    have "step_start_line (is_request s) recorder None st p = (False, Some Need_more, st\<lparr>skip := k'\<rparr>, p)"
      unfolding step_start_line_def a by simp
    moreover have "waiting s fs st0 p w (st\<lparr>skip := k'\<rparr>)"
      unfolding waiting_def using p(1) a(2) st by auto
    ultimately show thesis
      using that [of "st\<lparr>skip := k'\<rparr>" p "[]"] by simp
  next
    assume more: "maybe_need_more st p None = (None, st\<lparr>skip := 0\<rparr>)"
    let ?st = "st0\<lparr>state := Start_line, status := n, skip := 0\<rparr>"
    have st0: "st\<lparr>skip := 0\<rparr> = ?st"
      by (simp add: st)
    have lim: "limited ?st p = p"
      using p(3) by (simp add: limited_def)
    show thesis
    proof (cases "length p < length (start_text s)")
      case True
      define w' where "w' = drop (length p) (start_text s)"
      have "take (length p) (start_text s @ fields_text fs) = p"
        using p(1) by (simp add: header_text_def [symmetric] p(1) [symmetric])
      then have w': "p @ w' = start_text s" "w' \<noteq> []"
        using True append_take_drop_id [of "length p" "start_text s"] by (auto simp: w'_def)
      obtain m where m: "(if is_request s then parse_request_line recorder ?st p else parse_status_line recorder ?st p) =
          (Some Need_more, ?st\<lparr>status := m\<rparr>, p)" "is_request s \<Longrightarrow> m = status ?st"
        using start_line_cut [OF given(1) w'] by blast
      obtain k' where e: "header_error (?st\<lparr>status := m\<rparr>) (length p) (Some Need_more) p =
          (Some Need_more, ?st\<lparr>status := m, skip := k'\<rparr>)" "k' + 3 \<le> length p \<or> k' = 0"
        using header_error_more [of "length p" "?st\<lparr>status := m\<rparr>" p] p(3) by auto
      have "step_start_line (is_request s) recorder None st p = (False, Some Need_more, ?st\<lparr>status := m, skip := k'\<rparr>, p)"
        using e(1) unfolding step_start_line_def more st0
        by (simp only: prod.case option.case lim m(1) Let_def) simp
      moreover have "waiting s fs st0 p w (?st\<lparr>status := m, skip := k'\<rparr>)"
        unfolding waiting_def using p(1) e(2) m(2) st(2) by auto
      ultimately show thesis
        using that [of _ p "[]"] by simp
    next
      case False
      define r where "r = drop (length (start_text s)) p"
      have "take (length (start_text s)) (p @ w) = start_text s"
        by (simp add: p(1) header_text_def)
      then have r: "p = start_text s @ r"
        using False append_take_drop_id [of "length (start_text s)" p] by (simp add: r_def)
      then have r: "p = start_text s @ r" "r @ w = fields_text fs"
        using p(1) by (simp_all add: header_text_def)
      have start: "(if is_request s then parse_request_line recorder ?st p else parse_status_line recorder ?st p) =
          (None, started s st0, r)"
        by (simp only: r(1) parse_start_started [OF given(1)] started_eq [OF given(4) st(2)])
      have drop: "drop (length p - length r) p = r"
        by (simp add: r(1))
      have step: "step_start_line (is_request s) recorder None st p =
          (if r = [] then (False, Some Need_more, started s st0, r)
           else step_fields (is_request s) recorder None (started s st0) r)"
        unfolding step_start_line_def more st0
        by (simp only: prod.case option.case lim start Let_def drop simp_thms if_False)
      have mid: "in_fields s fs st0 [] (r @ w) (started s st0)"
        unfolding in_fields_def using r(2) given(4)
        by (intro exI [of _ "[]"] exI [of _ fs] exI [of _ 0]) (simp add: content_def started_def)
      show thesis
      proof (cases "r = []")
        case True
        then show thesis
          using that [of "started s st0" r "start_text s"] step mid r(1) by (simp add: waiting_def)
      next
        case nonempty: False
        obtain st' r' used where more: "step_fields (is_request s) recorder None (started s st0) ([] @ r) = (False, Some Need_more, st', r')"
            "in_fields s fs st0 r' w st'" "[] @ r = used @ r'"
          using in_fields_more [OF given(2,3,4) mid p(2), of "is_request s"] p(3) r(1) by auto
        have "step_start_line (is_request s) recorder None st p = (False, Some Need_more, st', r')"
          using more(1) nonempty by (simp add: step)
        moreover have "p = (start_text s @ used) @ r'"
          using r(1) more(3) by simp
        ultimately show thesis
          using that more(2) by (auto simp: waiting_def)
      qed
    qed
  qed
qed

lemma start_line_rest:
  assumes given: "start_wf s" "list_all field_wf fs" "fields_ok (flags st0) (content fs)" "skip st0 = 0"
    and st: "st = st0\<lparr>state := Start_line, status := n, skip := k\<rparr>" "is_request s \<longrightarrow> n = status st0"
    and p: "pending @ w = header_text s fs" "w \<noteq> []" "length (header_text s fs) \<le> header_limit st0"
      "k + 3 \<le> length pending \<or> k = 0"
    and fin: "finish_header (is_request s) (after_fields (content fs) (started s st0)) = (ec, st')"
  shows "step_start_line (is_request s) recorder None st (header_text s fs @ rest) = (True, ec, st', rest)"
proof -
  let ?st = "st0\<lparr>state := Start_line, status := n, skip := 0\<rparr>"
  let ?p = "header_text s fs @ rest"
  have st0: "st\<lparr>skip := 0\<rparr> = ?st"
    by (simp add: st)
  obtain a where a: "header_text s fs = a @ [CR, LF, CR, LF]"
    using header_text_end [OF given(2)] by blast
  have more: "maybe_need_more st ?p None = (None, ?st)"
  proof (cases "k = 0")
    case True
    then show ?thesis
      by (simp add: maybe_need_more_def st)
  next
    case False
    have "length (header_text s fs) = length pending + length w"
      by (simp add: p(1) [symmetric])
    then have "skip st + 4 \<le> length (header_text s fs)"
      using False p(2,4) by (cases w) (auto simp: st)
    then show ?thesis
      using maybe_need_more_found [OF _ a, of st rest] p(3) st0 by (simp add: st)
  qed
  define r where "r = take (header_limit st0 - length (start_text s)) (fields_text fs @ rest)"
  have lim: "limited ?st ?p = start_text s @ r"
    using p(3) by (simp add: limited_def header_text_def r_def)
  have drop: "drop (length (start_text s @ r) - length r) ?p = fields_text fs @ rest"
    by (simp add: header_text_def)
  have nonempty: "fields_text fs @ rest \<noteq> []"
    by (simp add: fields_text_def)
  have "step_start_line (is_request s) recorder None st ?p =
      step_fields (is_request s) recorder None (started s st0) (fields_text fs @ rest)"
    unfolding step_start_line_def more
    by (simp only: prod.case option.case lim parse_start_started [OF given(1)] started_eq [OF given(4) st(2)]
        Let_def drop nonempty simp_thms if_False)
  also have "... = (True, ec, st', rest)"
  proof -
    have "in_fields s fs st0 [] (fields_text fs) (started s st0)"
      unfolding in_fields_def using given(4)
      by (intro exI [of _ "[]"] exI [of _ fs] exI [of _ 0]) (simp add: content_def started_def)
    then show ?thesis
      using in_fields_rest [OF given(2,3,4) _ _ _ fin, where pending = "[]" and w = "fields_text fs"] p(3)
      by (simp add: header_text_def fields_text_def)
  qed
  finally show ?thesis .
qed

text \<open>One call while the header is not complete, and the call that completes it.\<close>

lemma step_more:
  "put_step q I None st p = (False, Some Need_more, st', p') \<Longrightarrow> p = used @ p' \<Longrightarrow> state st \<noteq> Complete \<Longrightarrow>
   put q I st p = Some (length used, Some Need_more, st') \<and> drop (length used) p = p'"
  by (simp add: put_def loop_stops(1))

lemma put_more:
  assumes given: "start_wf s" "list_all field_wf fs" "fields_ok (flags st0) (content fs)" "skip st0 = 0"
    and mid: "waiting s fs st0 pending (x @ w) st" "w \<noteq> []" "length (header_text s fs) \<le> header_limit st0"
  shows "\<exists>n st'. put (is_request s) recorder st (pending @ x) = Some (n, Some Need_more, st') \<and>
    n \<le> length (pending @ x) \<and> waiting s fs st0 (drop n (pending @ x)) w st'"
proof -
  let ?p = "pending @ x" and ?q = "is_request s"
  have short: "length ?p < header_limit st0" if "pending @ x @ w = c" "length c \<le> header_limit st0" for c
    using that mid(2) by (cases w) auto
  have at_line: ?thesis if st: "put_step ?q recorder None st ?p =
        step_start_line ?q recorder None (st0\<lparr>state := Start_line, status := n, skip := k\<rparr>) ?p" "state st \<noteq> Complete"
      "is_request s \<longrightarrow> n = status st0" "k + 3 \<le> length pending \<or> k = 0" and p: "pending @ x @ w = header_text s fs" for n k
  proof -
    have whole: "?p @ w = header_text s fs" and k: "k + 3 \<le> length ?p \<or> k = 0"
      using p st(4) by auto
    obtain st' p' used where "step_start_line ?q recorder None (st0\<lparr>state := Start_line, status := n, skip := k\<rparr>) ?p =
        (False, Some Need_more, st', p')" "waiting s fs st0 p' w st'" "?p = used @ p'"
      using start_line_more [OF given refl st(3) whole mid(2) short [OF p mid(3)] k] by blast
    then show ?thesis
      using step_more [of ?q recorder st ?p st' p' used] st(1,2) by auto
  qed
  from mid(1) consider (new) "pending = []" "x @ w = header_text s fs" "st = st0\<lparr>state := Nothing_yet\<rparr>"
    | (line) k n where "st = st0\<lparr>state := Start_line, status := n, skip := k\<rparr>" "is_request s \<longrightarrow> n = status st0"
        "k + 3 \<le> length pending \<or> k = 0" "pending @ x @ w = header_text s fs"
    | (fields) "in_fields s fs st0 pending (x @ w) st"
    unfolding waiting_def by blast
  then show ?thesis
  proof cases
    case new
    show ?thesis
    proof (cases "x = []")
      case True
      then show ?thesis
        using new step_more [of ?q recorder st "[]" st "[]" "[]"] by (auto simp: put_step.simps waiting_def)
    next
      case False
      have "st0\<lparr>state := Start_line, status := status st0, skip := 0\<rparr> = st0\<lparr>state := Start_line\<rparr>"
        using given(4) by simp
      then show ?thesis
        using at_line [where n = "status st0" and k = 0] new False by (simp add: put_step.simps)
    qed
  next
    case (line k n)
    then show ?thesis
      using at_line [where n = n and k = k] by (simp add: put_step.simps)
  next
    case fields
    obtain gs hs k where m: "pending @ x @ w = fields_text hs" "fs = gs @ hs" "st = (after_fields (content gs) (started s st0))\<lparr>skip := k\<rparr>"
      using fields unfolding in_fields_def by blast
    have "length (fields_text hs) \<le> length (header_text s fs)"
      by (simp add: header_text_def fields_text_def m(2))
    then have "length ?p < header_limit st0"
      using short [OF m(1)] mid(3) by simp
    then obtain st' p' used where "step_fields ?q recorder None st ?p = (False, Some Need_more, st', p')"
        "in_fields s fs st0 p' w st'" "?p = used @ p'"
      using in_fields_more [OF given(2,3,4) fields mid(2)] by blast
    moreover have "state st = Fields"
      by (simp add: m(3))
    ultimately show ?thesis
      using step_more [of ?q recorder st ?p st' p' used] by (auto simp: put_step.simps waiting_def)
  qed
qed

lemma put_rest:
  assumes given: "start_wf s" "list_all field_wf fs" "fields_ok (flags st0) (content fs)" "skip st0 = 0"
    and mid: "waiting s fs st0 pending w st" "w \<noteq> []" "length (header_text s fs) \<le> header_limit st0"
    and fin: "finish_header (is_request s) (after_fields (content fs) (started s st0)) = (ec, st')" "\<not> eager st'"
  shows "put (is_request s) recorder st (pending @ w @ rest) = Some (length (pending @ w), ec, st')"
proof -
  let ?p = "pending @ w @ rest" and ?q = "is_request s"
  have "put_step ?q recorder None st ?p = (True, ec, st', rest) \<and> state st \<noteq> Complete"
  proof -
    from mid(1) consider (new) "pending = []" "w = header_text s fs" "st = st0\<lparr>state := Nothing_yet\<rparr>"
      | (line) k n where "st = st0\<lparr>state := Start_line, status := n, skip := k\<rparr>" "is_request s \<longrightarrow> n = status st0"
          "k + 3 \<le> length pending \<or> k = 0" "pending @ w = header_text s fs"
      | (fields) "in_fields s fs st0 pending w st"
      unfolding waiting_def by blast
    then show ?thesis
    proof cases
      case new
      have "st0\<lparr>state := Start_line, status := status st0, skip := 0\<rparr> = st0\<lparr>state := Start_line\<rparr>"
        using given(4) by simp
      then show ?thesis
        using start_line_rest [where n = "status st0" and k = 0 and pending = "[]" and rest = rest, OF given refl _ _ mid(2,3) _ fin(1)] new
        by (simp add: put_step.simps header_text_def fields_text_def)
    next
      case (line k n)
      have "?p = header_text s fs @ rest"
        using line(4) by (simp only: append_assoc [symmetric])
      then show ?thesis
        using start_line_rest [OF given line(1,2,4) mid(2,3) line(3) fin(1), of rest] line(1)
        by (simp only: put_step.simps) (simp add: put_step.simps)
    next
      case fields
      obtain gs hs k where m: "pending @ w = fields_text hs" "fs = gs @ hs" "st = (after_fields (content gs) (started s st0))\<lparr>skip := k\<rparr>"
        using fields unfolding in_fields_def by blast
      have "length (fields_text hs) \<le> length (header_text s fs)"
        by (simp add: header_text_def fields_text_def m(2))
      then show ?thesis
        using in_fields_rest [OF given(2,3,4) fields mid(2) _ fin(1), of rest] mid(3) m(1,3)
        by (simp add: put_step.simps)
    qed
  qed
  then show ?thesis
    using loop_stops(2) [of ?q recorder None st ?p ec st' rest] fin(2) by (simp add: put_def)
qed

section \<open>Any division of the input\<close>

lemma concat_split:
  "concat qs = h @ rest \<Longrightarrow> h \<noteq> [] \<Longrightarrow>
   \<exists>ps x r qs'. qs = ps @ (x @ r) # qs' \<and> concat ps @ x = h \<and> x \<noteq> [] \<and> rest = r @ concat qs'"
proof (induction qs arbitrary: h)
  case (Cons q qs)
  show ?case
  proof (cases "length h \<le> length q")
    case True
    then obtain r where "q = h @ r" "rest = r @ concat qs"
      using Cons.prems(1) by (auto simp: append_eq_append_conv2)
    then show ?thesis
      using Cons.prems(2) by (intro exI [of _ "[]"] exI [of _ h] exI [of _ r] exI [of _ qs]) simp
  next
    case False
    then obtain h' where h: "h = q @ h'" "concat qs = h' @ rest" "h' \<noteq> []"
      using Cons.prems(1) by (auto simp: append_eq_append_conv2)
    then obtain ps x r qs' where "qs = ps @ (x @ r) # qs'" "concat ps @ x = h'" "x \<noteq> []" "rest = r @ concat qs'"
      using Cons.IH by blast
    then show ?thesis
      using h(1) by (intro exI [of _ "q # ps"] exI [of _ x] exI [of _ r] exI [of _ qs']) simp
  qed
qed simp

lemma feed_header:
  assumes given: "start_wf s" "list_all field_wf fs" "fields_ok (flags st0) (content fs)" "skip st0 = 0"
      "length (header_text s fs) \<le> header_limit st0"
    and fin: "finish_header (is_request s) (after_fields (content fs) (started s st0)) = (ec, st')" "\<not> eager st'" "ec \<noteq> Some Need_more"
    and x: "x \<noteq> []"
  shows "waiting s fs st0 pending (concat ps @ x) st \<Longrightarrow>
    feed (is_request s) recorder st pending (ps @ (x @ r) # qs) = Some (ec, st', r @ concat qs)"
proof (induction ps arbitrary: pending st)
  case Nil
  have "put (is_request s) recorder st (pending @ x @ r) = Some (length (pending @ x), ec, st')"
    using put_rest [OF given(1-4) _ x given(5) fin(1,2)] Nil by simp
  then show ?case
    using fin(3) by simp
next
  case (Cons p ps)
  obtain n st2 where "put (is_request s) recorder st (pending @ p) = Some (n, Some Need_more, st2)"
      "waiting s fs st0 (drop n (pending @ p)) (concat ps @ x) st2"
    using put_more [OF given(1-4) _ _ given(5), of pending p "concat ps @ x" st] Cons.prems x by auto
  then show ?case
    using Cons.IH by simp
qed

text \<open>The header of a new parser, whatever the pieces.\<close>

lemma fresh_finish:
  assumes "(ec, st') = finish_header (is_request s)
      (after_fields (content fs) (started s ((fresh (is_request s) b h sk)\<lparr>state := Nothing_yet\<rparr>)))"
  shows "header_outcome (body_framing sk s (content fs))
      ((fresh (is_request s) b h sk)\<lparr>state := Fields, derived := start_event s # map field_event (content fs)\<rparr>) (ec, st')"
    "\<not> eager st'"
proof -
  let ?new = "fresh (is_request s) b h sk"
  let ?st = "after_fields (content fs) (started s (?new\<lparr>state := Nothing_yet\<rparr>))"
  have not_eager: "Eager \<notin> fields_flags (content fs)"
    using start_flags [of "content fs"] by blast
  have out: "header_outcome (body_framing sk s (content fs)) ?st (ec, st')"
    unfolding assms finish_header_def
    by (rule finish_header_outcome [where A = "flags ?new \<union> (if version11 s then {HTTP11} else {})"])
       (simp_all add: after_fields_def started_def)
  have "body_limit ?st = body_limit ?new" "\<not> eager ?st" "\<not> eager ?new" "state ?st = Fields"
      "derived ?st = start_event s # map field_event (content fs)"
    using not_eager by (auto simp: after_fields_def started_def eager_def)
  then show "header_outcome (body_framing sk s (content fs))
      (?new\<lparr>state := Fields, derived := start_event s # map field_event (content fs)\<rparr>) (ec, st')" "\<not> eager st'"
    using out header_outcome_cong [THEN iffD1] by (blast, simp add: header_outcome_def)
qed

lemma header_outcome_error:
  "header_outcome fr st (ec, st') \<Longrightarrow> ec \<noteq> Some Need_more"
  by (cases fr) (auto simp: header_outcome_def)

lemma feed_fresh:
  assumes given: "start_wf s" "list_all field_wf fs" "fields_ok {} (content fs)" "length (header_text s fs) \<le> h"
  shows "\<exists>ec st'. header_outcome (body_framing sk s (content fs))
      ((fresh (is_request s) b h sk)\<lparr>state := Fields, derived := start_event s # map field_event (content fs)\<rparr>) (ec, st') \<and>
    (\<forall>chunks rest. concat chunks = header_text s fs @ rest \<longrightarrow>
      feed (is_request s) recorder (fresh (is_request s) b h sk) [] chunks = Some (ec, st', rest))"
proof -
  let ?new = "fresh (is_request s) b h sk"
  obtain ec st' where fin: "finish_header (is_request s) (after_fields (content fs) (started s ?new)) = (ec, st')"
    by (cases "finish_header (is_request s) (after_fields (content fs) (started s ?new))")
  have same: "?new\<lparr>state := Nothing_yet\<rparr> = ?new"
    by (simp add: fresh_def set_skip_def set_header_limit_def set_body_limit_def basic_parser_def)
  have out: "header_outcome (body_framing sk s (content fs))
      (?new\<lparr>state := Fields, derived := start_event s # map field_event (content fs)\<rparr>) (ec, st')" "\<not> eager st'"
    using fresh_finish [of ec st' s fs b h sk] fin by (simp_all add: same)
  have ok: "fields_ok (flags ?new) (content fs)"
    using given(3) fields_ok_cong [of "flags ?new" "{}" "content fs"] by simp
  have "feed (is_request s) recorder ?new [] chunks = Some (ec, st', rest)"
    if chunks: "concat chunks = header_text s fs @ rest" for chunks rest
  proof -
    have "header_text s fs \<noteq> []"
      by (simp add: header_text_def fields_text_def)
    then obtain ps x r qs where q: "chunks = ps @ (x @ r) # qs" "concat ps @ x = header_text s fs" "x \<noteq> []"
        "rest = r @ concat qs"
      using concat_split [OF chunks] by blast
    have "waiting s fs ?new [] (concat ps @ x) ?new"
      by (simp add: waiting_def q(2) same)
    then show ?thesis
      using feed_header [OF given(1,2) ok _ _ fin out(2) header_outcome_error [OF out(1)] q(3)] given(4) q by simp
  qed
  then show ?thesis
    using out(1) by blast
qed

section \<open>Properties\<close>

text \<open>
  C12: it does not matter how a well-formed header is divided over the calls of \<open>put\<close>.
  Whatever the pieces in which the input arrives, bytes of the body behind the header included, a
  caller that keeps what was not consumed and calls again while the parser needs more ends with the same result, the
  same parser and the same events of the derived class as one that has the whole input at once, and
  with the bytes behind the header untouched.
\<close>

theorem pieces_equal_whole:
  assumes "start_wf s" "list_all field_wf fs" "fields_ok {} (content fs)" "length (header_text s fs) \<le> h"
    "concat chunks = header_text s fs @ rest"
  shows "feed (is_request s) recorder (fresh (is_request s) b h sk) [] chunks =
      feed (is_request s) recorder (fresh (is_request s) b h sk) [] [header_text s fs @ rest] \<and>
    (\<exists>ec st'. feed (is_request s) recorder (fresh (is_request s) b h sk) [] chunks = Some (ec, st', rest) \<and>
      header_outcome (body_framing sk s (content fs))
        ((fresh (is_request s) b h sk)\<lparr>state := Fields, derived := start_event s # map field_event (content fs)\<rparr>) (ec, st'))"
proof -
  obtain ec st' where "header_outcome (body_framing sk s (content fs))
      ((fresh (is_request s) b h sk)\<lparr>state := Fields, derived := start_event s # map field_event (content fs)\<rparr>) (ec, st')"
    and all: "\<And>chunks rest. concat chunks = header_text s fs @ rest \<Longrightarrow>
      feed (is_request s) recorder (fresh (is_request s) b h sk) [] chunks = Some (ec, st', rest)"
    using feed_fresh [OF assms(1-4), of sk b] by blast
  then show ?thesis
    using all [OF assms(5)] all [of "[header_text s fs @ rest]" rest] by auto
qed

theorem pieces_equal_whole_witness:
  "feed True recorder (fresh True 10 100 False) [] [''PUT '', ''/x HTTP/1.1'' @ [CR], [LF, CR], [LF], ''rest''] =
   feed True recorder (fresh True 10 100 False) [] [''PUT /x HTTP/1.1'' @ [CR, LF, CR, LF] @ ''rest'']"
proof -
  let ?s = "Request ''PUT'' ''/x'' True"
  note chars = token_char_iff tchar_code_def alpha_code_def digit_code_def pathchar_iff vchar_code_def uchar_def
    is_control_char_def is_print_iff is_digit_iff
  have written: "header_text ?s [] = ''PUT /x HTTP/1.1'' @ [CR, LF, CR, LF]"
    by (simp add: header_text_def fields_text_def version_text_def)
  have "start_wf ?s" "list_all field_wf []" "fields_ok {} (content [])" "length (header_text ?s []) \<le> 100"
    by (simp_all add: chars header_text_def fields_text_def version_text_def content_def)
  then show ?thesis
    using pieces_equal_whole [of ?s "[]" 100 "[''PUT '', ''/x HTTP/1.1'' @ [CR], [LF, CR], [LF], ''rest'']" "''rest''" 10 False]
    by (simp add: written)
qed

end
