(* ===== verification/Sync_Stream.thy ===== *)
theory Sync_Stream
  imports Flat_Buffer
begin

text \<open>
  The SyncReadStream concept the readers of messages are instantiated with, as an interface.  A
  stream is what is still to arrive; one read takes some of it.
\<close>

datatype net_error = Eof | Connection_reset | Simulated nat | Thrown buffer_error | Assertion

text \<open>
  \<open>read n s\<close> is \<open>stream.read_some\<close> into \<open>n\<close> bytes of buffers: \<open>None\<close>
  when it waits forever.  \<open>sent s\<close> is what will arrive, and \<open>ended s\<close> that nothing
  more comes after it.
\<close>

locale sync_read_stream =
  fixes live :: "'s \<Rightarrow> bool"
    and sent :: "'s \<Rightarrow> bytes"
    and ended :: "'s \<Rightarrow> bool"
    and read :: "nat \<Rightarrow> 's \<Rightarrow> ((net_error + bytes) \<times> 's) option"
  assumes read_data: "live s \<Longrightarrow> sent s \<noteq> [] \<Longrightarrow> 0 < n \<Longrightarrow>
      \<exists>x s'. read n s = Some (Inr x, s') \<and> x \<noteq> [] \<and> length x \<le> n \<and> sent s = x @ sent s' \<and>
        live s' \<and> ended s' = ended s"
    and read_ended: "live s \<Longrightarrow> sent s = [] \<Longrightarrow> ended s \<Longrightarrow> 0 < n \<Longrightarrow>
      \<exists>s'. read n s = Some (Inl Eof, s') \<and> live s' \<and> sent s' = [] \<and> ended s'"

end
