(* ===== verification/Test_Stream.thy ===== *)
theory Test_Stream
  imports Sync_Stream
begin

text \<open>
  \<open>test::stream\<close> and \<open>test::fail_count\<close>
  (\<open>experimental/test/stream.hpp\<close>, \<open>fail_count.hpp\<close> and their \<open>impl\<close>):
  a stream in memory.  One end holds the shared \<open>state\<close> that the other end writes
  to, so an operation of one end takes its own state and that of its peer, \<open>None\<close> when
  there is no peer.  The synchronous operations are modelled for one thread: a read that
  waits on the condition variable does not return, \<open>None\<close>.  The counter of an end is its
  own, not shared with the peer.
\<close>

section \<open>Simulated failures\<close>

record fail_count =
  fail_n :: nat
  fail_i :: nat
  fail_ec :: net_error

definition new_fail_count :: "nat \<Rightarrow> net_error \<Rightarrow> fail_count" where
  "new_fail_count n ev = \<lparr>fail_n = n, fail_i = 0, fail_ec = ev\<rparr>"

definition fail :: "fail_count \<Rightarrow> net_error option \<times> fail_count" where
  "fail fc =
     (let fc = (if fail_i fc < fail_n fc then fc\<lparr>fail_i := fail_i fc + 1\<rparr> else fc) in
      if fail_i fc = fail_n fc then (Some (fail_ec fc), fc) else (None, fc))"

section \<open>The state of an end\<close>

datatype status = Open | Ended | Reset

record end_state =
  in_b :: flat_buffer
  code :: status
  fc :: "fail_count option"
  nread :: nat
  nwrite :: nat
  read_max :: nat
  write_max :: nat

text \<open>\<open>lim\<close> is the largest \<open>std::size_t\<close>: the default of the two sizes and of the limit of the buffer.\<close>

definition new_end :: "nat \<Rightarrow> fail_count option \<Rightarrow> end_state" where
  "new_end lim c = \<lparr>in_b = flat_init lim, code = Open, fc = c, nread = 0, nwrite = 0, read_max = lim, write_max = lim\<rparr>"

text \<open>The check at the head of an operation: \<open>in_->fc \<and> in_->fc->fail(ec)\<close>.\<close>

definition counted :: "end_state \<Rightarrow> net_error option \<times> end_state" where
  "counted s =
     (case fc s of
        None \<Rightarrow> (None, s)
      | Some c \<Rightarrow> (case fail c of (ec, c') \<Rightarrow> (ec, s\<lparr>fc := Some c'\<rparr>)))"

definition append_to :: "allocator \<Rightarrow> bytes \<Rightarrow> end_state \<Rightarrow> buffer_error + end_state" where
  "append_to alloc x s =
     map_sum id (\<lambda>b. s\<lparr>in_b := b\<rparr>)
       (buffer_put (flat_prepare alloc) flat_fill flat_commit (length x) x (in_b s))"

definition str :: "end_state \<Rightarrow> bytes" where
  "str s = flat_data (in_b s)"

definition clear :: "end_state \<Rightarrow> end_state" where
  "clear s = s\<lparr>in_b := flat_consume (flat_size (in_b s)) (in_b s)\<rparr>"

definition read_size :: "nat \<Rightarrow> end_state \<Rightarrow> end_state" where
  "read_size n s = s\<lparr>read_max := n\<rparr>"

definition write_size :: "nat \<Rightarrow> end_state \<Rightarrow> end_state" where
  "write_size n s = s\<lparr>write_max := n\<rparr>"

definition close_remote :: "end_state \<Rightarrow> end_state" where
  "close_remote s = (if code s = Open then s\<lparr>code := Ended\<rparr> else s)"

definition close_end :: "end_state option \<Rightarrow> end_state option" where
  "close_end out = map_option (\<lambda>s. if code s = Open then s\<lparr>code := Ended\<rparr> else s) out"

text \<open>What the destructor does to the peer.\<close>

definition destroy :: "end_state option \<Rightarrow> end_state option" where
  "destroy out = map_option (\<lambda>s. if code s = Open then s\<lparr>code := Reset\<rparr> else s) out"

section \<open>Reading and writing\<close>

text \<open>\<open>read_some\<close> into \<open>n\<close> bytes of buffers.\<close>

definition read_bytes :: "nat \<Rightarrow> end_state \<Rightarrow> ((net_error + bytes) \<times> end_state) option" where
  "read_bytes n s =
     (case counted s of (failed, s) \<Rightarrow>
        case failed of
          Some e \<Rightarrow> Some (Inl e, s)
        | None \<Rightarrow>
            if n = 0 then Some (Inr [], s)
            else if flat_size (in_b s) > 0 then
              let x = take (min n (read_max s)) (flat_data (in_b s))
              in Some (Inr x, s\<lparr>in_b := flat_consume (length x) (in_b s), nread := nread s + 1\<rparr>)
            else
              case code s of
                Open \<Rightarrow> None
              | Ended \<Rightarrow> Some (Inl Eof, s\<lparr>nread := nread s + 1\<rparr>)
              | Reset \<Rightarrow> Some (Inl Connection_reset, s\<lparr>nread := nread s + 1\<rparr>))"

definition write_bytes ::
  "allocator \<Rightarrow> bytes \<Rightarrow> end_state \<Rightarrow> end_state option \<Rightarrow> (net_error + nat) \<times> end_state \<times> end_state option"
where
  "write_bytes alloc x s out =
     (case out of
        None \<Rightarrow> (Inl Connection_reset, s, None)
      | Some peer \<Rightarrow>
          if code peer \<noteq> Open then (Inl Assertion, s, out)
          else case counted s of (failed, s) \<Rightarrow>
            case failed of
              Some e \<Rightarrow> (Inl e, s, out)
            | None \<Rightarrow>
                let n = min (length x) (write_max s)
                in case flat_prepare alloc n (in_b peer) of
                     Inl e \<Rightarrow> (Inl (Thrown e), s, out)
                   | Inr b \<Rightarrow>
                       (Inr (min n (length x)), s\<lparr>nwrite := nwrite s + 1\<rparr>,
                        Some (peer\<lparr>in_b := flat_commit (min n (length x)) (flat_fill x b)\<rparr>)))"

text \<open>\<open>teardown\<close>: closes, and counts two operations.\<close>

definition teardown :: "end_state \<Rightarrow> end_state option \<Rightarrow> net_error option \<times> end_state \<times> end_state option" where
  "teardown s out =
     (case counted s of (failed, s) \<Rightarrow>
        case failed of
          Some e \<Rightarrow> (Some e, s, out)
        | None \<Rightarrow>
            case counted s of (failed, s) \<Rightarrow>
              (if failed \<noteq> None then Some Eof else None, s, close_end out))"

section \<open>Laws\<close>

definition end_inv :: "end_state \<Rightarrow> bool" where
  "end_inv s \<longleftrightarrow> flat_inv (in_b s)"

lemma end_inv_new: "end_inv (new_end lim c)"
  by (simp add: end_inv_def new_end_def flat_inv_init)

lemma str_new [simp]: "str (new_end lim c) = []"
  by (simp add: str_def new_end_def flat_init_def flat_data_def)

lemma counted_keeps:
  assumes "counted s = (failed, s')"
  shows "in_b s' = in_b s" "code s' = code s" "read_max s' = read_max s" "write_max s' = write_max s"
  using assms by (auto simp: counted_def split: option.splits prod.splits)

lemma counted_none: "fc s = None \<Longrightarrow> counted s = (None, s)"
  by (simp add: counted_def)

lemma flat_size_pos: "flat_inv b \<Longrightarrow> flat_size b > 0 \<longleftrightarrow> flat_data b \<noteq> []"
  using length_flat_data [of b] length_greater_0_conv [of "flat_data b"] by (simp add: flat_size_def del: length_greater_0_conv)

lemma read_bytes_laws:
  assumes "end_inv s"
  shows "case read_bytes n s of
      None \<Rightarrow> str s = [] \<and> code s = Open
    | Some (Inl e, s') \<Rightarrow> end_inv s' \<and> str s' = str s
    | Some (Inr x, s') \<Rightarrow> end_inv s' \<and> str s = x @ str s' \<and> length x \<le> n"
proof -
  obtain failed s1 where c: "counted s = (failed, s1)"
    by (cases "counted s")
  have s1: "flat_inv (in_b s1)" "str s1 = str s" "code s1 = code s"
    using counted_keeps [OF c] assms by (simp_all add: end_inv_def str_def)
  show ?thesis
  proof (cases "failed = None \<and> n \<noteq> 0 \<and> flat_data (in_b s1) \<noteq> []")
    case True
    let ?x = "take (min n (read_max s1)) (flat_data (in_b s1))"
    have "flat_data (flat_consume (length ?x) (in_b s1)) = drop (length ?x) (flat_data (in_b s1))"
        "flat_inv (flat_consume (length ?x) (in_b s1))"
      using flat_consume_laws [OF s1(1)] by simp_all
    moreover have "?x @ drop (length ?x) (flat_data (in_b s1)) = flat_data (in_b s1)"
      by (simp add: min_def)
    moreover have "flat_size (in_b s1) > 0"
      using True flat_size_pos [OF s1(1)] by simp
    ultimately show ?thesis
      using True s1(2) unfolding read_bytes_def by (simp add: c end_inv_def str_def Let_def)
  next
    case False
    have "flat_size (in_b s1) = 0" if "flat_data (in_b s1) = []"
      using that flat_size_pos [OF s1(1)] by simp
    then show ?thesis
      using False s1 unfolding read_bytes_def
      by (auto simp: c end_inv_def str_def split: option.splits status.splits)
  qed
qed

lemma write_bytes_laws:
  assumes "end_inv peer"
  shows "case write_bytes alloc x s (Some peer) of
      (Inl e, s', out) \<Rightarrow> out = Some peer
    | (Inr n, s', out) \<Rightarrow> n \<le> length x \<and> (\<exists>peer'. out = Some peer' \<and> end_inv peer' \<and> str peer' = str peer @ take n x)"
proof -
  obtain failed s1 where c: "counted s = (failed, s1)"
    by (cases "counted s")
  let ?n = "min (length x) (write_max s1)"
  show ?thesis
  proof (cases "code peer \<noteq> Open \<or> failed \<noteq> None")
    case True
    then show ?thesis
      by (auto simp: write_bytes_def c)
  next
    case ok: False
    show ?thesis
    proof (cases "flat_prepare alloc ?n (in_b peer)")
      case (Inl e)
      then show ?thesis
        using ok unfolding write_bytes_def by (simp add: c Let_def)
    next
      case (Inr b)
      have put: "buffer_put (flat_prepare alloc) flat_fill flat_commit ?n x (in_b peer) =
          Inr (flat_commit (min ?n (length x)) (flat_fill x b))"
        by (simp add: buffer_put_def Inr)
      have "length (flat_data (in_b peer)) + ?n \<le> limit (in_b peer)"
        using Inr flat_prepare_error [of "in_b peer" ?n alloc] assms
        by (cases "length (flat_data (in_b peer)) + ?n \<le> limit (in_b peer)") (auto simp: end_inv_def)
      then have "flat_inv (flat_commit (min ?n (length x)) (flat_fill x b))"
          "flat_data (flat_commit (min ?n (length x)) (flat_fill x b)) = flat_data (in_b peer) @ take ?n x"
        using flat.put_ok [of "in_b peer" ?n alloc x] assms put by (auto simp: end_inv_def)
      then show ?thesis
        using ok Inr unfolding write_bytes_def by (simp add: c Let_def end_inv_def str_def)
    qed
  qed
qed

text \<open>An end without simulated failures that delivers at least a byte at a time is a SyncReadStream.\<close>

definition live :: "end_state \<Rightarrow> bool" where
  "live s \<longleftrightarrow> end_inv s \<and> fc s = None \<and> 0 < read_max s"

lemma read_some_data:
  assumes "live s" "str s \<noteq> []" "0 < n"
  shows "\<exists>x s'. read_bytes n s = Some (Inr x, s') \<and> x \<noteq> [] \<and> length x \<le> n \<and> str s = x @ str s' \<and>
    live s' \<and> (code s' = Ended) = (code s = Ended)"
proof -
  let ?x = "take (min n (read_max s)) (str s)"
  let ?s = "s\<lparr>in_b := flat_consume (length ?x) (in_b s), nread := nread s + 1\<rparr>"
  have s: "counted s = (None, s)" "flat_size (in_b s) > 0"
    using assms flat_size_pos [of "in_b s"] by (simp_all add: live_def end_inv_def counted_none str_def)
  then have run: "read_bytes n s = Some (Inr ?x, ?s)"
    using assms(3) by (simp add: read_bytes_def str_def Let_def)
  have "?x \<noteq> []"
    using assms by (simp add: live_def)
  moreover have "str s = ?x @ str ?s" "live ?s"
    using assms(1) read_bytes_laws [of s n] run by (simp_all add: live_def)
  ultimately show ?thesis
    using run by auto
qed

interpretation test_stream: sync_read_stream live str "\<lambda>s. code s = Ended" read_bytes
proof unfold_locales
  fix s :: end_state and n :: nat
  assume "live s" "str s = []" "code s = Ended" "0 < n"
  moreover from this have "flat_size (in_b s) = 0"
    using flat_size_pos [of "in_b s"] by (simp add: live_def end_inv_def str_def)
  ultimately show "\<exists>s'. read_bytes n s = Some (Inl Eof, s') \<and> live s' \<and> str s' = [] \<and> code s' = Ended"
    by (simp add: read_bytes_def counted_none live_def end_inv_def str_def)
qed (rule read_some_data)

text \<open>
  Which operations fail, counted from 0: the counter is advanced before it is compared, so the
  first failing one is \<open>n - 1\<close>, and 0 also for \<open>n = 0\<close>.
\<close>

lemma fail_count_iterate:
  "((snd \<circ> fail) ^^ k) (new_fail_count n ev) = \<lparr>fail_n = n, fail_i = min k n, fail_ec = ev\<rparr>"
  by (induction k) (auto simp: new_fail_count_def fail_def Let_def)

lemma fail_count_index:
  "fst (fail (((snd \<circ> fail) ^^ k) (new_fail_count n ev))) = (if n \<le> k + 1 then Some ev else None)"
  unfolding fail_count_iterate by (auto simp: fail_def Let_def)

section \<open>A conversation\<close>

text \<open>
  One end writes, the other reads; \<open>talk\<close> collects what \<open>write_some\<close> took and
  what \<open>read_some\<close> delivered.  A read that would wait is tried again later.
\<close>

datatype stream_op = Write bytes | Read nat

fun talk :: "allocator \<Rightarrow> stream_op list \<Rightarrow> end_state \<Rightarrow> end_state \<Rightarrow> bytes \<times> bytes \<times> end_state \<times> end_state" where
  "talk alloc [] a b = ([], [], a, b)"
| "talk alloc (Write x # ops) a b =
     (case write_bytes alloc x a (Some b) of
        (Inr n, a, Some b) \<Rightarrow> (case talk alloc ops a b of (w, r, c) \<Rightarrow> (take n x @ w, r, c))
      | (_, a, _) \<Rightarrow> talk alloc ops a b)"
| "talk alloc (Read n # ops) a b =
     (case read_bytes n b of
        Some (Inr x, b) \<Rightarrow> (case talk alloc ops a b of (w, r, c) \<Rightarrow> (w, x @ r, c))
      | Some (Inl e, b) \<Rightarrow> talk alloc ops a b
      | None \<Rightarrow> talk alloc ops a b)"

lemma talk_fifo:
  "end_inv b \<Longrightarrow> case talk alloc ops a b of (w, r, a', b') \<Rightarrow> end_inv b' \<and> str b @ w = r @ str b'"
proof (induction ops arbitrary: a b)
  case (Cons op ops)
  show ?case
  proof (cases op)
    case (Write x)
    then show ?thesis
      using write_bytes_laws [OF Cons.prems, where alloc = alloc and x = x and s = a] Cons.IH Cons.prems
      by (fastforce split: prod.splits sum.splits option.splits)
  next
    case (Read n)
    then show ?thesis
      using read_bytes_laws [OF Cons.prems, where n = n] Cons.IH Cons.prems
      by (fastforce split: prod.splits sum.splits option.splits)
  qed
qed simp

section \<open>Properties\<close>

text \<open>
  Between two connected ends of a \<open>test::stream\<close> the bytes arrive in order and
  none is lost, doubled or made up, whatever the sizes of the reads and the writes, the limits on
  them and the simulated failures: what was delivered, followed by what still waits, is what the
  writes took.
\<close>

theorem stream_fifo:
  "case talk alloc ops (new_end lim c) (new_end lim' c') of (w, r, a, b) \<Rightarrow> w = r @ str b"
  using talk_fifo [OF end_inv_new [of lim' c'], of alloc ops "new_end lim c"] by (auto split: prod.splits)

end
