(* ===== verification/Http_Read.thy ===== *)
theory Http_Read
  imports Http_Resume Test_Stream Flat_Static_Buffer
begin

text \<open>
  Reading messages from a stream (\<open>http/impl/read.ipp\<close>, \<open>core/impl/read_size.ipp\<close>):
  the synchronous \<open>read_some\<close>, \<open>read_header\<close> and \<open>read\<close>.  The template
  parameters are arguments: the stream by its \<open>read_some\<close>, the derived parser by its
  callbacks, and the DynamicBuffer by the record of its operations.  The buffer is one whose
  \<open>data()\<close> is a single buffer, as for \<open>flat_buffer\<close> and
  \<open>flat_static_buffer\<close>, so that \<open>put\<close> is the overload for one buffer.
\<close>

section \<open>The buffer and the errors\<close>

record 'b dynamic =
  readable :: "'b \<Rightarrow> bytes"
  size_limit :: "'b \<Rightarrow> nat"
  room :: "'b \<Rightarrow> nat"
  get_room :: "nat \<Rightarrow> 'b \<Rightarrow> buffer_error + 'b"
  put_bytes :: "bytes \<Rightarrow> 'b \<Rightarrow> 'b"
  commit_bytes :: "nat \<Rightarrow> 'b \<Rightarrow> 'b"
  consume_bytes :: "nat \<Rightarrow> 'b \<Rightarrow> 'b"

definition flat_dynamic :: "allocator \<Rightarrow> flat_buffer dynamic" where
  "flat_dynamic alloc = \<lparr>readable = flat_data, size_limit = limit, room = flat_capacity,
     get_room = flat_prepare alloc, put_bytes = flat_fill, commit_bytes = flat_commit, consume_bytes = flat_consume\<rparr>"

datatype read_error = Parser_error http_error | Buffer_overflow | End_of_stream | Stream_error net_error

definition text_of :: "bytes \<Rightarrow> string" where
  "text_of = map char_of_byte"

definition read_size :: "'b dynamic \<Rightarrow> 'b \<Rightarrow> nat \<Rightarrow> nat" where
  "read_size D b max_size =
     (let size = length (readable D b); lim = size_limit D b - size
      in min (max 512 (room D b - size)) (min max_size lim))"

definition read_size_or_throw :: "'b dynamic \<Rightarrow> 'b \<Rightarrow> nat \<Rightarrow> buffer_error + nat" where
  "read_size_or_throw D b max_size =
     (let n = read_size D b max_size in if n = 0 then Inl Length_error else Inr n)"

text \<open>The two steps that may throw, in one \<open>try\<close> block.\<close>

definition prepare_read :: "'b dynamic \<Rightarrow> 'b \<Rightarrow> buffer_error + nat \<times> 'b" where
  "prepare_read D b =
     (case read_size_or_throw D b 65536 of
        Inl e \<Rightarrow> Inl e
      | Inr n \<Rightarrow> map_sum id (Pair n) (get_room D n b))"

text \<open>What follows the end of the stream, \<open>asio::error::eof\<close>.\<close>

definition read_eof :: "'d impl \<Rightarrow> 'd parser \<Rightarrow> read_error option \<times> 'd parser" where
  "read_eof I p =
     (if got_some p then
        (case put_eof I (Some eof_error) p of (ec, p) \<Rightarrow>
           if ec \<noteq> None then (map_option Parser_error ec, p)
           else if \<not> is_done p then (Some (Parser_error Assertion_failed), p)
           else (None, p))
      else (Some End_of_stream, p))"

section \<open>The loops\<close>

text \<open>
  \<open>parsing\<close> tells the two places the loop of \<open>read_some\<close> is entered at: the call of
  \<open>put\<close>, and \<open>do_read\<close>.
\<close>

partial_function (option) read_loop ::
  "bool \<Rightarrow> 'd impl \<Rightarrow> 'b dynamic \<Rightarrow> (nat \<Rightarrow> 's \<Rightarrow> ((net_error + bytes) \<times> 's) option) \<Rightarrow>
    bool \<Rightarrow> nat \<Rightarrow> 's \<Rightarrow> 'b \<Rightarrow> 'd parser \<Rightarrow> (nat \<times> read_error option \<times> 's \<times> 'b \<times> 'd parser) option"
where
  "read_loop q I D read parsing count s b p =
     (if parsing then
        (case put q I p (text_of (readable D b)) of
           None \<Rightarrow> None
         | Some (n, ec, p) \<Rightarrow>
             if ec \<noteq> Some Need_more then Some (count + n, map_option Parser_error ec, s, consume_bytes D n b, p)
             else read_loop q I D read False (count + n) s (consume_bytes D n b) p)
      else
        (case prepare_read D b of
           Inl _ \<Rightarrow> Some (count, Some Buffer_overflow, s, b, p)
         | Inr (n, b) \<Rightarrow>
             (case read n s of
                None \<Rightarrow> None
              | Some (Inl Eof, s) \<Rightarrow> (case read_eof I p of (ec, p) \<Rightarrow> Some (count, ec, s, b, p))
              | Some (Inl e, s) \<Rightarrow> Some (count, Some (Stream_error e), s, b, p)
              | Some (Inr x, s) \<Rightarrow> read_loop q I D read True count s (commit_bytes D (length x) (put_bytes D x b)) p)))"

declare read_loop.simps [code]

definition read_some where
  "read_some q I D read s b p =
     (if is_done p then Some (0, Some (Parser_error Assertion_failed), s, b, p)
      else read_loop q I D read (readable D b \<noteq> []) 0 s b p)"

text \<open>The loops of \<open>read_header\<close> and \<open>read\<close>, which differ in the condition.\<close>

partial_function (option) read_until ::
  "('d parser \<Rightarrow> bool) \<Rightarrow> bool \<Rightarrow> 'd impl \<Rightarrow> 'b dynamic \<Rightarrow> (nat \<Rightarrow> 's \<Rightarrow> ((net_error + bytes) \<times> 's) option) \<Rightarrow>
    nat \<Rightarrow> 's \<Rightarrow> 'b \<Rightarrow> 'd parser \<Rightarrow> (nat \<times> read_error option \<times> 's \<times> 'b \<times> 'd parser) option"
where
  "read_until finished q I D read count s b p =
     (case read_some q I D read s b p of
        None \<Rightarrow> None
      | Some (n, ec, s, b, p) \<Rightarrow>
          if ec \<noteq> None \<or> finished p then Some (count + n, ec, s, b, p)
          else read_until finished q I D read (count + n) s b p)"

declare read_until.simps [code]

definition read_header where
  "read_header q I D read s b p =
     (let p = set_eager False p in
      if is_header_done p then Some (0, None, s, b, p)
      else read_until is_header_done q I D read 0 s b p)"

definition read_message where
  "read_message q I D read s b p =
     (let p = set_eager True p in
      if is_done p then Some (0, None, s, b, p)
      else read_until is_done q I D read 0 s b p)"

section \<open>One read\<close>

lemma text_of_append [simp]: "text_of (x @ y) = text_of x @ text_of y"
  by (simp add: text_of_def)

lemma text_of_simps [simp]: "text_of [] = []" "text_of x = [] \<longleftrightarrow> x = []" "length (text_of x) = length x"
    "text_of (drop n x) = drop n (text_of x)"
  by (simp_all add: text_of_def drop_map)

text \<open>A reader of messages: a buffer, and a stream to fill it from.\<close>

locale message_reader =
  buffer: dynamic_buffer inv "readable D" out "size_limit D" "get_room D" "put_bytes D" "commit_bytes D" "consume_bytes D" +
  stream: sync_read_stream live sent ended read
  for D :: "'b dynamic" and inv :: "'b \<Rightarrow> bool" and out :: "'b \<Rightarrow> bytes" and live :: "'s \<Rightarrow> bool" and sent :: "'s \<Rightarrow> bytes"
    and ended :: "'s \<Rightarrow> bool" and read :: "nat \<Rightarrow> 's \<Rightarrow> ((net_error + bytes) \<times> 's) option"
begin

lemma prepare_read_ok:
  assumes "inv b" "length (readable D b) < size_limit D b"
  obtains n b' where "prepare_read D b = Inr (n, b')" "0 < n" "inv b'" "readable D b' = readable D b"
    "length (out b') = n" "size_limit D b' = size_limit D b"
proof -
  let ?n = "read_size D b 65536"
  have n: "0 < ?n" "length (readable D b) + ?n \<le> size_limit D b"
    using assms(2) by (auto simp: read_size_def Let_def)
  then obtain b' where "get_room D ?n b = Inr b'" "inv b'" "readable D b' = readable D b" "length (out b') = ?n"
      "size_limit D b' = size_limit D b"
    using buffer.prepare_ok [OF assms(1)] by blast
  then show thesis
    using that [of ?n b'] n(1) by (simp add: prepare_read_def read_size_or_throw_def Let_def)
qed

lemma fill_commit:
  assumes "inv b" "length x \<le> length (out b)"
  shows "inv (commit_bytes D (length x) (put_bytes D x b))"
    "readable D (commit_bytes D (length x) (put_bytes D x b)) = readable D b @ x"
    "size_limit D (commit_bytes D (length x) (put_bytes D x b)) = size_limit D b"
  using buffer.fill_laws [OF assms(1), of x] buffer.commit_laws [of "put_bytes D x b" "length x"] assms(2) by simp_all

text \<open>A step of the loop that reads, while there is something to arrive.\<close>

lemma loop_reads:
  assumes "inv b" "length (readable D b) < size_limit D b" "live s" "sent s \<noteq> []"
  obtains x s' b' where "read_loop q I D read False k s b p = read_loop q I D read True k s' b' p"
    "inv b'" "readable D b' = readable D b @ x" "size_limit D b' = size_limit D b"
    "live s'" "sent s = x @ sent s'" "x \<noteq> []" "ended s' = ended s"
proof -
  obtain n b1 where b1: "prepare_read D b = Inr (n, b1)" "0 < n" "inv b1" "readable D b1 = readable D b"
      "length (out b1) = n" "size_limit D b1 = size_limit D b"
    using prepare_read_ok [OF assms(1,2)] by blast
  obtain x s' where s': "read n s = Some (Inr x, s')" "x \<noteq> []" "length x \<le> n" "sent s = x @ sent s'" "live s'"
      "ended s' = ended s"
    using stream.read_data [OF assms(3,4) b1(2)] by blast
  have "read_loop q I D read False k s b p =
      read_loop q I D read True k s' (commit_bytes D (length x) (put_bytes D x b1)) p"
    by (subst read_loop.simps) (simp add: b1(1) s'(1))
  then show thesis
    using that fill_commit [OF b1(3), of x] b1 s' by simp
qed

lemma loop_ends:
  assumes "inv b" "length (readable D b) < size_limit D b" "live s" "sent s = []" "ended s"
  shows "\<exists>s' b'. read_loop q I D read False k s b p = Some (k, fst (read_eof I p), s', b', snd (read_eof I p)) \<and>
    inv b' \<and> readable D b' = readable D b"
proof -
  obtain n b1 where b1: "prepare_read D b = Inr (n, b1)" "0 < n" "inv b1" "readable D b1 = readable D b"
    using prepare_read_ok [OF assms(1,2)] by blast
  obtain s' where "read n s = Some (Inl Eof, s')"
    using stream.read_ended [OF assms(3,4,5) b1(2)] by blast
  then have "read_loop q I D read False k s b p = Some (k, fst (read_eof I p), s', b1, snd (read_eof I p))"
    by (subst read_loop.simps) (simp add: b1(1) split: prod.split)
  then show ?thesis
    using b1 by blast
qed

end

section \<open>A header from a stream\<close>

lemma waiting_length:
  assumes "waiting s fs st0 pending w st"
  shows "length (pending @ w) \<le> length (header_text s fs)"
proof -
  from assms consider "pending @ w = header_text s fs" | gs hs where "fs = gs @ hs" "pending @ w = fields_text hs"
    unfolding waiting_def in_fields_def by (metis append_Nil)
  then show ?thesis
  proof cases
    case 2
    then have "length (fields_text hs) \<le> length (header_text s fs)"
      by (simp add: header_text_def fields_text_def)
    then show ?thesis
      using 2(2) by simp
  qed simp
qed

lemma text_of_split:
  assumes "x @ text_of u = y @ r" "length x < length y"
  obtains w where "y = x @ w" "w \<noteq> []" "text_of u = w @ r" "u \<noteq> []"
proof -
  obtain w where w: "y = x @ w" "text_of u = w @ r"
    using assms by (auto simp: append_eq_append_conv2)
  then have "w \<noteq> []"
    using assms(2) by auto
  moreover from this have "u \<noteq> []"
    using w(2) by auto
  ultimately show thesis
    using that w by blast
qed

text \<open>The buffer holds \<open>pending\<close>, which the parser has seen, and \<open>x\<close>, which it has not.\<close>

context message_reader
begin

lemma loop_header:
  assumes given: "start_wf s" "list_all field_wf fs" "fields_ok (flags st0) (content fs)" "skip st0 = 0"
      "length (header_text s fs) \<le> header_limit st0"
    and fin: "finish_header (is_request s) (after_fields (content fs) (started s st0)) = (ec, st')" "\<not> eager st'" "ec \<noteq> Some Need_more"
  shows "waiting s fs st0 pending y st \<Longrightarrow> text_of (readable D b) = pending @ x \<Longrightarrow>
    x @ text_of (sent c) = y @ rest \<Longrightarrow> y \<noteq> [] \<Longrightarrow> inv b \<Longrightarrow> live c \<Longrightarrow> length (header_text s fs) \<le> size_limit D b \<Longrightarrow>
    \<exists>c' b'. read_loop (is_request s) recorder D read True k c b st =
        Some (k + length (pending @ y), map_option Parser_error ec, c', b', st') \<and>
      text_of (readable D b' @ sent c') = rest \<and> inv b' \<and> live c'"
proof (induction "length (sent c)" arbitrary: k pending y st b x c rest rule: less_induct)
  case less
  show ?case
  proof (cases "length y \<le> length x")
    case True
    then obtain r where r: "x = y @ r" "rest = r @ text_of (sent c)"
      using less.prems(3) by (auto simp: append_eq_append_conv2)
    have run: "put (is_request s) recorder st (text_of (readable D b)) = Some (length (pending @ y), ec, st')"
      using put_rest [OF given(1-4) less.prems(1,4) given(5) fin(1,2), of r] less.prems(2) r(1) by simp
    have loop: "read_loop (is_request s) recorder D read True k c b st =
        Some (k + length (pending @ y), map_option Parser_error ec, c, consume_bytes D (length (pending @ y)) b, st')"
      by (subst read_loop.simps) (simp add: run fin(3))
    have "readable D (consume_bytes D (length (pending @ y)) b) = drop (length (pending @ y)) (readable D b)"
        "inv (consume_bytes D (length (pending @ y)) b)"
      using buffer.consume_laws [OF less.prems(5)] by simp_all
    then have "text_of (readable D (consume_bytes D (length (pending @ y)) b) @ sent c) = rest"
      using less.prems(2) r by simp
    then show ?thesis
      using loop less.prems(6) buffer.consume_laws [OF less.prems(5)] by blast
  next
    case False
    then obtain w where w: "y = x @ w" "w \<noteq> []" "text_of (sent c) = w @ rest" "sent c \<noteq> []"
      using text_of_split [OF less.prems(3)] by (metis linorder_not_le)
    obtain n st2 where run: "put (is_request s) recorder st (text_of (readable D b)) = Some (n, Some Need_more, st2)"
        "n \<le> length (pending @ x)" "waiting s fs st0 (drop n (pending @ x)) w st2"
      using put_more [OF given(1-4) _ w(2) given(5)] less.prems(1,2) w(1) by metis
    let ?b = "consume_bytes D n b"
    have b: "inv ?b" "text_of (readable D ?b) = drop n (pending @ x)" "size_limit D ?b = size_limit D b"
      using buffer.consume_laws [OF less.prems(5), of n] less.prems(2) by simp_all
    have "length (readable D ?b) = length (drop n (pending @ x))"
      by (metis b(2) text_of_simps(3))
    moreover have "length (drop n (pending @ x)) + length w \<le> length (header_text s fs)"
      using waiting_length [OF run(3)] by simp
    ultimately have "length (readable D ?b) < size_limit D ?b"
      using less.prems(7) w(2) b(3) by (cases w) simp_all
    then obtain x2 c2 b2 where step: "read_loop (is_request s) recorder D read False (k + n) c ?b st2 =
          read_loop (is_request s) recorder D read True (k + n) c2 b2 st2"
        "inv b2" "readable D b2 = readable D ?b @ x2" "size_limit D b2 = size_limit D ?b"
        "live c2" "sent c = x2 @ sent c2" "x2 \<noteq> []"
      using loop_reads [OF b(1) _ less.prems(6) w(4)] by metis
    have "read_loop (is_request s) recorder D read True k c b st =
        read_loop (is_request s) recorder D read False (k + n) c ?b st2"
      by (subst read_loop.simps) (simp add: run(1))
    moreover have "length (sent c2) < length (sent c)"
      using step(6,7) by simp
    moreover have "text_of (readable D b2) = drop n (pending @ x) @ text_of x2" "text_of x2 @ text_of (sent c2) = w @ rest"
      using b(2) step(3,6) w(3) by simp_all
    moreover have size: "length (header_text s fs) \<le> size_limit D b2"
      using step(4) b(3) less.prems(7) by simp
    ultimately obtain c' b' where "read_loop (is_request s) recorder D read True k c b st =
        Some (k + n + length (drop n (pending @ x) @ w), map_option Parser_error ec, c', b', st')"
        "text_of (readable D b' @ sent c') = rest" "inv b'" "live c'"
      using less.hyps [OF _ run(3) _ _ w(2) step(2,5) size, of "text_of x2" rest "k + n"] step(1) by auto
    moreover have "k + n + length (drop n (pending @ x) @ w) = k + length (pending @ y)"
      using run(2) w(1) by simp
    ultimately show ?thesis
      by metis
  qed
qed

end

text \<open>A header that the stream ends in.\<close>

lemma waiting_state:
  "waiting s fs st0 pending w st \<Longrightarrow> length w < length (header_text s fs) \<Longrightarrow> state st = Start_line \<or> state st = Fields"
  unfolding waiting_def in_fields_def by auto

lemma read_eof_partial:
  "state p = Start_line \<or> state p = Fields \<Longrightarrow> read_eof I p = (Some (Parser_error Partial_message), p)"
  by (auto simp: read_eof_def put_eof_def got_some_def)

context message_reader
begin

lemma loop_truncated:
  assumes given: "start_wf s" "list_all field_wf fs" "fields_ok (flags st0) (content fs)" "skip st0 = 0"
      "length (header_text s fs) \<le> header_limit st0"
  shows "waiting s fs st0 pending y st \<Longrightarrow> text_of (readable D b) = pending @ x \<Longrightarrow> x \<noteq> [] \<Longrightarrow>
    y = x @ text_of (sent c) @ v \<Longrightarrow> v \<noteq> [] \<Longrightarrow> inv b \<Longrightarrow> live c \<Longrightarrow> ended c \<Longrightarrow>
    length (header_text s fs) \<le> size_limit D b \<Longrightarrow>
    \<exists>n c' b' st'. read_loop (is_request s) recorder D read True k c b st =
        Some (n, Some (Parser_error Partial_message), c', b', st')"
proof (induction "length (sent c)" arbitrary: k pending y st b x c rule: less_induct)
  case less
  let ?w = "text_of (sent c) @ v"
  obtain n st2 where run: "put (is_request s) recorder st (text_of (readable D b)) = Some (n, Some Need_more, st2)"
      "n \<le> length (pending @ x)" "waiting s fs st0 (drop n (pending @ x)) ?w st2"
    using put_more [OF given(1-4), of pending x ?w st] less.prems(1,2,4,5) given(5) by auto
  let ?b = "consume_bytes D n b"
  have b: "inv ?b" "text_of (readable D ?b) = drop n (pending @ x)" "size_limit D ?b = size_limit D b"
    using buffer.consume_laws [OF less.prems(6), of n] less.prems(2) by simp_all
  have "length (readable D ?b) = length (drop n (pending @ x))"
    by (metis b(2) text_of_simps(3))
  moreover have "length (drop n (pending @ x)) + length ?w \<le> length (header_text s fs)"
    using waiting_length [OF run(3)] by simp
  ultimately have room: "length (readable D ?b) < size_limit D ?b"
    using less.prems(5,9) b(3) by (cases v) simp_all
  have loop: "read_loop (is_request s) recorder D read True k c b st =
      read_loop (is_request s) recorder D read False (k + n) c ?b st2"
    by (subst read_loop.simps) (simp add: run(1))
  have "length ?w < length (header_text s fs)"
    using waiting_length [OF less.prems(1)] less.prems(3,4) by (cases x) simp_all
  then have eof: "read_eof recorder st2 = (Some (Parser_error Partial_message), st2)"
    using read_eof_partial waiting_state [OF run(3)] by blast
  show ?case
  proof (cases "sent c = []")
    case True
    then show ?thesis
      using loop loop_ends [OF b(1) room less.prems(7) True less.prems(8), of "is_request s" recorder "k + n" st2] eof by auto
  next
    case False
    obtain x2 c2 b2 where step: "read_loop (is_request s) recorder D read False (k + n) c ?b st2 =
          read_loop (is_request s) recorder D read True (k + n) c2 b2 st2"
        "inv b2" "readable D b2 = readable D ?b @ x2" "size_limit D b2 = size_limit D ?b"
        "live c2" "sent c = x2 @ sent c2" "x2 \<noteq> []" "ended c2 = ended c"
      using loop_reads [OF b(1) room less.prems(7) False] by metis
    have "length (sent c2) < length (sent c)" "text_of (readable D b2) = drop n (pending @ x) @ text_of x2"
        "?w = text_of x2 @ text_of (sent c2) @ v" "text_of x2 \<noteq> []" "ended c2" "length (header_text s fs) \<le> size_limit D b2"
      using step b(2,3) less.prems(8,9) by simp_all
    then show ?thesis
      using less.hyps [of c2 "drop n (pending @ x)" ?w st2 b2 "text_of x2" "k + n"] run(3) step(1,2,5) loop less.prems(5)
      by simp
  qed
qed

text \<open>The two entries of \<open>read_some\<close>: with bytes in the buffer and without.\<close>

lemma read_some_enters:
  assumes "\<not> is_done p" "inv b" "readable D b = [] \<Longrightarrow> sent c \<noteq> []" "live c" "0 < size_limit D b"
  obtains c' b' where "read_some q I D read c b p = read_loop q I D read True 0 c' b' p" "inv b'" "live c'"
    "readable D b' \<noteq> []" "readable D b' @ sent c' = readable D b @ sent c" "size_limit D b' = size_limit D b" "ended c' = ended c"
proof (cases "readable D b = []")
  case True
  have "read_some q I D read c b p = read_loop q I D read False 0 c b p"
    using assms(1) True by (simp add: read_some_def)
  moreover have "length (readable D b) < size_limit D b"
    using assms(5) True by simp
  then obtain x c' b' where "read_loop q I D read False 0 c b p = read_loop q I D read True 0 c' b' p"
      "inv b'" "readable D b' = readable D b @ x" "size_limit D b' = size_limit D b"
      "live c'" "sent c = x @ sent c'" "x \<noteq> []" "ended c' = ended c"
    by (rule loop_reads [OF assms(2) _ assms(4) assms(3) [OF True]])
  ultimately show thesis
    using that True by simp
next
  case False
  then show thesis
    using that [of c b] assms by (simp add: read_some_def)
qed

end

section \<open>The whole of \<open>read_header\<close>\<close>

lemma fresh_new: "(fresh q b h sk)\<lparr>state := Nothing_yet\<rparr> = fresh q b h sk" "set_eager False (fresh q b h sk) = fresh q b h sk"
  by (simp_all add: fresh_def set_skip_def set_header_limit_def set_body_limit_def basic_parser_def set_eager_def)

lemma fresh_finished:
  obtains ec st' where "finish_header (is_request s) (after_fields (content fs) (started s (fresh (is_request s) lim h sk))) = (ec, st')"
    "header_outcome (body_framing sk s (content fs))
      ((fresh (is_request s) lim h sk)\<lparr>state := Fields, derived := start_event s # map field_event (content fs)\<rparr>) (ec, st')"
    "\<not> eager st'" "ec \<noteq> Some Need_more" "ec = None \<longrightarrow> is_header_done st'"
proof -
  obtain ec st' where fin: "finish_header (is_request s) (after_fields (content fs) (started s (fresh (is_request s) lim h sk))) = (ec, st')"
    by (cases "finish_header (is_request s) (after_fields (content fs) (started s (fresh (is_request s) lim h sk)))")
  have out: "header_outcome (body_framing sk s (content fs))
      ((fresh (is_request s) lim h sk)\<lparr>state := Fields, derived := start_event s # map field_event (content fs)\<rparr>) (ec, st')" "\<not> eager st'"
    using fresh_finish [of ec st' s fs lim h sk] fin by (simp_all add: fresh_new)
  have "ec = None \<longrightarrow> is_header_done st'"
    using out(1) by (cases "body_framing sk s (content fs)") (auto simp: header_outcome_def is_header_done_def)
  then show thesis
    using that fin out header_outcome_error [OF out(1)] by blast
qed

lemma fresh_waiting: "waiting s fs (fresh q lim h sk) [] (header_text s fs) (fresh q lim h sk)"
  by (simp add: waiting_def fresh_new)

lemma header_text_nonempty [simp]: "header_text s fs \<noteq> []"
  by (simp add: header_text_def fields_text_def)

lemma fresh_fields_ok: "fields_ok {} xs \<Longrightarrow> fields_ok (flags (fresh q lim h sk)) xs"
  using fields_ok_cong [of "flags (fresh q lim h sk)" "{}" xs] by simp

context message_reader
begin

lemma header_read:
  assumes given: "start_wf s" "list_all field_wf fs" "fields_ok {} (content fs)"
    and limits: "length (header_text s fs) \<le> h" "length (header_text s fs) \<le> size_limit D b"
    and io: "inv b" "live c" "text_of (readable D b @ sent c) = header_text s fs @ rest"
  shows "\<exists>ec st' c' b'. read_header (is_request s) recorder D read c b (fresh (is_request s) lim h sk) =
        Some (length (header_text s fs), map_option Parser_error ec, c', b', st') \<and>
      header_outcome (body_framing sk s (content fs))
        ((fresh (is_request s) lim h sk)\<lparr>state := Fields, derived := start_event s # map field_event (content fs)\<rparr>) (ec, st') \<and>
      text_of (readable D b' @ sent c') = rest"
proof -
  let ?new = "fresh (is_request s) lim h sk"
  obtain ec st' where fin: "finish_header (is_request s) (after_fields (content fs) (started s ?new)) = (ec, st')"
      and out: "header_outcome (body_framing sk s (content fs))
        (?new\<lparr>state := Fields, derived := start_event s # map field_event (content fs)\<rparr>) (ec, st')"
      and ec: "\<not> eager st'" "ec \<noteq> Some Need_more" "ec = None \<longrightarrow> is_header_done st'"
    by (rule fresh_finished)
  have "readable D b = [] \<Longrightarrow> sent c \<noteq> []"
    using io(3) header_text_nonempty [of s fs] by (cases "sent c") simp_all
  moreover have "0 < length (header_text s fs)"
    by simp
  then have "0 < size_limit D b"
    using limits(2) by linarith
  moreover have "\<not> is_done ?new"
    by (simp add: is_done_def)
  ultimately obtain c1 b1 where enter: "read_some (is_request s) recorder D read c b ?new =
        read_loop (is_request s) recorder D read True 0 c1 b1 ?new" "inv b1" "live c1"
      "readable D b1 @ sent c1 = readable D b @ sent c" "size_limit D b1 = size_limit D b"
    using read_some_enters [of ?new b c "is_request s" recorder] io(1,2) by metis
  have "text_of (readable D b1) @ text_of (sent c1) = header_text s fs @ rest"
    using io(3) enter(4) by (metis text_of_append)
  moreover have "fields_ok (flags ?new) (content fs)" "skip ?new = 0" "length (header_text s fs) \<le> header_limit ?new"
    using fresh_fields_ok [OF given(3)] limits(1) by (blast, simp_all)
  ultimately obtain c' b' where run: "read_loop (is_request s) recorder D read True 0 c1 b1 ?new =
        Some (length (header_text s fs), map_option Parser_error ec, c', b', st')"
      "text_of (readable D b' @ sent c') = rest"
    using loop_header [OF given(1,2) _ _ _ fin ec(1,2) fresh_waiting, of b1 "text_of (readable D b1)" c1 rest 0] enter(2,3,5) limits(2)
    by auto
  have "read_header (is_request s) recorder D read c b ?new =
      Some (length (header_text s fs), map_option Parser_error ec, c', b', st')"
    using ec(3) by (subst read_header_def, subst read_until.simps)
      (auto simp: fresh_new is_header_done_def enter(1) run(1) Let_def)
  then show ?thesis
    using out run(2) by blast
qed

lemma header_truncated:
  assumes given: "start_wf s" "list_all field_wf fs" "fields_ok {} (content fs)"
    and limits: "length (header_text s fs) \<le> h" "length (header_text s fs) \<le> size_limit D b"
    and io: "inv b" "live c" "ended c" "text_of (readable D b @ sent c) @ v = header_text s fs" "v \<noteq> []"
  shows "\<exists>n c' b' st'. read_header (is_request s) recorder D read c b (fresh (is_request s) lim h sk) =
    Some (n, Some (if readable D b @ sent c = [] then End_of_stream else Parser_error Partial_message), c', b', st')"
proof -
  let ?new = "fresh (is_request s) lim h sk"
  have "0 < length (header_text s fs)"
    by simp
  then have limit: "0 < size_limit D b"
    using limits(2) by linarith
  have new: "\<not> is_done ?new" "\<not> is_header_done ?new" "\<not> got_some ?new"
    by (simp_all add: is_done_def is_header_done_def got_some_def)
  have "\<exists>n c' b' st'. read_some (is_request s) recorder D read c b ?new =
      Some (n, Some (if readable D b @ sent c = [] then End_of_stream else Parser_error Partial_message), c', b', st')"
  proof (cases "readable D b @ sent c = []")
    case True
    then show ?thesis
      using loop_ends [OF io(1) _ io(2) _ io(3), of "is_request s" recorder 0 ?new] limit new(1,3)
      by (auto simp: read_some_def read_eof_def)
  next
    case False
    then obtain c1 b1 where enter: "read_some (is_request s) recorder D read c b ?new =
          read_loop (is_request s) recorder D read True 0 c1 b1 ?new" "inv b1" "live c1" "readable D b1 \<noteq> []"
        "readable D b1 @ sent c1 = readable D b @ sent c" "size_limit D b1 = size_limit D b" "ended c1 = ended c"
      using read_some_enters [of ?new b c "is_request s" recorder] io(1,2) limit new(1) by (metis append_self_conv2)
    have "header_text s fs = text_of (readable D b1) @ text_of (sent c1) @ v"
      using io(4) enter(5) by (metis append_assoc text_of_append)
    moreover have "fields_ok (flags ?new) (content fs)" "skip ?new = 0" "length (header_text s fs) \<le> header_limit ?new"
      using fresh_fields_ok [OF given(3)] limits(1) by (blast, simp_all)
    ultimately show ?thesis
      using loop_truncated [OF given(1,2) _ _ _ fresh_waiting, where b = b1 and x = "text_of (readable D b1)" and c = c1 and v = v and k = 0]
        enter limits(2) io(3,5) False by auto
  qed
  then show ?thesis
    by (subst read_header_def, subst read_until.simps) (auto simp: fresh_new new(2) Let_def)
qed

end

section \<open>Flat buffers and the stream in memory\<close>

lemma flat_dynamic_simps [simp]:
  "readable (flat_dynamic alloc) = flat_data" "size_limit (flat_dynamic alloc) = limit" "room (flat_dynamic alloc) = flat_capacity"
  "get_room (flat_dynamic alloc) = flat_prepare alloc" "put_bytes (flat_dynamic alloc) = flat_fill"
  "commit_bytes (flat_dynamic alloc) = flat_commit" "consume_bytes (flat_dynamic alloc) = flat_consume"
  by (simp_all add: flat_dynamic_def)

interpretation flat_reader: message_reader "flat_dynamic alloc" flat_inv flat_out live str "\<lambda>s. code s = Ended" read_bytes
  by (simp only: message_reader_def flat_dynamic_simps flat.dynamic_buffer_axioms test_stream.sync_read_stream_axioms)

section \<open>Properties\<close>

text \<open>
  C13: \<open>read_header\<close> from a stream reads a well-formed header into a
  \<open>flat_buffer\<close> and parses it, however the reads divide the bytes, however much of them
  the buffer held before, and wherever the allocator put them.  It returns the length of the header, and what
  follows the header is still there, in the buffer and in the stream, in order.
\<close>

theorem read_header_exact:
  assumes "start_wf s" "list_all field_wf fs" "fields_ok {} (content fs)"
    "length (header_text s fs) \<le> h" "length (header_text s fs) \<le> limit b"
    "flat_inv b" "live c" "text_of (flat_data b @ str c) = header_text s fs @ rest"
  shows "\<exists>ec st' c' b'. read_header (is_request s) recorder (flat_dynamic alloc) read_bytes c b (fresh (is_request s) lim h sk) =
        Some (length (header_text s fs), map_option Parser_error ec, c', b', st') \<and>
      header_outcome (body_framing sk s (content fs))
        ((fresh (is_request s) lim h sk)\<lparr>state := Fields, derived := start_event s # map field_event (content fs)\<rparr>) (ec, st') \<and>
      text_of (flat_data b' @ str c') = rest"
  using flat_reader.header_read [of s fs h alloc b c rest lim sk] assms by simp

theorem read_header_exact_witness:
  "\<exists>ec st' c' b'. read_header True recorder (flat_dynamic (\<lambda>_ _. 0)) read_bytes
      (new_end 100 None\<lparr>in_b := \<lparr>mem = map byte_of (''/x HTTP/1.1'' @ [CR, LF, CR, LF] @ ''rest''), in_pos = 0, out_pos = 19,
        last_pos = 19, limit = 100\<rparr>\<rparr>)
      \<lparr>mem = map byte_of ''PUT '', in_pos = 0, out_pos = 4, last_pos = 4, limit = 30\<rparr> (fresh True 10 100 False) =
    Some (19, map_option Parser_error ec, c', b', st') \<and> text_of (flat_data b' @ str c') = ''rest''"
proof -
  let ?s = "Request ''PUT'' ''/x'' True"
  let ?b = "\<lparr>mem = map byte_of ''PUT '', in_pos = 0, out_pos = 4, last_pos = 4, limit = 30\<rparr>"
  let ?c = "new_end 100 None\<lparr>in_b := \<lparr>mem = map byte_of (''/x HTTP/1.1'' @ [CR, LF, CR, LF] @ ''rest''), in_pos = 0, out_pos = 19,
    last_pos = 19, limit = 100\<rparr>\<rparr>"
  note chars = token_char_iff tchar_code_def alpha_code_def digit_code_def pathchar_iff vchar_code_def uchar_def
    is_control_char_def is_print_iff is_digit_iff
  have written: "header_text ?s [] = ''PUT /x HTTP/1.1'' @ [CR, LF, CR, LF]" "length (header_text ?s []) = 19"
    by (simp_all add: header_text_def fields_text_def version_text_def)
  have "start_wf ?s" "list_all field_wf []" "fields_ok {} (content [])"
    by (simp_all add: chars content_def)
  moreover have "flat_inv ?b" "live ?c" "text_of (flat_data ?b @ str ?c) = header_text ?s [] @ ''rest''"
    by (simp_all add: flat_inv_def live_def end_inv_def new_end_def text_of_def flat_data_def str_def written)
  ultimately show ?thesis
    using read_header_exact [of ?s "[]" 100 ?b ?c "''rest''" "\<lambda>_ _. 0" 10 False] written(2) by auto
qed

text \<open>
  C14: a stream that ends before the header does is an error.  If no byte of the message
  has come it is \<open>end_of_stream\<close>, the orderly end of a connection; otherwise it is
  \<open>partial_message\<close>.
\<close>

theorem read_header_truncated:
  assumes "start_wf s" "list_all field_wf fs" "fields_ok {} (content fs)"
    "length (header_text s fs) \<le> h" "length (header_text s fs) \<le> limit b"
    "flat_inv b" "live c" "code c = Ended" "text_of (flat_data b @ str c) @ v = header_text s fs" "v \<noteq> []"
  shows "\<exists>n c' b' st'. read_header (is_request s) recorder (flat_dynamic alloc) read_bytes c b (fresh (is_request s) lim h sk) =
    Some (n, Some (if flat_data b @ str c = [] then End_of_stream else Parser_error Partial_message), c', b', st')"
  using flat_reader.header_truncated [of s fs h alloc b c v lim sk] assms by simp

theorem read_header_truncated_witness:
  "\<exists>n c' b' st'. read_header True recorder (flat_dynamic (\<lambda>_ _. 0)) read_bytes
      (new_end 100 None\<lparr>in_b := \<lparr>mem = map byte_of ''PUT /x '', in_pos = 0, out_pos = 7, last_pos = 7, limit = 100\<rparr>, code := Ended\<rparr>)
      (flat_init 30) (fresh True 10 100 False) = Some (n, Some (Parser_error Partial_message), c', b', st')"
proof -
  let ?s = "Request ''PUT'' ''/x'' True"
  let ?c = "new_end 100 None\<lparr>in_b := \<lparr>mem = map byte_of ''PUT /x '', in_pos = 0, out_pos = 7, last_pos = 7, limit = 100\<rparr>,
    code := Ended\<rparr>"
  note chars = token_char_iff tchar_code_def alpha_code_def digit_code_def pathchar_iff vchar_code_def uchar_def
    is_control_char_def is_print_iff is_digit_iff
  have written: "header_text ?s [] = ''PUT /x '' @ ''HTTP/1.1'' @ [CR, LF, CR, LF]" "length (header_text ?s []) = 19"
    by (simp_all add: header_text_def fields_text_def version_text_def)
  have "start_wf ?s" "list_all field_wf []" "fields_ok {} (content [])"
    by (simp_all add: chars content_def)
  moreover have "live ?c" "code ?c = Ended" "flat_data (flat_init 30) @ str ?c \<noteq> []"
      "text_of (flat_data (flat_init 30) @ str ?c) @ ''HTTP/1.1'' @ [CR, LF, CR, LF] = header_text ?s []"
    by (simp_all add: flat_inv_def live_def end_inv_def new_end_def text_of_def flat_data_def flat_init_def str_def written)
  moreover have "limit (flat_init 30) = 30"
    by (simp add: flat_init_def)
  ultimately show ?thesis
    using read_header_truncated [of ?s "[]" 100 "flat_init 30" ?c "''HTTP/1.1'' @ [CR, LF, CR, LF]" "\<lambda>_ _. 0" 10 False]
      written(2) flat_inv_init by auto
qed

end
