(* ===== verification/Chunk_Extensions.thy ===== *)
theory Chunk_Extensions
  imports Http_Parser_Base Varint
begin

text \<open>
  \<open>basic_chunk_extensions\<close> (\<open>http/chunk_encode.hpp\<close>,
  \<open>http/impl/chunk_encode.ipp\<close>): a set of chunk extensions, kept twice, as the text
  \<open>s_\<close> that is sent and as the \<open>range_\<close> that is iterated, names and values each
  behind their length as a varint.  A read past the range is \<open>None\<close>.
\<close>

section \<open>The two representations\<close>

record extensions =
  ext_text :: string
  ext_range :: bytes

definition no_extensions :: extensions where
  "no_extensions = \<lparr>ext_text = [], ext_range = []\<rparr>"

text \<open>The lambdas \<open>emit_string\<close> and \<open>emit_empty_string\<close> of \<open>do_parse\<close>.\<close>

definition emit_string :: "string \<Rightarrow> bytes" where
  "emit_string s = varint_write (of_nat (length s)) @ map byte_of s"

definition emit_empty_string :: bytes where
  "emit_empty_string = varint_write 0"

section \<open>Iteration\<close>

text \<open>A string behind its length, and the rest.\<close>

definition take_string :: "bytes \<Rightarrow> (string \<times> bytes) option" where
  "take_string it =
     (case varint_read it of
        None \<Rightarrow> None
      | Some (n, it) \<Rightarrow>
          if unat n \<le> length it then Some (map char_of_byte (take (unat n) it), drop (unat n) it) else None)"

definition ext_deref :: "bytes \<Rightarrow> (string \<times> string) option" where
  "ext_deref it =
     (case take_string it of
        None \<Rightarrow> None
      | Some (name, it) \<Rightarrow> map_option (\<lambda>(v, _). (name, v)) (take_string it))"

definition ext_increment :: "bytes \<Rightarrow> bytes option" where
  "ext_increment it =
     (case take_string it of None \<Rightarrow> None | Some (_, it) \<Rightarrow> map_option snd (take_string it))"

lemma varint_read_shorter: "varint_read_loop it v f = Some (n, r) \<Longrightarrow> length r < length it"
  by (induction it v f rule: varint_read_loop.induct) (fastforce split: if_splits)+

lemma take_string_shorter: "take_string it = Some (s, r) \<Longrightarrow> length r < length it"
  using varint_read_shorter by (fastforce simp: take_string_def varint_read_def split: option.splits if_splits prod.splits)

lemma ext_increment_shorter: "ext_increment it = Some r \<Longrightarrow> length r < length it"
  unfolding ext_increment_def
  by (cases "take_string it") (auto simp: map_option_case split: option.splits dest!: take_string_shorter)

text \<open>The loop \<open>for(v : *this)\<close>.\<close>

function ext_pairs :: "bytes \<Rightarrow> (string \<times> string) list option" where
  "ext_pairs it =
     (if it = [] then Some []
      else case ext_deref it of
          None \<Rightarrow> None
        | Some v \<Rightarrow> (case ext_increment it of None \<Rightarrow> None | Some it \<Rightarrow> map_option ((#) v) (ext_pairs it)))"
  by pat_completeness auto
termination
  by (relation "measure length") (simp_all add: ext_increment_shorter)

declare ext_pairs.simps [simp del]

section \<open>Insertion\<close>

fun escape_quoted :: "string \<Rightarrow> string" where
  "escape_quoted [] = []"
| "escape_quoted (c # s) = (if c = CHR 0x5C \<or> c = CHR 0x22 then CHR 0x5C # c # escape_quoted s else c # escape_quoted s)"

definition do_insert :: "string \<Rightarrow> string \<Rightarrow> string" where
  "do_insert name value =
     (if value = [] then CHR '';'' # name
      else if list_all is_token_char value then CHR '';'' # name @ CHR ''='' # value
      else CHR '';'' # name @ CHR ''='' # CHR 0x22 # escape_quoted value @ [CHR 0x22])"

definition insert_ext :: "string \<Rightarrow> string \<Rightarrow> extensions \<Rightarrow> extensions" where
  "insert_ext name value e =
     \<lparr>ext_text = ext_text e @ do_insert name value,
      ext_range = ext_range e @ emit_string name @ emit_string value\<rparr>"

text \<open>\<open>insert\<close> of a name only.\<close>

definition insert_name :: "string \<Rightarrow> extensions \<Rightarrow> extensions" where
  "insert_name name e =
     \<lparr>ext_text = ext_text e @ do_insert name [], ext_range = ext_range e @ emit_string name @ emit_empty_string\<rparr>"

definition clear_ext :: "extensions \<Rightarrow> extensions" where
  "clear_ext e = e\<lparr>ext_text := []\<rparr>"

section \<open>Parsing\<close>

text \<open>
  The two passes over a quoted string, from behind its opening quote: the first counts the
  characters of the value, the second copies them and stops behind the closing quote.
\<close>

fun quoted_count :: "string \<Rightarrow> nat \<Rightarrow> nat option" where
  "quoted_count [] n = None"
| "quoted_count (c # s) n =
     (if c = CHR 0x22 then Some n
      else if c = CHR 0x5C then (case s of [] \<Rightarrow> None | d # s' \<Rightarrow> quoted_count s' (n + 1))
      else quoted_count s (n + 1))"

fun quoted_copy :: "string \<Rightarrow> string \<times> string" where
  "quoted_copy [] = ([], [])"
| "quoted_copy (c # s) =
     (if c = CHR 0x22 then ([], s)
      else if c = CHR 0x5C then
        (case s of [] \<Rightarrow> ([], []) | d # s' \<Rightarrow> (case quoted_copy s' of (v, r) \<Rightarrow> (d # v, r)))
      else (case quoted_copy s of (v, r) \<Rightarrow> (c # v, r)))"

lemma quoted_copy_shorter: "length (snd (quoted_copy s)) \<le> length s"
proof (induction s rule: quoted_copy.induct)
  case (2 c s)
  show ?case
  proof (cases "c = CHR 0x22")
    case False
    show ?thesis
    proof (cases "c = CHR 0x5C")
      case True
      then show ?thesis
        using 2(1) [OF False True] by (cases s) (simp_all add: case_prod_beta le_SucI)
    next
      case other: False
      then show ?thesis
        using 2(2) [OF False] False by (simp add: case_prod_beta)
    qed
  qed simp
qed simp

text \<open>
  The quoted string in \<open>range_\<close>: room for the counted length, then the copy over it.
\<close>

definition quoted_range :: "nat \<Rightarrow> string \<Rightarrow> bytes" where
  "quoted_range n v = varint_write (of_nat n) @ map byte_of v @ replicate (n - length v) 0"

text \<open>
  \<open>do_parse\<close> from the label \<open>loop\<close>, or from \<open>semi\<close> behind its semicolon:
  the error code it is called with, the text and the range so far; the error code it leaves, and the
  range.
\<close>

function parse_ext :: "bool \<Rightarrow> http_error option \<Rightarrow> string \<Rightarrow> bytes \<Rightarrow> http_error option \<times> bytes" where
  "parse_ext False ec it r =
     (if it = [] then (None, r)
      else let it = skip_ows it in
        if it = [] then (Some Bad_chunk_extension, r)
        else if hd it \<noteq> CHR '';'' then (Some Bad_chunk_extension, r)
        else parse_ext True ec (tl it) r)"
| "parse_ext True ec it r =
     (let it = skip_ows it in
      if it = [] then (Some Bad_chunk_extension, r)
      else if \<not> is_token_char (hd it) then (Some Bad_chunk_extension, r)
      else let first = it; it = skip_token (tl it) in
        if it = [] then (ec, r @ emit_string first @ emit_empty_string)
        else let r = r @ emit_string (upto_iter first it); it = skip_ows it in
          if it = [] then (Some Bad_chunk_extension, r)
          else if hd it = CHR '';'' then parse_ext True ec (tl it) (r @ emit_empty_string)
          else if hd it \<noteq> CHR ''='' then (Some Bad_chunk_extension, r)
          else let it = skip_ows (tl it) in
            if it = [] then (Some Bad_chunk_extension, r)
            else if hd it \<noteq> CHR 0x22 then
              (if \<not> is_token_char (hd it) then (Some Bad_chunk_extension, r)
               else let first = it; it = skip_token (tl it); r = r @ emit_string (upto_iter first it) in
                 if it = [] then (ec, r) else parse_ext False ec it r)
            else
              (case quoted_count (tl it) 0 of
                 None \<Rightarrow> (Some Bad_chunk_extension, r)
               | Some n \<Rightarrow> (case quoted_copy (tl it) of (v, it) \<Rightarrow> parse_ext False ec it (r @ quoted_range n v))))"
  by pat_completeness auto
termination
proof (relation "measure (\<lambda>(semi, ec, it, r). length it)", goal_cases)
  case (2 ec it r it1)
  then show ?case using tl_skip_ows by auto
next
  case (3 ec it r it1 first it2 r1 it3)
  then have "length (tl it3) < length it2" "length it2 \<le> length (tl it1)" "length (tl it1) < length it"
    using tl_skip_ows [of it] tl_skip_ows [of it2] length_skip_token [of "tl it1"] by auto
  then show ?case by simp
next
  case (4 ec it r it1 first it2 r1 it3 it4 first2 it5 r2)
  then have "length it5 \<le> length (tl it4)" "length (tl it4) < length (tl it3)"
    "length (tl it3) < length it2" "length it2 \<le> length (tl it1)" "length (tl it1) < length it"
    using tl_skip_ows [of it] tl_skip_ows [of it2] tl_skip_ows [of "tl it3"]
      length_skip_token [of "tl it1"] length_skip_token [of "tl it4"] by auto
  then show ?case by simp
next
  case (5 ec it r it1 first it2 r1 it3 it4 n v it5)
  then have "length (tl it4) < length (tl it3)"
    "length (tl it3) < length it2" "length it2 \<le> length (tl it1)" "length (tl it1) < length it"
    using tl_skip_ows [of it] tl_skip_ows [of it2] tl_skip_ows [of "tl it3"]
      length_skip_token [of "tl it1"] by auto
  moreover have "length it5 \<le> length (tl it4)"
    using quoted_copy_shorter [of "tl it4"] 5 by (metis snd_conv)
  ultimately show ?case by simp
qed simp

declare parse_ext.simps [simp del]

definition do_parse :: "http_error option \<Rightarrow> string \<Rightarrow> http_error option \<times> bytes" where
  "do_parse ec s = parse_ext False ec s []"

text \<open>\<open>None\<close> when the iteration over the new range reads past it.\<close>

definition parse_extensions :: "string \<Rightarrow> http_error option \<Rightarrow> extensions \<Rightarrow> (http_error option \<times> extensions) option" where
  "parse_extensions s ec e =
     (case do_parse ec s of (ec, r) \<Rightarrow>
        let e = e\<lparr>ext_range := r\<rparr> in
        if ec \<noteq> None then Some (ec, e)
        else map_option (\<lambda>xs. (None, e\<lparr>ext_text := concat (map (\<lambda>(n, v). do_insert n v) xs)\<rparr>)) (ext_pairs r))"

section \<open>Strings in the range\<close>

lemma take_emit: "length s < 2 ^ 64 \<Longrightarrow> take_string (emit_string s @ r) = Some (s, r)"
  by (simp add: take_string_def emit_string_def varint_read_def varint_read_write_loop unat_of_nat map_idI)

lemma emit_empty: "emit_string [] = emit_empty_string"
  by (simp add: emit_string_def emit_empty_string_def)

definition ext_sizes :: "(string \<times> string) list \<Rightarrow> bool" where
  "ext_sizes xs \<longleftrightarrow> (\<forall>(n, v)\<in>set xs. length n < 2 ^ 64 \<and> length v < 2 ^ 64)"

definition range_of :: "(string \<times> string) list \<Rightarrow> bytes" where
  "range_of xs = concat (map (\<lambda>(n, v). emit_string n @ emit_string v) xs)"

definition text_for :: "(string \<times> string) list \<Rightarrow> string" where
  "text_for xs = concat (map (\<lambda>(n, v). do_insert n v) xs)"

lemma range_text_simps [simp]:
  "range_of [] = []" "range_of ((n, v) # xs) = emit_string n @ emit_string v @ range_of xs"
  "text_for [] = []" "text_for ((n, v) # xs) = do_insert n v @ text_for xs"
  by (simp_all add: range_of_def text_for_def)

lemma ext_pairs_range: "ext_sizes xs \<Longrightarrow> ext_pairs (range_of xs) = Some xs"
proof (induction xs)
  case Nil
  show ?case by (subst ext_pairs.simps) simp
next
  case (Cons x xs)
  obtain n v where x: "x = (n, v)"
    by (cases x)
  have size: "length n < 2 ^ 64" "length v < 2 ^ 64" and IH: "ext_pairs (range_of xs) = Some xs"
    using Cons x by (auto simp: ext_sizes_def)
  have "ext_deref (range_of (x # xs)) = Some x" "ext_increment (range_of (x # xs)) = Some (range_of xs)"
    using size by (simp_all add: ext_deref_def ext_increment_def take_emit x)
  moreover have "range_of (x # xs) \<noteq> []"
    by (simp add: x emit_string_def)
  ultimately show ?case
    using IH by (subst ext_pairs.simps) simp
qed

section \<open>Quoted strings\<close>

lemma quoted_count_copy: "quoted_count s n = Some m \<Longrightarrow> m = n + length (fst (quoted_copy s))"
proof (induction s n rule: quoted_count.induct)
  case (2 c s n)
  then show ?case
    by (cases s) (auto simp: case_prod_beta split: if_splits)
qed simp

lemma quoted_range_emit: "quoted_count s 0 = Some m \<Longrightarrow> quoted_range m (fst (quoted_copy s)) = emit_string (fst (quoted_copy s))"
  using quoted_count_copy [of s 0 m] by (simp add: quoted_range_def emit_string_def)

lemma quoted_escape:
  "quoted_count (escape_quoted v @ CHR 0x22 # r) n = Some (n + length v)"
  "quoted_copy (escape_quoted v @ CHR 0x22 # r) = (v, r)"
  by (induction v arbitrary: n) auto

section \<open>Parsing what was inserted\<close>

lemma token_not_ows: "is_token_char c \<Longrightarrow> \<not> is_ows c"
  using token_not_special by blast

lemma skip_ows_start: "s \<noteq> [] \<Longrightarrow> \<not> is_ows (hd s) \<Longrightarrow> skip_ows s = s"
  by (cases s) simp_all

lemma skip_token_name:
  "n \<noteq> [] \<Longrightarrow> list_all is_token_char n \<Longrightarrow> x = [] \<or> \<not> is_token_char (hd x) \<Longrightarrow>
   skip_ows (n @ x) = n @ x \<and> is_token_char (hd (n @ x)) \<and> skip_token (tl (n @ x)) = x"
  using skip_token_all [of "tl n" x] token_not_ows by (cases n) auto

lemma name_step:
  assumes "n \<noteq> []" "list_all is_token_char n" "x \<noteq> []" "\<not> is_token_char (hd x)" "\<not> is_ows (hd x)"
  shows "parse_ext True ec (n @ x) r =
    (if hd x = CHR '';'' then parse_ext True ec (tl x) (r @ emit_string n @ emit_empty_string)
     else if hd x \<noteq> CHR ''='' then (Some Bad_chunk_extension, r @ emit_string n)
     else let it = skip_ows (tl x); r = r @ emit_string n in
       if it = [] then (Some Bad_chunk_extension, r)
       else if hd it \<noteq> CHR 0x22 then
         (if \<not> is_token_char (hd it) then (Some Bad_chunk_extension, r)
          else let first = it; it = skip_token (tl it); r = r @ emit_string (upto_iter first it) in
            if it = [] then (ec, r) else parse_ext False ec it r)
       else
         (case quoted_count (tl it) 0 of
            None \<Rightarrow> (Some Bad_chunk_extension, r)
          | Some n \<Rightarrow> (case quoted_copy (tl it) of (v, it) \<Rightarrow> parse_ext False ec it (r @ quoted_range n v))))"
proof -
  have x: "skip_ows x = x"
    using skip_ows_start assms by blast
  have n: "skip_ows (n @ x) = n @ x" "is_token_char (hd (n @ x))" "skip_token (tl (n @ x)) = x" "n @ x \<noteq> []"
    using skip_token_name [of n x] assms by simp_all
  show ?thesis
    by (subst parse_ext.simps(2)) (simp only: n x Let_def upto_iter_append assms(3) simp_thms if_True if_False append_assoc)
qed

lemma name_end:
  assumes "n \<noteq> []" "list_all is_token_char n"
  shows "parse_ext True ec n r = (ec, r @ emit_string n @ emit_empty_string)"
  using skip_token_name [of n "[]"] assms by (subst parse_ext.simps(2)) (simp add: Let_def)

lemma semi_step: "parse_ext False ec (CHR '';'' # s) r = parse_ext True ec s r"
  by (subst parse_ext.simps(1)) simp

lemma parse_inserted:
  assumes "n \<noteq> []" "list_all is_token_char n" "x = [] \<or> hd x = CHR '';''"
  shows "parse_ext False None (do_insert n v @ x) r = parse_ext False None x (r @ emit_string n @ emit_string v)"
proof -
  have nil: "parse_ext False None [] s = (None, s)" for s
    by (subst parse_ext.simps(1)) simp
  have x: "x = [] \<or> \<not> is_token_char (hd x) \<and> \<not> is_ows (hd x)" "x \<noteq> [] \<Longrightarrow> x = CHR '';'' # tl x"
    using assms(3) not_token by (cases x; simp)+
  consider (empty) "v = []" | (token) "v \<noteq> []" "list_all is_token_char v" | (quoted) "v \<noteq> []" "\<not> list_all is_token_char v"
    by blast
  then show ?thesis
  proof cases
    case empty
    then show ?thesis
    proof (cases "x = []")
      case True
      then show ?thesis
        using name_end [OF assms(1,2)] by (simp add: do_insert_def empty semi_step nil emit_empty)
    next
      case False
      then have "parse_ext True None (n @ x) r = parse_ext True None (tl x) (r @ emit_string n @ emit_empty_string)"
        using name_step [OF assms(1,2) False] x(1) assms(3) by simp
      then show ?thesis
        using x(2) [OF False] by (metis append_Cons do_insert_def emit_empty empty semi_step)
    qed
  next
    case token
    define y where "y = v @ x"
    have y: "skip_ows y = y" "is_token_char (hd y)" "skip_token (tl y) = x" "y \<noteq> []" "upto_iter y x = v"
      using skip_token_name [of v x] token x(1) by (auto simp: y_def upto_iter_append)
    then have "hd y \<noteq> CHR 0x22"
      using not_token by metis
    then have "parse_ext True None (n @ CHR ''='' # y) r =
        (if x = [] then (None, (r @ emit_string n) @ emit_string v) else parse_ext False None x ((r @ emit_string n) @ emit_string v))"
      using name_step [OF assms(1,2), of "CHR ''='' # y"] not_token y by (cases "x = []") (simp_all add: Let_def)
    then show ?thesis
      using token by (cases "x = []") (simp_all add: do_insert_def semi_step nil y_def)
  next
    case quoted
    let ?q = "CHR 0x22 # escape_quoted v @ CHR 0x22 # x"
    have "quoted_range (length v) v = emit_string v"
      by (simp add: quoted_range_def emit_string_def)
    then have "parse_ext True None (n @ CHR ''='' # ?q) r = parse_ext False None x (r @ emit_string n @ emit_string v)"
      using name_step [OF assms(1,2), of "CHR ''='' # ?q"] not_token by (simp add: Let_def quoted_escape)
    then show ?thesis
      using quoted by (simp add: do_insert_def semi_step)
  qed
qed

definition ext_names :: "(string \<times> string) list \<Rightarrow> bool" where
  "ext_names xs \<longleftrightarrow> (\<forall>(n, v)\<in>set xs. n \<noteq> [] \<and> list_all is_token_char n)"

lemma text_for_start: "text_for xs = [] \<or> hd (text_for xs) = CHR '';''"
  by (cases xs) (auto simp: do_insert_def split: if_splits)

lemma do_parse_text: "ext_names xs \<Longrightarrow> parse_ext False None (text_for xs) r = (None, r @ range_of xs)"
proof (induction xs arbitrary: r)
  case Nil
  show ?case by (subst parse_ext.simps(1)) simp
next
  case (Cons x xs)
  obtain n v where x: "x = (n, v)"
    by (cases x)
  then have "n \<noteq> []" "list_all is_token_char n" "ext_names xs"
    using Cons.prems by (auto simp: ext_names_def)
  then show ?case
    using Cons.IH parse_inserted [OF _ _ text_for_start, of n v] by (simp add: x)
qed

section \<open>Agreement with the parser of messages\<close>

lemma not_token_cr [simp]: "\<not> is_token_char CR"
  by (simp add: token_char_iff tchar_code_def digit_code_def alpha_code_def uchar_def)

lemma skip_ows_cr [simp]: "skip_ows (s @ CR # q) = skip_ows s @ CR # q"
  by (induction s) auto

lemma skip_token_cr [simp]: "skip_token (s @ CR # q) = skip_token s @ CR # q"
  by (induction s) auto

lemma set_skip: "set (skip_ows s) \<subseteq> set s" "set (skip_token s) \<subseteq> set s"
  by (induction s) auto

lemma set_quoted_copy: "set (snd (quoted_copy s)) \<subseteq> set s"
proof (induction s rule: quoted_copy.induct)
  case (2 c s)
  then show ?case
    by (cases s) (auto simp: case_prod_beta)
qed simp

lemma ext_quoted_copy: "quoted_count s n = Some m \<Longrightarrow> ext_quoted (s @ q) = Inr (snd (quoted_copy s) @ q)"
proof (induction s n rule: quoted_count.induct)
  case (2 c s n)
  then show ?case
    by (cases s) (auto simp: case_prod_beta split: if_splits)
qed simp

lemma ext_quoted_open: "quoted_count s n = None \<Longrightarrow> ext_quoted (s @ CR # q) = Inr u \<Longrightarrow> length u \<le> length q"
proof (induction s n rule: quoted_count.induct)
  case (1 n)
  then show ?case
    using ext_quoted_shorter [of q u] by (auto split: if_splits)
next
  case (2 c s n)
  then show ?case
    using ext_quoted_shorter [of q u] by (cases s) (auto split: if_splits)
qed

text \<open>The two definitions with their local variables named.\<close>

lemma chunk_ext_semi:
  assumes "i1 = skip_ows it" "i2 = skip_token (tl i1)" "i3 = skip_ows i2" "i4 = skip_ows (tl i3)"
  shows "chunk_ext True it =
     (if i1 = [] then Inl Need_more else if \<not> is_token_char (hd i1) then Inl Bad_chunk_extension
      else if i2 = [] then Inl Need_more else if i3 = [] then Inl Need_more
      else if hd i3 = CHR '';'' then chunk_ext True (tl i3)
      else if hd i3 \<noteq> CHR ''='' then (if is_ows (hd i2) then Inl Bad_chunk_extension else Inr i3)
      else if i4 = [] then Inl Need_more
      else if hd i4 \<noteq> CHR 0x22 then
        (if \<not> is_token_char (hd i4) then Inl Bad_chunk_extension
         else if skip_token (tl i4) = [] then Inl Need_more else chunk_ext False (skip_token (tl i4)))
      else (case ext_quoted (tl i4) of Inl e \<Rightarrow> Inl e | Inr it \<Rightarrow> chunk_ext False it))"
  by (simp only: chunk_ext.simps(2) [of it] Let_def assms)

lemma chunk_ext_loop:
  "chunk_ext False it =
     (if it = [] then Inl Need_more else if \<not> is_ows (hd it) \<and> hd it \<noteq> CHR '';'' then Inr it
      else if skip_ows it = [] then Inl Need_more
      else if hd (skip_ows it) \<noteq> CHR '';'' then Inl Bad_chunk_extension else chunk_ext True (tl (skip_ows it)))"
  by (simp only: chunk_ext.simps(1) [of it] Let_def)

lemma parse_ext_semi:
  assumes "i1 = skip_ows it" "i2 = skip_token (tl i1)" "i3 = skip_ows i2" "i4 = skip_ows (tl i3)"
  obtains r1 r2 where "parse_ext True None it r =
     (if i1 = [] \<or> \<not> is_token_char (hd i1) then (Some Bad_chunk_extension, r)
      else if i2 = [] then (None, r1)
      else if i3 = [] then (Some Bad_chunk_extension, r1)
      else if hd i3 = CHR '';'' then parse_ext True None (tl i3) r2
      else if hd i3 \<noteq> CHR ''='' then (Some Bad_chunk_extension, r1)
      else if i4 = [] then (Some Bad_chunk_extension, r1)
      else if hd i4 \<noteq> CHR 0x22 then
        (if \<not> is_token_char (hd i4) then (Some Bad_chunk_extension, r1)
         else if skip_token (tl i4) = [] then (None, r2) else parse_ext False None (skip_token (tl i4)) r2)
      else if quoted_count (tl i4) 0 = None then (Some Bad_chunk_extension, r1)
      else parse_ext False None (snd (quoted_copy (tl i4))) r2)"
proof -
  have "\<exists>r1 r2. parse_ext True None it r = (if i1 = [] \<or> \<not> is_token_char (hd i1) then (Some Bad_chunk_extension, r)
      else if i2 = [] then (None, r1)
      else if i3 = [] then (Some Bad_chunk_extension, r1)
      else if hd i3 = CHR '';'' then parse_ext True None (tl i3) r2
      else if hd i3 \<noteq> CHR ''='' then (Some Bad_chunk_extension, r1)
      else if i4 = [] then (Some Bad_chunk_extension, r1)
      else if hd i4 \<noteq> CHR 0x22 then
        (if \<not> is_token_char (hd i4) then (Some Bad_chunk_extension, r1)
         else if skip_token (tl i4) = [] then (None, r2) else parse_ext False None (skip_token (tl i4)) r2)
      else if quoted_count (tl i4) 0 = None then (Some Bad_chunk_extension, r1)
      else parse_ext False None (snd (quoted_copy (tl i4))) r2)"
    unfolding parse_ext.simps(2) [of None it r] Let_def assms [symmetric]
    by (cases "quoted_count (tl i4) 0") (auto simp: case_prod_beta)
  then show thesis
    using that by blast
qed

lemma ext_lengths:
  assumes "i1 = skip_ows it" "i2 = skip_token (tl i1)" "i3 = skip_ows i2" "i4 = skip_ows (tl i3)" "i1 \<noteq> []"
  shows "length (tl i3) < length it" "length (skip_token (tl i4)) < length it" "length (tl i4) < length it"
    "length i3 < length it"
proof -
  have "length (tl i1) < length i1" "length i1 \<le> length it" "length i2 \<le> length (tl i1)" "length i3 \<le> length i2"
      "length (tl i3) \<le> length i3" "length i4 \<le> length (tl i3)" "length (tl i4) \<le> length i4"
      "length (skip_token (tl i4)) \<le> length (tl i4)"
    unfolding assms(2-4) using assms(1,5) by (simp_all only: length_skip_ows length_skip_token) (simp_all add: length_skip_ows)
  then show "length (tl i3) < length it" "length (skip_token (tl i4)) < length it" "length (tl i4) < length it"
      "length i3 < length it"
    by linarith+
qed

lemma chunk_ext_shorter: "chunk_ext semi it = Inr u \<Longrightarrow> length u \<le> length it"
proof (induction "length it" arbitrary: semi it rule: less_induct)
  case less
  show ?case
  proof (cases semi)
    case False
    show ?thesis
    proof (cases "it = [] \<or> \<not> is_ows (hd it) \<and> hd it \<noteq> CHR '';'' \<or> skip_ows it = [] \<or> hd (skip_ows it) \<noteq> CHR '';''")
      case True
      then show ?thesis
        using less.prems False by (auto simp: chunk_ext_loop split: if_splits)
    next
      case go: False
      then have "chunk_ext True (tl (skip_ows it)) = Inr u" "length (tl (skip_ows it)) < length it"
        using less.prems False tl_skip_ows [of it] by (auto simp: chunk_ext_loop split: if_splits)
      then show ?thesis
        using less.hyps by fastforce
    qed
  next
    case True
    define i1 where "i1 = skip_ows it"
    define i2 where "i2 = skip_token (tl i1)"
    define i3 where "i3 = skip_ows i2"
    define i4 where "i4 = skip_ows (tl i3)"
    note defs = i1_def i2_def i3_def i4_def
    have "chunk_ext True it = Inr u" "i1 \<noteq> []"
      using less.prems True chunk_ext_semi [OF defs] by (auto split: if_splits)
    note len = ext_lengths [OF defs this(2)]
    have "chunk_ext True (tl i3) = Inr u \<or> u = i3 \<or> chunk_ext False (skip_token (tl i4)) = Inr u \<or>
        (\<exists>q. ext_quoted (tl i4) = Inr q \<and> chunk_ext False q = Inr u)"
      using \<open>chunk_ext True it = Inr u\<close> unfolding chunk_ext_semi [OF defs]
      by (simp split: if_split_asm sum.split_asm)
    then consider "chunk_ext True (tl i3) = Inr u" | "u = i3"
      | "chunk_ext False (skip_token (tl i4)) = Inr u" | q where "ext_quoted (tl i4) = Inr q" "chunk_ext False q = Inr u"
      by blast
    then show ?thesis
    proof cases
      case 1
      then show ?thesis
        using less.hyps [OF len(1)] len(1) by fastforce
    next
      case 2
      then show ?thesis
        using len(4) by simp
    next
      case 3
      then show ?thesis
        using less.hyps [OF len(2)] len(2) by fastforce
    next
      case 4
      then have "length q < length it"
        using ext_quoted_shorter [of "tl i4" q] len(3) by simp
      then show ?thesis
        using less.hyps 4(2) by fastforce
    qed
  qed
qed

lemma set_tl: "set (tl s) \<subseteq> set s"
  by (cases s) auto

lemma parse_ext_agrees:
  "CR \<notin> set it \<Longrightarrow> fst (parse_ext semi None it r) = None \<longleftrightarrow> chunk_ext semi (it @ CR # s) = Inr (CR # s)"
proof (induction "length it" arbitrary: semi it r rule: less_induct)
  case less
  have longer: "x @ CR # s \<noteq> CR # s" if "x \<noteq> []" for x
    using that by simp
  show ?case
  proof (cases semi)
    case False
    have loop: "parse_ext False None it r =
        (if it = [] then (None, r) else if skip_ows it = [] \<or> hd (skip_ows it) \<noteq> CHR '';'' then (Some Bad_chunk_extension, r)
         else parse_ext True None (tl (skip_ows it)) r)"
      by (simp only: parse_ext.simps(1) [of None it r] Let_def) simp
    consider (empty) "it = []" | (other) "it \<noteq> []" "skip_ows it = [] \<or> hd (skip_ows it) \<noteq> CHR '';''"
      | (go) "it \<noteq> []" "skip_ows it \<noteq> []" "hd (skip_ows it) = CHR '';''"
      by blast
    then show ?thesis
    proof cases
      case empty
      then show ?thesis
        using False loop by (simp add: chunk_ext_loop)
    next
      case other
      then have "\<not> fst (parse_ext False None it r) = None"
        using loop by auto
      moreover have "chunk_ext False (it @ CR # s) \<noteq> Inr (CR # s)"
        using other by (cases it; cases "skip_ows it") (auto simp: chunk_ext_loop)
      ultimately show ?thesis
        using False by simp
    next
      case go
      have "length (tl (skip_ows it)) < length it" "CR \<notin> set (tl (skip_ows it))"
        using go less.prems tl_skip_ows [of it] set_skip(1) [of it] by (auto dest: set_mp [OF set_tl])
      then have "fst (parse_ext True None (tl (skip_ows it)) r) = None \<longleftrightarrow>
          chunk_ext True (tl (skip_ows it) @ CR # s) = Inr (CR # s)"
        using less.hyps by blast
      moreover have "chunk_ext False (it @ CR # s) = chunk_ext True (tl (skip_ows it) @ CR # s)"
        using go by (cases it) (auto simp: chunk_ext_loop)
      ultimately show ?thesis
        using False go loop by simp
    qed
  next
    case True
    define i1 where "i1 = skip_ows it"
    define i2 where "i2 = skip_token (tl i1)"
    define i3 where "i3 = skip_ows i2"
    define i4 where "i4 = skip_ows (tl i3)"
    note defs = i1_def i2_def i3_def i4_def
    let ?c = "CR # s"
    obtain r1 r2 where p: "parse_ext True None it r =
       (if i1 = [] \<or> \<not> is_token_char (hd i1) then (Some Bad_chunk_extension, r)
        else if i2 = [] then (None, r1)
        else if i3 = [] then (Some Bad_chunk_extension, r1)
        else if hd i3 = CHR '';'' then parse_ext True None (tl i3) r2
        else if hd i3 \<noteq> CHR ''='' then (Some Bad_chunk_extension, r1)
        else if i4 = [] then (Some Bad_chunk_extension, r1)
        else if hd i4 \<noteq> CHR 0x22 then
          (if \<not> is_token_char (hd i4) then (Some Bad_chunk_extension, r1)
           else if skip_token (tl i4) = [] then (None, r2) else parse_ext False None (skip_token (tl i4)) r2)
        else if quoted_count (tl i4) 0 = None then (Some Bad_chunk_extension, r1)
        else parse_ext False None (snd (quoted_copy (tl i4))) r2)"
      by (rule parse_ext_semi [OF defs])
    show ?thesis
    proof (cases "i1 = [] \<or> \<not> is_token_char (hd i1)")
      case bad: True
      then have "chunk_ext True (it @ ?c) = Inl Bad_chunk_extension"
        by (subst chunk_ext_semi [OF refl refl refl refl]) (cases i1; auto simp: i1_def [symmetric])
      then show ?thesis
        using True bad p by auto
    next
      case name: False
      then have tl1: "tl (i1 @ ?c) = tl i1 @ ?c" "hd (i1 @ ?c) = hd i1"
        by (cases i1; simp)+
      have sub: "CR \<notin> set (tl i3)" "CR \<notin> set (skip_token (tl i4))" "CR \<notin> set (snd (quoted_copy (tl i4)))"
        using less.prems set_skip(1) [of it] set_skip(2) [of "tl i1"] set_skip(1) [of i2] set_skip(1) [of "tl i3"]
          set_skip(2) [of "tl i4"] set_quoted_copy [of "tl i4"] set_tl [of i1] set_tl [of i3] set_tl [of i4]
        unfolding defs [symmetric] by blast+
      have "i1 \<noteq> []"
        using name by blast
      note len = ext_lengths [OF defs this]
      have q: "skip_ows (it @ ?c) = i1 @ ?c" "skip_token (tl (i1 @ ?c)) = i2 @ ?c" "skip_ows (i2 @ ?c) = i3 @ ?c"
        unfolding tl1(1) skip_token_cr by (simp_all only: i1_def i2_def i3_def skip_ows_cr)
      note c = chunk_ext_semi [OF q(1) [symmetric] q(2) [symmetric] q(3) [symmetric] refl]
      consider (stop) "i2 = []" | (blank) "i2 \<noteq> []" "i3 = []" | (semi) "i2 \<noteq> []" "i3 \<noteq> []" "hd i3 = CHR '';''"
        | (no) "i2 \<noteq> []" "i3 \<noteq> []" "hd i3 \<noteq> CHR '';''" "hd i3 \<noteq> CHR ''=''"
        | (val) "i2 \<noteq> []" "i3 \<noteq> []" "hd i3 = CHR ''=''"
        by blast
      then show ?thesis
      proof cases
        case stop
        then have "i3 = []"
          by (simp add: defs)
        then have "chunk_ext True (it @ ?c) = Inr ?c"
          using name stop tl1(2) by (simp add: c)
        then show ?thesis
          using True name stop p by simp
      next
        case blank
        then have "is_ows (hd i2)"
          using skip_ows_start [of i2] by (auto simp: i3_def)
        then have "chunk_ext True (it @ ?c) = Inl Bad_chunk_extension"
          using name blank tl1(2) by (simp add: c)
        then show ?thesis
          using True name blank p by simp
      next
        case semi
        have "chunk_ext True (it @ ?c) = chunk_ext True (tl i3 @ ?c)"
          using name semi tl1(2) by (simp add: c)
        then show ?thesis
          using less.hyps [OF len(1) sub(1), of True r2] name True semi p by simp
      next
        case no
        then have "chunk_ext True (it @ ?c) \<noteq> Inr ?c"
          using name tl1(2) by (simp add: c)
        then show ?thesis
          using True name no p by simp
      next
        case val
        have i4: "skip_ows (tl (i3 @ ?c)) = i4 @ ?c"
          using val by (simp add: i4_def)
        show ?thesis
        proof (cases "i4 = []")
          case stop: True
          then have "chunk_ext True (it @ ?c) = Inl Bad_chunk_extension"
            using name val tl1(2) i4 by (simp add: c)
          then show ?thesis
            using True name val stop p by simp
        next
          case i4': False
          then have v: "chunk_ext True (it @ ?c) = (if hd i4 \<noteq> CHR 0x22 then
               (if \<not> is_token_char (hd i4) then Inl Bad_chunk_extension
                else chunk_ext False (skip_token (tl i4) @ ?c))
             else (case ext_quoted (tl i4 @ ?c) of Inl e \<Rightarrow> Inl e | Inr it \<Rightarrow> chunk_ext False it))"
            using name val tl1(2) i4 by (simp add: c)
          consider (bad) "hd i4 \<noteq> CHR 0x22" "\<not> is_token_char (hd i4)" | (token) "hd i4 \<noteq> CHR 0x22" "is_token_char (hd i4)"
            | (quoted) m where "hd i4 = CHR 0x22" "quoted_count (tl i4) 0 = Some m"
            | (unclosed) "hd i4 = CHR 0x22" "quoted_count (tl i4) 0 = None"
            by (cases "quoted_count (tl i4) 0") auto
          then show ?thesis
          proof cases
            case bad
            then show ?thesis
              using True name val i4' p v by simp
          next
            case token
            have "chunk_ext False ?c = Inr ?c"
              by (simp add: chunk_ext_loop)
            then show ?thesis
              using less.hyps [OF len(2) sub(2), of False r2] True name val i4' token p v by simp
          next
            case quoted
            have "length (snd (quoted_copy (tl i4))) < length it"
              using quoted_copy_shorter [of "tl i4"] len(3) by simp
            then show ?thesis
              using less.hyps [OF _ sub(3), of False r2] True name val i4' quoted p v
              by (simp add: ext_quoted_copy [OF quoted(2)])
          next
            case unclosed
            have "chunk_ext False u \<noteq> Inr ?c" if "ext_quoted (tl i4 @ ?c) = Inr u" for u
              using ext_quoted_open [OF unclosed(2) that] chunk_ext_shorter [of False u ?c] by auto
            then have "chunk_ext True (it @ ?c) \<noteq> Inr ?c"
              using unclosed v by (cases "ext_quoted (tl i4 @ ?c)") simp_all
            then show ?thesis
              using True name val i4' unclosed p by simp
          qed
        qed
      qed
    qed
  qed
qed

lemma parse_ext_semi_exact:
  assumes "i1 = skip_ows it" "i2 = skip_token (tl i1)" "i3 = skip_ows i2" "i4 = skip_ows (tl i3)"
    "n = r @ emit_string (upto_iter i1 i2)"
  shows "parse_ext True ec it r =
     (if i1 = [] then (Some Bad_chunk_extension, r)
      else if \<not> is_token_char (hd i1) then (Some Bad_chunk_extension, r)
      else if i2 = [] then (ec, r @ emit_string i1 @ emit_empty_string)
      else if i3 = [] then (Some Bad_chunk_extension, n)
      else if hd i3 = CHR '';'' then parse_ext True ec (tl i3) (n @ emit_empty_string)
      else if hd i3 \<noteq> CHR ''='' then (Some Bad_chunk_extension, n)
      else if i4 = [] then (Some Bad_chunk_extension, n)
      else if hd i4 \<noteq> CHR 0x22 then
        (if \<not> is_token_char (hd i4) then (Some Bad_chunk_extension, n)
         else if skip_token (tl i4) = [] then (ec, n @ emit_string (upto_iter i4 (skip_token (tl i4))))
         else parse_ext False ec (skip_token (tl i4)) (n @ emit_string (upto_iter i4 (skip_token (tl i4)))))
      else (case quoted_count (tl i4) 0 of
          None \<Rightarrow> (Some Bad_chunk_extension, n)
        | Some m \<Rightarrow> (case quoted_copy (tl i4) of (v, it) \<Rightarrow> parse_ext False ec it (n @ quoted_range m v))))"
  by (simp only: parse_ext.simps(2) [of ec it r] Let_def assms)

section \<open>What a successful parse leaves\<close>

lemma quoted_copy_length: "length (fst (quoted_copy s)) + length (snd (quoted_copy s)) \<le> length s"
proof (induction s rule: quoted_copy.induct)
  case (2 c s)
  then show ?case
    by (cases s) (auto simp: case_prod_beta)
qed simp

lemma parse_ext_range:
  "length it < 2 ^ 64 \<Longrightarrow> parse_ext semi ec it r = (None, r') \<Longrightarrow> \<exists>xs. r' = r @ range_of xs \<and> ext_sizes xs"
proof (induction "length it" arbitrary: semi it r rule: less_induct)
  case less
  have nil: "\<exists>xs. r = r @ range_of xs \<and> ext_sizes xs"
    by (intro exI [of _ "[]"]) (simp add: ext_sizes_def)
  show ?case
  proof (cases semi)
    case False
    show ?thesis
    proof (cases "it = []")
      case True
      then show ?thesis
        using less.prems(2) False nil by (simp add: parse_ext.simps(1))
    next
      case go: False
      have "parse_ext False ec it r = (None, r')"
        using less.prems(2) False by simp
      then have "parse_ext True ec (tl (skip_ows it)) r = (None, r')" "skip_ows it \<noteq> []"
        using go unfolding parse_ext.simps(1) [of ec it r] Let_def by (simp_all split: if_split_asm)
      then show ?thesis
        using less.hyps [of "tl (skip_ows it)" True r] tl_skip_ows [of it] less.prems(1) by simp
    qed
  next
    case True
    define i1 where "i1 = skip_ows it"
    define i2 where "i2 = skip_token (tl i1)"
    define i3 where "i3 = skip_ows i2"
    define i4 where "i4 = skip_ows (tl i3)"
    note defs = i1_def i2_def i3_def i4_def
    have "parse_ext True ec it r = (None, r')"
      using less.prems(2) True by simp
    note run = this [unfolded parse_ext_semi_exact [OF defs refl]]
    have i1: "i1 \<noteq> []"
      using run by auto
    note len = ext_lengths [OF defs i1]
    have short: "length i1 < 2 ^ 64" "length i4 < 2 ^ 64" "length (upto_iter x y) \<le> length x" for x y
      using less.prems(1) len(3) length_skip_ows [of it] by (simp_all add: i1_def upto_iter_def)
    have more: "\<exists>xs. r' = r @ range_of xs \<and> ext_sizes xs"
      if a: "parse_ext s ec t (r @ emit_string n @ emit_string v) = (None, r')" "length t < length it" "length n < 2 ^ 64" "length v < 2 ^ 64"
      for s t n v
    proof -
      obtain xs where "r' = (r @ emit_string n @ emit_string v) @ range_of xs" "ext_sizes xs"
        using less.hyps [OF a(2) _ a(1)] a(2) less.prems(1) by auto
      then show ?thesis
        using a(3,4) by (intro exI [of _ "(n, v) # xs"]) (simp add: ext_sizes_def)
    qed
    have one: "\<exists>xs. r' = r @ range_of xs \<and> ext_sizes xs"
      if "r' = r @ emit_string n @ emit_string v" "length n < 2 ^ 64" "length v < 2 ^ 64" for n v
      using that by (intro exI [of _ "[(n, v)]"]) (simp add: ext_sizes_def)
    let ?n = "upto_iter i1 i2"
    have n: "length ?n < 2 ^ 64" "length (upto_iter i4 (skip_token (tl i4))) < 2 ^ 64"
      using short(1,2) short(3) [of i1 i2] short(3) [of i4 "skip_token (tl i4)"] by linarith+
    consider (end1) "i2 = []" | (semi) "i2 \<noteq> []" "i3 \<noteq> []" "hd i3 = CHR '';''"
      | (token) "i2 \<noteq> []" "i3 \<noteq> []" "hd i3 = CHR ''=''" "i4 \<noteq> []" "hd i4 \<noteq> CHR 0x22"
      | (quoted) m where "i2 \<noteq> []" "i3 \<noteq> []" "hd i3 = CHR ''=''" "i4 \<noteq> []" "hd i4 = CHR 0x22" "quoted_count (tl i4) 0 = Some m"
      using run by (auto split: if_split_asm option.split_asm)
    then show ?thesis
    proof cases
      case end1
      then have "r' = r @ emit_string i1 @ emit_string []"
        using run by (auto simp: emit_empty split: if_split_asm)
      then show ?thesis
        using one [of i1 "[]"] short(1) by simp
    next
      case semi
      then show ?thesis
        using run more [of True "tl i3" ?n "[]"] n(1) len(1) by (simp add: emit_empty split: if_split_asm)
    next
      case token
      let ?v = "upto_iter i4 (skip_token (tl i4))"
      show ?thesis
      proof (cases "skip_token (tl i4) = []")
        case True
        then have "r' = r @ emit_string ?n @ emit_string ?v"
          using run token by (auto split: if_split_asm)
        then show ?thesis
          using one n by blast
      next
        case False
        then have "parse_ext False ec (skip_token (tl i4)) (r @ emit_string ?n @ emit_string ?v) = (None, r')"
          using run token by (simp split: if_split_asm)
        then show ?thesis
          using more len(2) n by blast
      qed
    next
      case quoted
      have "length (snd (quoted_copy (tl i4))) < length it" "m < 2 ^ 64" "m = length (fst (quoted_copy (tl i4)))"
        using quoted_copy_length [of "tl i4"] quoted_count_copy [OF quoted(6)] len(3) less.prems(1) by linarith+
      then show ?thesis
        using run more [of False "snd (quoted_copy (tl i4))" ?n "fst (quoted_copy (tl i4))"] n quoted
          quoted_range_emit [OF quoted(6)] by (simp add: case_prod_beta split: if_split_asm)
    qed
  qed
qed

section \<open>Properties\<close>

lemma range_of_append: "range_of (xs @ [(n, v)]) = range_of xs @ emit_string n @ emit_string v"
  by (simp add: range_of_def)

lemma text_for_append: "text_for (xs @ [(n, v)]) = text_for xs @ do_insert n v"
  by (simp add: text_for_def)

lemma inserted:
  "fold (\<lambda>(n, v). insert_ext n v) xs e = \<lparr>ext_text = ext_text e @ text_for xs, ext_range = ext_range e @ range_of xs\<rparr>"
proof (induction xs arbitrary: e)
  case (Cons x xs)
  then show ?case
    by (cases x) (simp add: insert_ext_def)
qed simp

lemma parse_extensions_text:
  assumes "ext_names xs" "ext_sizes xs"
  shows "parse_extensions (text_for xs) None e = Some (None, \<lparr>ext_text = text_for xs, ext_range = range_of xs\<rparr>)"
  using do_parse_text [OF assms(1), of "[]"] ext_pairs_range [OF assms(2)]
  by (simp add: parse_extensions_def do_parse_def text_for_def)

text \<open>Both representations hold the same list.\<close>

definition in_step :: "extensions \<Rightarrow> bool" where
  "in_step e \<longleftrightarrow> (\<exists>xs. ext_sizes xs \<and> ext_text e = text_for xs \<and> ext_range e = range_of xs)"

lemma in_step_insert: "in_step e \<Longrightarrow> length n < 2 ^ 64 \<Longrightarrow> length v < 2 ^ 64 \<Longrightarrow> in_step (insert_ext n v e)"
proof -
  assume e: "in_step e" "length n < 2 ^ 64" "length v < 2 ^ 64"
  then obtain xs where "ext_sizes xs" "ext_text e = text_for xs" "ext_range e = range_of xs"
    unfolding in_step_def by blast
  then have "ext_sizes (xs @ [(n, v)]) \<and> ext_text (insert_ext n v e) = text_for (xs @ [(n, v)]) \<and>
      ext_range (insert_ext n v e) = range_of (xs @ [(n, v)])"
    using e(2,3) by (auto simp: ext_sizes_def insert_ext_def text_for_append range_of_append)
  then show ?thesis
    unfolding in_step_def by blast
qed

lemma parse_in_step:
  assumes "length s < 2 ^ 64"
  shows "\<exists>ec e'. parse_extensions s ec0 e = Some (ec, e') \<and> (ec = None \<longrightarrow> in_step e')"
proof (cases "fst (do_parse ec0 s)")
  case None
  then obtain r where r: "do_parse ec0 s = (None, r)"
    by (cases "do_parse ec0 s") simp
  then obtain xs where xs: "r = range_of xs" "ext_sizes xs"
    using parse_ext_range [OF assms, of False ec0 "[]" r] by (auto simp: do_parse_def)
  then have "parse_extensions s ec0 e = Some (None, \<lparr>ext_text = text_for xs, ext_range = range_of xs\<rparr>)"
    using ext_pairs_range [OF xs(2)] by (simp add: parse_extensions_def r text_for_def)
  then show ?thesis
    using xs(2) by (auto simp: in_step_def)
next
  case (Some x)
  then show ?thesis
    by (cases "do_parse ec0 s") (simp add: parse_extensions_def)
qed

text \<open>
  C16: extensions that were inserted are read back, in order, both when the set is iterated
  and when its text is parsed, whatever the values are: a value that is no token is quoted, and
  quotes and backslashes in it are escaped.  Parsing gives the very set that was written.
\<close>

theorem extensions_roundtrip:
  assumes "ext_names xs" "ext_sizes xs"
  shows "let e = fold (\<lambda>(n, v). insert_ext n v) xs no_extensions in
    ext_pairs (ext_range e) = Some xs \<and> parse_extensions (ext_text e) None e' = Some (None, e)"
  using ext_pairs_range [OF assms(2)] parse_extensions_text [OF assms, of e']
  by (simp add: inserted no_extensions_def Let_def)

theorem extensions_roundtrip_witness:
  "ext_pairs (ext_range (fold (\<lambda>(n, v). insert_ext n v) [(''a'', []), (''b'', ''x'' @ [CHR 0x22])] no_extensions)) =
     Some [(''a'', []), (''b'', ''x'' @ [CHR 0x22])]"
proof -
  have "ext_names [(''a'', []), (''b'', ''x'' @ [CHR 0x22])]"
    by (simp add: ext_names_def token_char_iff tchar_code_def alpha_code_def uchar_def)
  moreover have "ext_sizes [(''a'', []), (''b'', ''x'' @ [CHR 0x22])]"
    by (simp add: ext_sizes_def)
  ultimately show ?thesis
    using extensions_roundtrip unfolding Let_def by blast
qed

text \<open>
  C23: the reader of chunk extensions and the parser of messages, which are written
  separately, accept the same extensions: a text without a carriage return parses without an error
  exactly when the parser of messages, on the text and the end of the line, stops at the end of the
  line.
\<close>

theorem extensions_agree:
  assumes "CR \<notin> set s"
  shows "fst (do_parse None s) = None \<longleftrightarrow> parse_chunk_extensions (s @ CR # r) = Inr (CR # r)"
  using parse_ext_agrees [OF assms] by (simp add: do_parse_def parse_chunk_extensions_def)

theorem extensions_agree_witness:
  "parse_chunk_extensions ('';a=b'' @ CR # [LF]) = Inr (CR # [LF])"
proof -
  have "fst (do_parse None (text_for [(''a'', ''b'')])) = None"
    unfolding do_parse_def
    by (subst do_parse_text) (simp_all add: ext_names_def token_char_iff tchar_code_def alpha_code_def uchar_def)
  moreover have "text_for [(''a'', ''b'')] = '';a=b''"
    by (simp add: do_insert_def token_char_iff tchar_code_def alpha_code_def uchar_def)
  ultimately show ?thesis
    using extensions_agree [of "'';a=b''" "[LF]"] by simp
qed

text \<open>
  C22: the text and the range of a set of extensions hold the same list, from the empty set
  on, after every insertion and after every successful parse; then the iteration gives that list and
  never reads past the range, also while \<open>parse\<close> rebuilds the text.
\<close>

theorem extensions_in_step:
  assumes "in_step e" "length n < 2 ^ 64" "length v < 2 ^ 64" "length s < 2 ^ 64"
  shows "in_step no_extensions \<and> in_step (insert_ext n v e) \<and> in_step (insert_name n e) \<and>
    (\<exists>ec e'. parse_extensions s ec0 x = Some (ec, e') \<and> (ec = None \<longrightarrow> in_step e')) \<and>
    (\<exists>xs. ext_pairs (ext_range e) = Some xs \<and> ext_text e = text_for xs)"
proof (intro conjI)
  show "in_step no_extensions"
    unfolding in_step_def by (intro exI [of _ "[]"]) (simp add: no_extensions_def ext_sizes_def)
  have "insert_name n e = insert_ext n [] e"
    by (simp add: insert_name_def insert_ext_def emit_empty)
  then show "in_step (insert_name n e)"
    using in_step_insert [OF assms(1,2), of "[]"] by simp
  show "\<exists>xs. ext_pairs (ext_range e) = Some xs \<and> ext_text e = text_for xs"
    using assms(1) ext_pairs_range unfolding in_step_def by metis
qed (use in_step_insert parse_in_step assms in auto)

theorem extensions_in_step_witness:
  "in_step (insert_ext ''a'' ''b'' no_extensions)"
proof -
  have "in_step no_extensions"
    unfolding in_step_def by (intro exI [of _ "[]"]) (simp add: no_extensions_def ext_sizes_def)
  then show ?thesis
    using extensions_in_step [of no_extensions "''a''" "''b''" "[]"] by simp
qed

text \<open>
  C37: three ways out of step.  \<open>clear\<close> empties the text only: what was inserted before is
  still iterated, before what is inserted later.  A parse that fails may leave a name without a
  value, and the iteration then reads past the range.  A parse that ends in a name does not
  reset the error code it was called with, so that an old error makes it fail.
\<close>

theorem extensions_out_of_step:
  assumes "ext_names xs" "ext_sizes xs" "ext_sizes ys" "n \<noteq> []" "list_all is_token_char n" "length n < 2 ^ 64"
  shows "(let e = fold (\<lambda>(n, v). insert_ext n v) ys (clear_ext (fold (\<lambda>(n, v). insert_ext n v) xs no_extensions)) in
      ext_text e = text_for ys \<and> ext_pairs (ext_range e) = Some (xs @ ys)) \<and>
    (\<exists>e'. parse_extensions (CHR '';'' # n @ ''='') None e = Some (Some Bad_chunk_extension, e') \<and> ext_pairs (ext_range e') = None) \<and>
    (\<exists>e'. parse_extensions (CHR '';'' # n) (Some x) e = Some (Some x, e')) \<and>
    (\<exists>e'. parse_extensions (CHR '';'' # n) None e = Some (None, e'))"
proof (intro conjI)
  have "ext_sizes (xs @ ys)" "range_of (xs @ ys) = range_of xs @ range_of ys"
    using assms(2,3) by (auto simp: ext_sizes_def range_of_def)
  then have "ext_pairs (range_of xs @ range_of ys) = Some (xs @ ys)"
    using ext_pairs_range [of "xs @ ys"] by simp
  then show "let e = fold (\<lambda>(n, v). insert_ext n v) ys (clear_ext (fold (\<lambda>(n, v). insert_ext n v) xs no_extensions)) in
      ext_text e = text_for ys \<and> ext_pairs (ext_range e) = Some (xs @ ys)"
    by (simp add: inserted no_extensions_def clear_ext_def Let_def)
  have "parse_ext True None (n @ ''='') [] = (Some Bad_chunk_extension, emit_string n)"
    using name_step [OF assms(4,5), of "''=''"] not_token by (simp add: Let_def)
  then have "parse_extensions (CHR '';'' # n @ ''='') None e = Some (Some Bad_chunk_extension, e\<lparr>ext_range := emit_string n\<rparr>)"
    by (simp add: parse_extensions_def do_parse_def semi_step)
  moreover have "ext_pairs (emit_string n) = None"
    using take_emit [OF assms(6), of "[]"] by (subst ext_pairs.simps)
      (simp add: ext_deref_def emit_string_def take_string_def varint_read_def)
  ultimately show "\<exists>e'. parse_extensions (CHR '';'' # n @ ''='') None e = Some (Some Bad_chunk_extension, e') \<and>
      ext_pairs (ext_range e') = None"
    by simp
  have run: "do_parse ec (CHR '';'' # n) = (ec, emit_string n @ emit_string [])" for ec
    using name_end [OF assms(4,5)] by (simp add: do_parse_def semi_step emit_empty)
  then show "\<exists>e'. parse_extensions (CHR '';'' # n) (Some x) e = Some (Some x, e')"
    by (simp add: parse_extensions_def)
  show "\<exists>e'. parse_extensions (CHR '';'' # n) None e = Some (None, e')"
    using ext_pairs_range [of "[(n, [])]"] assms(6) by (simp add: parse_extensions_def run ext_sizes_def)
qed

theorem extensions_out_of_step_witness:
  "ext_pairs (ext_range (insert_ext ''b'' [] (clear_ext (insert_ext ''a'' [] no_extensions)))) = Some [(''a'', []), (''b'', [])]"
proof -
  have "ext_names [(''a'', [])]" "list_all is_token_char ''a''"
    by (simp_all add: ext_names_def token_char_iff tchar_code_def alpha_code_def uchar_def)
  moreover have "ext_sizes [(''a'', [])]" "ext_sizes [(''b'', [])]"
    by (simp_all add: ext_sizes_def)
  ultimately show ?thesis
    using extensions_out_of_step [of "[(''a'', [])]" "[(''b'', [])]" "''a''"] by (simp add: Let_def)
qed

end
