(* ===== verification/Chunk_Encode.thy ===== *)
theory Chunk_Encode
  imports Chunk_Extensions Http_Resume
begin

text \<open>
  The encoder of chunked bodies (\<open>http/detail/chunk_encode.hpp\<close>,
  \<open>http/chunk_encode.hpp\<close>, \<open>http/impl/chunk_encode.ipp\<close>), whose buffer
  sequences are taken as the text they hold, and what the parser makes of it.
\<close>

section \<open>The encoder\<close>

text \<open>\<open>to_hex\<close> writes backwards from the end of a buffer of 17 characters.\<close>

function to_hex_loop :: "u64 \<Rightarrow> string \<Rightarrow> string" where
  "to_hex_loop n out =
     (if n = 0 then out else to_hex_loop (drop_bit 4 n) (''0123456789abcdef'' ! unat (n AND 0xf) # out))"
  by pat_completeness auto
termination
proof (relation "measure (\<lambda>(n, _). unat n)")
  fix n :: u64 and out :: string
  assume "n \<noteq> 0"
  then show "((drop_bit 4 n, ''0123456789abcdef'' ! unat (n AND 0xf) # out), n, out) \<in> measure (\<lambda>(n, _). unat n)"
    by (simp add: drop_bit_eq_div unat_div unat_gt_0)
qed simp

declare to_hex_loop.simps [simp del]

definition to_hex :: "u64 \<Rightarrow> string" where
  "to_hex n = (if n = 0 then ''0'' else to_hex_loop n [])"

definition chunk_crlf :: string where
  "chunk_crlf = [CR, LF]"

text \<open>\<open>chunk_header\<close>; its size is asserted to be positive.\<close>

definition chunk_header :: "u64 \<Rightarrow> string \<Rightarrow> string option" where
  "chunk_header n ext = (if n > 0 then Some (to_hex n @ ext @ chunk_crlf) else None)"

definition chunk_body :: "string \<Rightarrow> string \<Rightarrow> string" where
  "chunk_body buffers ext = to_hex (of_nat (length buffers)) @ ext @ chunk_crlf @ buffers @ chunk_crlf"

definition chunk_last :: "string \<Rightarrow> string" where
  "chunk_last trailer = CHR ''0'' # chunk_crlf @ trailer"

section \<open>Sizes\<close>

lemma low_digit: "unat ((n :: u64) AND 0xf) = unat n mod 16"
proof -
  have "n AND 0xf = take_bit 4 n"
    by (simp add: take_bit_eq_mask mask_eq_exp_minus_1)
  then show ?thesis
    by (simp add: take_bit_eq_mod unat_mod)
qed

lemma hex_chars: "map unhex ''0123456789abcdef'' = map int [0..<16]"
  by (simp add: unhex_eq hex_code_def digit_code_def uchar_def upt_rec)

lemma hex_char: "k < 16 \<Longrightarrow> unhex (''0123456789abcdef'' ! k) = int k"
  using arg_cong [OF hex_chars, of "\<lambda>xs. xs ! k"] by (simp del: list.map nth_Cons_numeral)

lemma foldl_hex:
  "foldl (\<lambda>v c. 16 * v + nat (unhex c)) v s = v * 16 ^ length s + hex_value s"
proof (induction s arbitrary: v)
  case (Cons c s)
  show ?case
    using Cons [of "16 * v + nat (unhex c)"] Cons [of "nat (unhex c)"] by (simp add: hex_value_def algebra_simps)
qed (simp add: hex_value_def)

lemma hex_value_snoc: "hex_value (s @ [c]) = 16 * hex_value s + nat (unhex c)"
  by (simp add: hex_value_def)

lemma to_hex_loop_value:
  "unat n < 16 ^ k \<Longrightarrow> \<exists>s. (\<forall>acc. to_hex_loop n acc = s @ acc) \<and> length s \<le> k \<and> list_all (\<lambda>c. unhex c \<noteq> -1) s \<and>
     hex_value s = unat n \<and> (n \<noteq> 0 \<longrightarrow> s \<noteq> [])"
proof (induction k arbitrary: n)
  case 0
  then have "n = 0"
    by (simp add: unat_eq_0)
  then show ?case
    by (intro exI [of _ "[]"]) (simp add: to_hex_loop.simps hex_value_def)
next
  case (Suc k)
  show ?case
  proof (cases "n = 0")
    case True
    then show ?thesis
      by (intro exI [of _ "[]"]) (simp add: to_hex_loop.simps hex_value_def)
  next
    case False
    have div: "unat (drop_bit 4 n) = unat n div 16"
      by (simp add: drop_bit_eq_div unat_div)
    then have "unat (drop_bit 4 n) < 16 ^ k"
      using Suc.prems by (simp add: less_mult_imp_div_less mult.commute)
    then obtain s where s: "\<And>acc. to_hex_loop (drop_bit 4 n) acc = s @ acc" "length s \<le> k"
        "list_all (\<lambda>c. unhex c \<noteq> -1) s" "hex_value s = unat (drop_bit 4 n)"
      using Suc.IH by blast
    let ?c = "''0123456789abcdef'' ! unat (n AND 0xf)"
    have c: "unhex ?c = int (unat n mod 16)"
      using hex_char [of "unat (n AND 0xf)"] by (simp add: low_digit)
    then have "unhex ?c \<noteq> -1" "hex_value (s @ [?c]) = unat n"
      using s(4) div by (simp_all add: hex_value_snoc c)
    moreover have "to_hex_loop n acc = (s @ [?c]) @ acc" for acc
      using False s(1) by (subst to_hex_loop.simps) simp
    ultimately show ?thesis
      using s(2,3) by (intro exI [of _ "s @ [?c]"]) (simp del: append_assoc)
  qed
qed

lemma to_hex_value:
  "to_hex n \<noteq> [] \<and> length (to_hex n) \<le> 16 \<and> list_all (\<lambda>c. unhex c \<noteq> -1) (to_hex n) \<and> hex_value (to_hex n) = unat n"
proof (cases "n = 0")
  case True
  then show ?thesis
    by (simp add: to_hex_def unhex_eq hex_code_def digit_code_def uchar_def hex_value_def)
next
  case False
  have "unat n < 16 ^ 16"
    using unsigned_less [of n, where ?'a = nat] by simp
  then show ?thesis
    using to_hex_loop_value [of n 16] False by (auto simp: to_hex_def)
qed

lemma parse_to_hex:
  "r \<noteq> [] \<Longrightarrow> hex_digit (hd r) = None \<Longrightarrow> parse_hex (to_hex n @ r) = Some (Some (n, r))"
  using parse_hex_eq [of "to_hex n" r] to_hex_value [of n] by simp

section \<open>A chunk\<close>

definition ext_ok :: "string \<Rightarrow> bool" where
  "ext_ok ext \<longleftrightarrow> CR \<notin> set ext \<and> fst (do_parse None ext) = None"

lemma find_eol_text: "CR \<notin> set s \<Longrightarrow> find_eol (s @ CR # LF # r) = Inr (Some r)"
  by (induction s) auto

lemma hex_no_cr: "list_all (\<lambda>c. unhex c \<noteq> -1) s \<Longrightarrow> CR \<notin> set s"
  by (auto simp: list_all_iff unhex_eq hex_code_def digit_code_def uchar_def)

lemma ext_start:
  assumes "ext_ok ext"
  shows "hex_digit (hd (ext @ CR # r)) = None"
proof (cases ext)
  case Nil
  then show ?thesis
    by (simp add: hex_digit_ones)
next
  case (Cons c s)
  have "is_ows c \<or> c = CHR '';''"
  proof (rule ccontr)
    assume "\<not> (is_ows c \<or> c = CHR '';'')"
    then have "fst (do_parse None ext) = Some Bad_chunk_extension"
      unfolding do_parse_def by (subst parse_ext.simps(1)) (simp add: Cons Let_def)
    then show False
      using assms by (simp add: ext_ok_def)
  qed
  then show ?thesis
    by (auto simp: Cons hex_digit_eq unhex_eq hex_code_def digit_code_def uchar_def hex_stray_def)
qed

lemma chunk_extension_ok: "ext_ok ext \<Longrightarrow> chunk_extension (ext @ CR # LF # eol) eol = Inr ext"
  using parse_ext_agrees [of ext False "[]" "LF # eol"]
  by (simp add: chunk_extension_def ext_ok_def do_parse_def parse_chunk_extensions_def upto_iter_append)

text \<open>The end of the chunk before, which \<open>ExpectCRLF\<close> calls for.\<close>

definition old_end :: "'d parser \<Rightarrow> string" where
  "old_end st = (if ExpectCRLF \<in> flags st then [CR, LF] else [])"

lemma old_end_crlf: "(if ExpectCRLF \<in> flags st then parse_crlf (old_end st @ s) else Some (old_end st @ s)) = Some s"
  by (simp add: old_end_def parse_crlf_def)

lemma chunk_header_step:
  assumes st: "FinalChunk \<notin> flags st" "skip st = length (old_end st)"
    and n: "n \<noteq> 0" "n \<le> body_limit st" and ext: "ext_ok ext"
  shows "parse_chunk_header recorder st (old_end st @ to_hex n @ ext @ CR # LF # r) =
    (None, (set_flag ExpectCRLF st)\<lparr>body_limit := body_limit st - n, derived := derived st @ [Ev_chunk_header n ext],
       len := n, skip := 2, state := Chunk_body\<rparr>, r)"
proof -
  let ?p = "to_hex n @ ext @ CR # LF # r"
  have "CR \<notin> set (to_hex n @ ext)"
    using hex_no_cr to_hex_value [of n] ext by (auto simp: ext_ok_def)
  then have eol: "find_eol (drop (skip st) (old_end st @ ?p)) = Inr (Some r)"
    using find_eol_text [of "to_hex n @ ext" r] by (simp add: st(2))
  have hex: "parse_hex ?p = Some (Some (n, ext @ CR # LF # r))"
    using parse_to_hex ext_start [OF ext] by simp
  have enough: "\<not> length (old_end st @ ?p) < skip st + 2"
    using st(2) by simp
  show ?thesis
    unfolding parse_chunk_header_def Let_def old_end_crlf option.case sum.case eol hex option.sel prod.case
    using st(1) enough n chunk_extension_ok [OF ext]
    by (simp add: recorder_def Let_def)
qed

lemma unat_length: "length s < 2 ^ 64 \<Longrightarrow> unat (of_nat (length s) :: u64) = length s"
  by (simp add: unat_of_nat)

lemma chunk_body_step:
  assumes "len st = of_nat (length d)" "length (d @ r) < 2 ^ 64"
  shows "parse_chunk_body recorder st (d @ r) =
    (None, st\<lparr>derived := derived st @ [Ev_chunk_body d], len := 0, state := Chunk_header\<rparr>, r)"
proof -
  have "length d < 2 ^ 64"
    using assms(2) by simp
  then have "unat (clamp (len st) (of_nat (length (d @ r)))) = length d"
    by (simp only: clamp_min assms(1) unat_length unat_length [OF assms(2)]) simp
  then show ?thesis
    using assms(1) unfolding parse_chunk_body_def by (simp add: recorder_def)
qed

section \<open>The last chunk\<close>

abbreviation eom :: string where
  "eom \<equiv> [CR, LF, CR, LF]"

lemma eom_skip: "CR \<notin> set x \<Longrightarrow> after_first eom (x @ y) = after_first eom y"
  by (induction x) auto

lemma eom_crlf: "c \<noteq> CR \<Longrightarrow> after_first eom (CR # LF # c # y) = after_first eom (c # y)"
  by simp

lemma control_cr: "is_control_char CR"
  by (simp add: is_control_char_def is_print_iff uchar_def)

lemma not_member: "list_all P s \<Longrightarrow> \<not> P c \<Longrightarrow> c \<notin> set s"
  by (auto simp: list_all_iff)

lemma eom_part: "part_ok p \<Longrightarrow> after_first eom (part_text p @ y) = after_first eom (CR # LF # y)"
proof -
  assume ok: "part_ok p"
  obtain pre v post where p: "p = (pre, v, post)"
    by (cases p)
  have "list_all is_ows pre" "list_all is_ows post" "list_all (\<lambda>c. \<not> is_control_char c) v"
    using ok by (simp_all add: part_ok_def p)
  then have "CR \<notin> set pre" "CR \<notin> set post" "CR \<notin> set v"
    using not_member [of is_ows pre CR] not_member [of is_ows post CR] not_member [of "\<lambda>c. \<not> is_control_char c" v CR] control_cr
    by simp_all
  then have "CR \<notin> set (pre @ v @ post)"
    by simp
  then show ?thesis
    using eom_skip [of "pre @ v @ post" "CR # LF # y"] by (simp add: part_text_def p del: after_first.simps)
qed

lemma eom_value:
  "list_all part_ok ps \<Longrightarrow> list_all (\<lambda>(pre, _, _). pre \<noteq> []) (tl ps) \<Longrightarrow> ps \<noteq> [] \<Longrightarrow>
   after_first eom (value_text ps @ y) = after_first eom (CR # LF # y)"
proof (induction ps)
  case (Cons p ps)
  have first: "after_first eom (value_text (p # ps) @ y) = after_first eom (CR # LF # value_text ps @ y)"
    using eom_part [of p "value_text ps @ y"] Cons.prems(1) by (simp add: value_text_def del: after_first.simps)
  show ?case
  proof (cases ps)
    case Nil
    then show ?thesis
      using first by (simp add: value_text_def del: after_first.simps)
  next
    case (Cons q qs)
    obtain c pre v post where q: "q = (c # pre, v, post)" "is_ows c"
      using Cons.prems(1,2) Cons by (cases q; cases "fst q") (auto simp: part_ok_def)
    then have "c \<noteq> CR"
      by auto
    then have "after_first eom (CR # LF # value_text ps @ y) = after_first eom (value_text ps @ y)"
      using eom_crlf [of c] by (simp add: Cons q value_text_def part_text_def del: after_first.simps)
    then show ?thesis
      using first Cons.IH Cons.prems Cons by (simp add: list.pred_set del: after_first.simps)
  qed
qed simp

lemma eom_fields: "list_all field_wf fs \<Longrightarrow> after_first eom (CR # LF # fields_text fs @ r) = Some r"
proof (induction fs)
  case Nil
  show ?case
    by (simp add: fields_text_def)
next
  case (Cons f fs)
  obtain c n ps where f: "f = (c # n, ps)" "list_all is_token_char (c # n)" "folded ps" "ps \<noteq> []"
    using Cons.prems by (cases f; cases "fst f") (auto simp: field_wf_def)
  then have cr: "CR \<notin> set (c # n @ '':'')" "c \<noteq> CR"
    by (auto simp: list_all_iff)
  let ?y = "fields_text fs @ r"
  have "after_first eom (CR # LF # fields_text (f # fs) @ r) = after_first eom (CR # LF # c # n @ CHR '':'' # value_text ps @ ?y)"
    by (simp add: fields_text_def field_text_def f(1) del: after_first.simps)
  also have "\<dots> = after_first eom ((c # n @ '':'') @ value_text ps @ ?y)"
    using eom_crlf [OF cr(2)] by (simp del: after_first.simps)
  also have "\<dots> = after_first eom (CR # LF # ?y)"
    using f(3,4) eom_skip [OF cr(1)] eom_value [of ps] by (simp add: folded_def del: after_first.simps)
  finally show ?case
    using Cons by simp
qed

lemma last_chunk_step:
  assumes st: "FinalChunk \<notin> flags st" "skip st = length (old_end st)"
    and fs: "list_all field_wf fs" "fields_ok (flags st) (content fs)"
  obtains st' where "parse_chunk_header recorder st (old_end st @ chunk_last (fields_text fs) @ r) = (None, st', r)"
    "state st' = Complete" "derived st' = derived st @ Ev_chunk_header 0 [] # map field_event (content fs) @ [Ev_finish]"
proof -
  let ?e = "fields_text fs @ r"
  let ?p0 = "old_end st @ CHR ''0'' # CR # LF # ?e"
  let ?st = "set_flag FinalChunk (st\<lparr>skip := length (old_end st) + 1\<rparr>)"
  have "parse_hex (CHR ''0'' # CR # LF # ?e) = Some (Some (0, CR # LF # ?e))"
    using parse_to_hex [of "CR # LF # ?e" 0] by (simp add: to_hex_def hex_digit_ones)
  moreover have "find_eol (drop (skip st) ?p0) = Inr (Some ?e)"
    using find_eol_text [of "''0''" ?e] by (simp add: st(2))
  moreover have "\<not> length ?p0 < skip st + 2"
    using st(2) by simp
  ultimately have one: "parse_chunk_header recorder st ?p0 = parse_last_chunk recorder ?st ?p0 (CR # LF # ?e) ?e"
    unfolding parse_chunk_header_def Let_def old_end_crlf option.case by (simp add: st(1))
  have "find_eom (drop (skip ?st) ?p0) = Some r"
    using eom_fields [OF fs(1)] by (simp add: find_eom_eq del: after_first.simps)
  moreover have "chunk_extension (CR # LF # ?e) ?e = Inr []"
    using chunk_extension_ok [of "[]" ?e] by (simp add: ext_ok_def do_parse_def parse_ext.simps(1))
  moreover have "take (length ?e - length r) ?e = fields_text fs"
    by simp
  moreover have "fields_ok (flags ?st) (content fs)"
    using fs(2) fields_ok_cong [of "flags ?st" "flags st"] by simp
  then have "parse_fields recorder (?st\<lparr>derived := derived st @ [Ev_chunk_header 0 []]\<rparr>) (fields_text fs) =
      (None, ?st\<lparr>flags := flags ?st \<union> fields_flags (content fs), len := fields_len (content fs) (len st),
         derived := (derived st @ [Ev_chunk_header 0 []]) @ map field_event (content fs)\<rparr>, [])"
    using parse_fields_run [OF fs(1), of "?st\<lparr>derived := derived st @ [Ev_chunk_header 0 []]\<rparr>" "[]"] by simp
  ultimately have "\<exists>st'. parse_last_chunk recorder ?st ?p0 (CR # LF # ?e) ?e = (None, st', r) \<and>
      state st' = Complete \<and> derived st' = derived st @ Ev_chunk_header 0 [] # map field_event (content fs) @ [Ev_finish]"
    unfolding parse_last_chunk_def by (simp add: recorder_def finish_message_def Let_def)
  then show thesis
    using that one by (auto simp: chunk_last_def chunk_crlf_def)
qed

section \<open>A chunked body\<close>

type_synonym chunk = "string \<times> string"

definition chunk_ok :: "chunk \<Rightarrow> bool" where
  "chunk_ok = (\<lambda>(d, x). d \<noteq> [] \<and> ext_ok x)"

definition chunks_text :: "chunk list \<Rightarrow> string" where
  "chunks_text cs = concat (map (\<lambda>(d, x). chunk_body d x) cs)"

definition chunk_events :: "chunk \<Rightarrow> event list" where
  "chunk_events = (\<lambda>(d, x). [Ev_chunk_header (of_nat (length d)) x, Ev_chunk_body d])"

definition chunks_size :: "chunk list \<Rightarrow> nat" where
  "chunks_size cs = sum_list (map (length \<circ> fst) cs)"

lemma loop_goes_on:
  "put_step q I None st p = (True, None, st', p') \<Longrightarrow> p' \<noteq> [] \<Longrightarrow> state st' \<noteq> Complete \<Longrightarrow> eager st' \<Longrightarrow>
   put_loop q I None st p = put_loop q I None st' p'"
  by (subst put_loop.simps) (simp add: is_done_def)

lemma loop_completes:
  "put_step q I None st p = (True, None, st', p') \<Longrightarrow> state st' = Complete \<Longrightarrow> put_loop q I None st p = Some (None, st', p')"
  by (subst put_loop.simps) (simp add: is_done_def)

lemma chunk_loop:
  assumes st: "state st = Chunk_header" "eager st" "FinalChunk \<notin> flags st" "skip st = length (old_end st)"
    and c: "d \<noteq> []" "ext_ok x" "of_nat (length d) \<le> body_limit st" "length (chunk_body d x @ r) < 2 ^ 64"
  shows "put_loop q recorder None st (old_end st @ chunk_body d x @ r) =
    put_loop q recorder None (st\<lparr>flags := insert ExpectCRLF (flags st), body_limit := body_limit st - of_nat (length d),
      skip := 2, derived := derived st @ chunk_events (d, x), len := 0, state := Chunk_header\<rparr>) (CR # LF # r)"
proof -
  let ?n = "of_nat (length d) :: u64"
  let ?st1 = "(set_flag ExpectCRLF st)\<lparr>body_limit := body_limit st - ?n, derived := derived st @ [Ev_chunk_header ?n x],
       len := ?n, skip := 2, state := Chunk_body\<rparr>"
  let ?st2 = "?st1\<lparr>derived := derived ?st1 @ [Ev_chunk_body d], len := 0, state := Chunk_header\<rparr>"
  have size: "length (d @ CR # LF # r) < 2 ^ 64"
    using c(4) by (simp add: chunk_body_def chunk_crlf_def)
  then have "unat ?n = length d"
    using unat_length [of d] by simp
  then have "?n \<noteq> 0"
    using c(1) by (metis length_0_conv unat_0)
  then have "parse_chunk_header recorder st (old_end st @ chunk_body d x @ r) = (None, ?st1, d @ CR # LF # r)"
    using chunk_header_step [OF st(3,4) _ c(3,2), of "d @ CR # LF # r"] by (simp add: chunk_body_def chunk_crlf_def)
  then have "put_step q recorder None st (old_end st @ chunk_body d x @ r) = (True, None, ?st1, d @ CR # LF # r)"
    by (simp add: put_step.simps st(1) broke_def)
  then have "put_loop q recorder None st (old_end st @ chunk_body d x @ r) = put_loop q recorder None ?st1 (d @ CR # LF # r)"
    by (rule loop_goes_on) (use st(2) in \<open>simp_all add: eager_def\<close>)
  also have "put_step q recorder None ?st1 (d @ CR # LF # r) = (True, None, ?st2, CR # LF # r)"
    using chunk_body_step [of ?st1 d, OF _ size] by (simp add: put_step.simps broke_def)
  then have "put_loop q recorder None ?st1 (d @ CR # LF # r) = put_loop q recorder None ?st2 (CR # LF # r)"
    by (rule loop_goes_on) (use st(2) in \<open>simp_all add: eager_def\<close>)
  finally show ?thesis
    by (simp add: chunk_events_def)
qed

lemma chunks_loop:
  assumes ts: "list_all field_wf ts"
  shows "state st = Chunk_header \<Longrightarrow> eager st \<Longrightarrow> FinalChunk \<notin> flags st \<Longrightarrow> skip st = length (old_end st) \<Longrightarrow>
    fields_ok (flags st) (content ts) \<Longrightarrow> list_all chunk_ok cs \<Longrightarrow> chunks_size cs \<le> unat (body_limit st) \<Longrightarrow>
    length (chunks_text cs @ chunk_last (fields_text ts) @ r) < 2 ^ 64 \<Longrightarrow>
    \<exists>st'. put_loop q recorder None st (old_end st @ chunks_text cs @ chunk_last (fields_text ts) @ r) = Some (None, st', r) \<and>
      state st' = Complete \<and> derived st' =
        derived st @ concat (map chunk_events cs) @ Ev_chunk_header 0 [] # map field_event (content ts) @ [Ev_finish]"
proof (induction cs arbitrary: st)
  case Nil
  obtain st' where st': "parse_chunk_header recorder st (old_end st @ chunk_last (fields_text ts) @ r) = (None, st', r)"
      "state st' = Complete" "derived st' = derived st @ Ev_chunk_header 0 [] # map field_event (content ts) @ [Ev_finish]"
    using last_chunk_step [OF Nil(3,4) ts Nil(5)] by blast
  then have "put_step q recorder None st (old_end st @ chunk_last (fields_text ts) @ r) = (True, None, st', r)"
    by (simp add: put_step.simps Nil(1) broke_def)
  then show ?case
    using loop_completes st'(2,3) by (fastforce simp: chunks_text_def)
next
  case (Cons c cs)
  obtain d x where c: "c = (d, x)" "d \<noteq> []" "ext_ok x"
    using Cons.prems(6) by (cases c) (auto simp: chunk_ok_def)
  let ?n = "of_nat (length d) :: u64" and ?r = "chunks_text cs @ chunk_last (fields_text ts) @ r"
  have size: "length (chunk_body d x @ ?r) < 2 ^ 64"
    using Cons.prems(8) by (simp add: chunks_text_def c(1))
  then have "length d < 2 ^ 64"
    by (simp add: chunk_body_def)
  then have n: "unat ?n = length d"
    by (rule unat_length)
  have "length d + chunks_size cs \<le> unat (body_limit st)"
    using Cons.prems(7) by (simp add: chunks_size_def c(1))
  then have limit: "?n \<le> body_limit st" "chunks_size cs \<le> unat (body_limit st - ?n)"
    using n by (simp_all add: word_le_nat_alt unat_sub)
  let ?st = "st\<lparr>flags := insert ExpectCRLF (flags st), body_limit := body_limit st - ?n,
      skip := 2, derived := derived st @ chunk_events (d, x), len := 0, state := Chunk_header\<rparr>"
  have "fields_ok (flags ?st) (content ts)"
    using Cons.prems(5) fields_ok_cong [of "flags ?st" "flags st"] by simp
  moreover have "old_end ?st = [CR, LF]"
    by (simp add: old_end_def)
  ultimately obtain st' where "put_loop q recorder None ?st (CR # LF # ?r) = Some (None, st', r)" "state st' = Complete"
      "derived st' = derived ?st @ concat (map chunk_events cs) @ Ev_chunk_header 0 [] # map field_event (content ts) @ [Ev_finish]"
    using Cons.IH [of ?st] Cons.prems limit(2) by (auto simp: eager_def chunks_text_def)
  then show ?case
    using chunk_loop [OF Cons.prems(1-4) c(2,3) limit(1) size, of q] by (simp add: chunks_text_def c(1))
qed

section \<open>Whole messages\<close>

text \<open>A new parser as \<open>read\<close> uses it, which goes on into the body.\<close>

definition whole :: "bool \<Rightarrow> u64 \<Rightarrow> nat \<Rightarrow> bool \<Rightarrow> event list parser" where
  "whole q b h sk = set_eager True (fresh q b h sk)"

lemma whole_simps [simp]:
  "state (whole q b h sk) = Nothing_yet" "skip (whole q b h sk) = 0" "header_limit (whole q b h sk) = h"
  "body_limit (whole q b h sk) = b" "derived (whole q b h sk) = []" "len (whole q b h sk) = 0"
  "flags (whole q b h sk) = {Eager} \<union> (if sk then {SkipBody} else {})"
  by (simp_all add: whole_def set_eager_def)

text \<open>What the parser is when the fields are read.\<close>

definition read_fields :: "start \<Rightarrow> hfield list \<Rightarrow> u64 \<Rightarrow> nat \<Rightarrow> bool \<Rightarrow> event list parser" where
  "read_fields s fs b h sk = after_fields (content fs) (started s (whole (is_request s) b h sk))"

lemma read_fields_simps:
  "skip (read_fields s fs b h sk) = 0" "body_limit (read_fields s fs b h sk) = b" "state (read_fields s fs b h sk) = Fields"
  "len (read_fields s fs b h sk) = fields_len (content fs) 0"
  "derived (read_fields s fs b h sk) = start_event s # map field_event (content fs)"
  "flags (read_fields s fs b h sk) =
    {Eager} \<union> (if sk then {SkipBody} else {}) \<union> (if version11 s then {HTTP11} else {}) \<union> fields_flags (content fs)"
  "\<not> is_request s \<Longrightarrow> status (read_fields s fs b h sk) = code s"
  by (auto simp: read_fields_def after_fields_def started_def)

lemma read_fields_flags:
  "SkipBody \<in> flags (read_fields s fs b h sk) \<longleftrightarrow> sk" "eager (read_fields s fs b h sk)"
  "ContentLength \<in> flags (read_fields s fs b h sk) \<longleftrightarrow> ContentLength \<in> fields_flags (content fs)"
  "Chunked \<in> flags (read_fields s fs b h sk) \<longleftrightarrow> Chunked \<in> fields_flags (content fs)"
  "FinalChunk \<notin> flags (read_fields s fs b h sk)" "ExpectCRLF \<notin> flags (read_fields s fs b h sk)"
proof -
  have "fields_flags (content fs) \<inter> {SkipBody, FinalChunk, ExpectCRLF} = {}"
    by (auto simp: fields_flags_def field_flags_def list_flags_def split: if_splits)
  then show "SkipBody \<in> flags (read_fields s fs b h sk) \<longleftrightarrow> sk" "eager (read_fields s fs b h sk)"
      "ContentLength \<in> flags (read_fields s fs b h sk) \<longleftrightarrow> ContentLength \<in> fields_flags (content fs)"
      "Chunked \<in> flags (read_fields s fs b h sk) \<longleftrightarrow> Chunked \<in> fields_flags (content fs)"
      "FinalChunk \<notin> flags (read_fields s fs b h sk)" "ExpectCRLF \<notin> flags (read_fields s fs b h sk)"
    by (auto simp: read_fields_simps eager_def)
qed

lemma message_header:
  assumes "start_wf s" "list_all field_wf fs" "fields_ok {} (content fs)" "length (header_text s fs) \<le> h"
    and fin: "finish_header (is_request s) (read_fields s fs b h sk) = (None, st')" "state st' \<noteq> Complete" "eager st'" "r \<noteq> []"
  shows "put_loop (is_request s) recorder None (whole (is_request s) b h sk) (header_text s fs @ r) =
    put_loop (is_request s) recorder None st' r"
proof (rule loop_goes_on [OF _ fin(4,2,3)])
  let ?new = "whole (is_request s) b h sk"
  have "fields_ok (flags ?new) (content fs)"
    using assms(3) fields_ok_cong [of "flags ?new" "{}" "content fs"] by simp
  moreover have same: "?new\<lparr>state := Start_line, skip := 0\<rparr> = ?new\<lparr>state := Start_line\<rparr>"
    by simp
  ultimately show "put_step (is_request s) recorder None ?new (header_text s fs @ r) = (True, None, st', r)"
    using start_line_rest [where n = "status ?new" and k = 0 and pending = "[]" and rest = r and w = "header_text s fs",
        OF assms(1,2) _ _ refl, of ?new None st'] assms(4) fin(1)
    by (simp add: put_step.simps read_fields_def header_text_def fields_text_def same)
qed

lemma framing_chunks:
  assumes "body_framing sk s (content fs) = Chunks"
  shows "finish_header (is_request s) (read_fields s fs b h sk) =
    (None, (set_flag HasBody (read_fields s fs b h sk))\<lparr>state := Chunk_header0,
       derived := derived (read_fields s fs b h sk) @ [Ev_header]\<rparr>)"
    "Chunked \<in> fields_flags (content fs)" "ContentLength \<notin> fields_flags (content fs)"
proof -
  show "Chunked \<in> fields_flags (content fs)" "ContentLength \<notin> fields_flags (content fs)"
    using assms by (auto simp: body_framing_def split: if_splits)
  moreover have "\<not> sk" "is_request s \<or> \<not> (code s div 100 = 1 \<or> code s = 204 \<or> code s = 304)"
    using assms by (auto simp: body_framing_def split: if_splits)
  ultimately show "finish_header (is_request s) (read_fields s fs b h sk) =
    (None, (set_flag HasBody (read_fields s fs b h sk))\<lparr>state := Chunk_header0,
       derived := derived (read_fields s fs b h sk) @ [Ev_header]\<rparr>)"
    using read_fields_flags [of s fs b h sk] read_fields_simps(7) [of s fs b h sk]
    by (cases "is_request s")
      (simp_all add: finish_header_def finish_header_request_def finish_header_response_def header_done_recorder)
qed

lemma framing_length:
  assumes "body_framing sk s (content fs) = Length n" "n \<noteq> 0" "n \<le> b"
  shows "finish_header (is_request s) (read_fields s fs b h sk) =
    (None, (set_flag HasBody (read_fields s fs b h sk))\<lparr>state := Body0,
       derived := derived (read_fields s fs b h sk) @ [Ev_header]\<rparr>)"
    "ContentLength \<in> fields_flags (content fs)" "len (read_fields s fs b h sk) = n"
proof -
  show f: "ContentLength \<in> fields_flags (content fs)" and l: "len (read_fields s fs b h sk) = n"
    using assms by (auto simp: body_framing_def read_fields_simps split: if_splits)
  have "\<not> sk" "is_request s \<or> \<not> (code s div 100 = 1 \<or> code s = 204 \<or> code s = 304)"
    using assms by (auto simp: body_framing_def split: if_splits)
  then show "finish_header (is_request s) (read_fields s fs b h sk) =
    (None, (set_flag HasBody (read_fields s fs b h sk))\<lparr>state := Body0,
       derived := derived (read_fields s fs b h sk) @ [Ev_header]\<rparr>)"
    using f l assms(2,3) read_fields_flags [of s fs b h sk] read_fields_simps(2,7) [of s fs b h sk]
    by (cases "is_request s") (simp_all add: finish_header_def finish_header_request_def finish_header_response_def
      finish_length_def header_done_recorder word_gt_0)
qed

lemma chunked_loop:
  assumes "start_wf s" "list_all field_wf fs" "fields_ok {} (content fs)" "length (header_text s fs) \<le> h"
    "body_framing sk s (content fs) = Chunks"
    "list_all chunk_ok cs" "chunks_size cs \<le> unat b" "list_all field_wf ts" "fields_ok {Chunked} (content ts)"
    "length (chunks_text cs @ chunk_last (fields_text ts) @ rest) < 2 ^ 64"
  shows "\<exists>st'. put_loop (is_request s) recorder None (whole (is_request s) b h sk)
        (header_text s fs @ chunks_text cs @ chunk_last (fields_text ts) @ rest) = Some (None, st', rest) \<and>
      state st' = Complete \<and> derived st' = start_event s # map field_event (content fs) @ [Ev_header, Ev_body_init None] @
        concat (map chunk_events cs) @ Ev_chunk_header 0 [] # map field_event (content ts) @ [Ev_finish]"
proof -
  define p where "p = chunks_text cs @ chunk_last (fields_text ts) @ rest"
  define st1 where "st1 = (set_flag HasBody (read_fields s fs b h sk))\<lparr>state := Chunk_header0,
       derived := derived (read_fields s fs b h sk) @ [Ev_header]\<rparr>"
  define st2 where "st2 = st1\<lparr>derived := derived st1 @ [Ev_body_init None], state := Chunk_header\<rparr>"
  note framing = framing_chunks(1) [OF assms(5), of b h, folded st1_def] framing_chunks(2,3) [OF assms(5)]
  note flags = read_fields_flags [of s fs b h sk]
  have "p \<noteq> []"
    by (simp add: p_def chunk_last_def)
  then have "put_loop (is_request s) recorder None (whole (is_request s) b h sk) (header_text s fs @ p) =
      put_loop (is_request s) recorder None st1 p"
    by (intro message_header [OF assms(1-4) framing(1)]) (use flags(2) in \<open>simp_all add: st1_def eager_def\<close>)
  also have "put_step (is_request s) recorder None st1 p = put_step (is_request s) recorder None st2 p"
    using flags(3) framing(3)
    by (simp add: put_step.simps st2_def st1_def body_init_def content_length_def recorder_def)
  then have "put_loop (is_request s) recorder None st1 p = put_loop (is_request s) recorder None st2 p"
    by (subst (1 2) put_loop.simps) simp
  finally have whole: "put_loop (is_request s) recorder None (whole (is_request s) b h sk) (header_text s fs @ p) =
      put_loop (is_request s) recorder None st2 p" .
  have "state st2 = Chunk_header" "eager st2" "FinalChunk \<notin> flags st2" "skip st2 = length (old_end st2)" "old_end st2 = []"
      "chunks_size cs \<le> unat (body_limit st2)"
    using flags assms(7) by (simp_all add: st2_def st1_def eager_def old_end_def read_fields_simps(1,2))
  moreover have "fields_ok (flags st2) (content ts)"
    using assms(9) flags(3,4) framing(2,3) fields_ok_cong [of "flags st2" "{Chunked}" "content ts"]
    by (simp add: st2_def st1_def)
  ultimately obtain st' where "put_loop (is_request s) recorder None st2 p = Some (None, st', rest)" "state st' = Complete"
      "derived st' = derived st2 @ concat (map chunk_events cs) @ Ev_chunk_header 0 [] # map field_event (content ts) @ [Ev_finish]"
    using chunks_loop [OF assms(8) _ _ _ _ _ assms(6), of st2 rest] assms(10) by (auto simp: p_def)
  then show ?thesis
    using whole by (simp add: p_def st2_def st1_def read_fields_simps(5))
qed

lemma length_loop:
  assumes "start_wf s" "list_all field_wf fs" "fields_ok {} (content fs)" "length (header_text s fs) \<le> h"
    "body_framing sk s (content fs) = Length n" "n \<noteq> 0" "n \<le> b" "length d = unat n" "length (d @ rest) < 2 ^ 64"
  shows "\<exists>st'. put_loop (is_request s) recorder None (whole (is_request s) b h sk) (header_text s fs @ d @ rest) =
      Some (None, st', rest) \<and> state st' = Complete \<and>
      derived st' = start_event s # map field_event (content fs) @ [Ev_header, Ev_body_init (Some n), Ev_body d, Ev_finish]"
proof -
  define st1 where "st1 = (set_flag HasBody (read_fields s fs b h sk))\<lparr>state := Body0,
       derived := derived (read_fields s fs b h sk) @ [Ev_header]\<rparr>"
  note framing = framing_length(1) [OF assms(5-7), of h, folded st1_def] framing_length(2) [OF assms(5-7)]
    framing_length(3) [OF assms(5-7), of h]
  note flags = read_fields_flags [of s fs b h sk]
  have d: "d \<noteq> []" "n = of_nat (length d)"
    using assms(6,8) by (auto simp: unat_eq_0)
  let ?st2 = "st1\<lparr>derived := derived st1 @ [Ev_body_init (Some n)], state := Body\<rparr>"
  let ?st' = "st1\<lparr>state := Complete, derived := derived st1 @ [Ev_body_init (Some n), Ev_body d, Ev_finish], len := 0\<rparr>"
  have "put_loop (is_request s) recorder None (whole (is_request s) b h sk) (header_text s fs @ d @ rest) =
      put_loop (is_request s) recorder None st1 (d @ rest)"
    by (intro message_header [OF assms(1-4) framing(1)]) (use flags(2) d in \<open>simp_all add: st1_def eager_def\<close>)
  moreover have "unat (clamp (len ?st2) (of_nat (length (d @ rest)))) = length d"
    using framing(3) assms(8) by (simp only: clamp_min unat_length [OF assms(9)]) (simp add: st1_def)
  then have "parse_body recorder ?st2 (d @ rest) = (None, ?st', rest)"
    using framing(3) d(2) unfolding parse_body_def by (simp add: recorder_def finish_message_def st1_def)
  then have "put_step (is_request s) recorder None st1 (d @ rest) = (True, None, ?st', rest)"
    using flags(3) framing(2,3) read_fields_simps(1) [of s fs b h sk]
    by (simp add: put_step.simps body_init_def content_length_def recorder_def broke_def st1_def)
  then have "put_loop (is_request s) recorder None st1 (d @ rest) = Some (None, ?st', rest)"
    by (rule loop_completes) simp
  ultimately show ?thesis
    by (simp add: st1_def read_fields_simps(5))
qed

section \<open>Properties\<close>

text \<open>The extensions that \<open>chunk_extensions\<close> writes are read by the parser.\<close>

lemma set_escape: "set (escape_quoted v) \<subseteq> insert (CHR 0x5C) (set v)"
  by (induction v) auto

lemma ext_ok_text:
  assumes "ext_names xs" "\<forall>(n, v)\<in>set xs. CR \<notin> set v"
  shows "ext_ok (text_for xs)"
proof -
  have "CR \<notin> set (do_insert n v)" if "(n, v) \<in> set xs" for n v
  proof -
    have "list_all is_token_char n" "CR \<notin> set v"
      using assms that by (auto simp: ext_names_def)
    then show ?thesis
      using not_member [of is_token_char n CR] set_escape [of v] by (auto simp: do_insert_def)
  qed
  then have "CR \<notin> set (text_for xs)"
    by (auto simp: text_for_def)
  then show ?thesis
    using do_parse_text [OF assms(1), of "[]"] by (simp add: ext_ok_def do_parse_def)
qed

text \<open>A chunk without data ends the body: unlike the header, \<open>chunk_body\<close> asserts nothing.\<close>

lemma chunk_body_empty: "chunk_body [] [] = chunk_last chunk_crlf" "chunk_header 0 [] = None"
  by (simp_all add: chunk_body_def chunk_last_def chunk_header_def to_hex_def)

text \<open>The extensions are written as they are, without a semicolon of their own.\<close>

lemma chunk_header_verbatim: "chunk_header 1024 ''x'' = Some (''400x'' @ [CR, LF])"
  by code_simp

text \<open>
  C4: a chunked message is read back from what the encoder wrote.  The header, any chunks with
  data and well-formed extensions, the last chunk and the fields of the trailer, given in one
  call with whatever follows, are consumed exactly; the derived class sees the header, each chunk with its
  size, its extensions and its data, the trailer and the end, in this order, and the parser is
  complete.  The condition is that the sizes stay within the body limit.
\<close>

theorem chunked_message_roundtrip:
  assumes "start_wf s" "list_all field_wf fs" "fields_ok {} (content fs)" "length (header_text s fs) \<le> h"
    "body_framing sk s (content fs) = Chunks"
    "list_all chunk_ok cs" "chunks_size cs \<le> unat b" "list_all field_wf ts" "fields_ok {Chunked} (content ts)"
    "length (chunks_text cs @ chunk_last (fields_text ts) @ rest) < 2 ^ 64"
  shows "\<exists>st'. put (is_request s) recorder (whole (is_request s) b h sk)
        (header_text s fs @ chunks_text cs @ chunk_last (fields_text ts) @ rest) =
      Some (length (header_text s fs @ chunks_text cs @ chunk_last (fields_text ts)), None, st') \<and>
      state st' = Complete \<and> derived st' = start_event s # map field_event (content fs) @ [Ev_header, Ev_body_init None] @
        concat (map chunk_events cs) @ Ev_chunk_header 0 [] # map field_event (content ts) @ [Ev_finish]"
  using chunked_loop [OF assms] by (auto simp: put_def)

theorem chunked_message_roundtrip_witness:
  "\<exists>st'. put True recorder (whole True 10 100 False)
      (header_text (Request ''PUT'' ''/x'' True) [(''transfer-encoding'', [('' '', ''chunked'', [])])] @
        chunks_text [(''hello'', [])] @ chunk_last (fields_text []) @ ''next'') =
      Some (length (header_text (Request ''PUT'' ''/x'' True) [(''transfer-encoding'', [('' '', ''chunked'', [])])] @
        chunks_text [(''hello'', [])] @ chunk_last (fields_text [])), None, st') \<and>
      derived st' = [start_event (Request ''PUT'' ''/x'' True), field_event (''transfer-encoding'', ''chunked''), Ev_header,
        Ev_body_init None, Ev_chunk_header 5 [], Ev_chunk_body ''hello'', Ev_chunk_header 0 [], Ev_finish]"
proof -
  let ?s = "Request ''PUT'' ''/x'' True"
  let ?fs = "[(''transfer-encoding'', [('' '', ''chunked'', [])])]"
  note chars = token_char_iff tchar_code_def alpha_code_def digit_code_def pathchar_iff vchar_code_def uchar_def
    is_control_char_def is_print_iff is_digit_iff
  have "start_wf ?s" "list_all field_wf ?fs" "length (header_text ?s ?fs) \<le> 100"
    by (simp_all add: chars field_wf_def folded_def part_ok_def one_line_def header_text_def fields_text_def
        field_text_def value_text_def part_text_def version_text_def)
  moreover have fields: "content ?fs = [(''transfer-encoding'', ''chunked'')]"
    by (simp add: content_def field_value_def one_line_def)
  moreover have "body_framing False ?s [(''transfer-encoding'', ''chunked'')] = Chunks" "fields_ok {} [(''transfer-encoding'', ''chunked'')]"
    by code_simp+
  moreover have "list_all chunk_ok [(''hello'', [])]" "chunks_size [(''hello'', [])] \<le> unat (10 :: u64)"
    by (simp_all add: chunk_ok_def ext_ok_def do_parse_def parse_ext.simps(1) chunks_size_def)
  moreover have "length (chunks_text [(''hello'', [])] @ chunk_last (fields_text []) @ ''next'') < 2 ^ 64"
    using to_hex_value [of 5] by (simp add: chunks_text_def chunk_body_def chunk_crlf_def chunk_last_def fields_text_def)
  ultimately show ?thesis
    using chunked_message_roundtrip [of ?s ?fs 100 False "[(''hello'', [])]" 10 "[]" "''next''"]
    by (auto simp: content_def chunk_events_def)
qed

text \<open>
  C8: a message with a Content-Length is read exactly: the derived class sees the header, the
  announced length, the data and the end, and the parser is complete with what follows
  untouched.
\<close>

theorem length_message_parsed:
  assumes "start_wf s" "list_all field_wf fs" "fields_ok {} (content fs)" "length (header_text s fs) \<le> h"
    "body_framing sk s (content fs) = Length n" "n \<noteq> 0" "n \<le> b" "length d = unat n" "length (d @ rest) < 2 ^ 64"
  shows "\<exists>st'. put (is_request s) recorder (whole (is_request s) b h sk) (header_text s fs @ d @ rest) =
      Some (length (header_text s fs @ d), None, st') \<and> state st' = Complete \<and>
      derived st' = start_event s # map field_event (content fs) @ [Ev_header, Ev_body_init (Some n), Ev_body d, Ev_finish]"
  using length_loop [OF assms] by (auto simp: put_def)

theorem length_message_parsed_witness:
  "\<exists>st'. put True recorder (whole True 10 100 False)
      (header_text (Request ''PUT'' ''/x'' True) [(''content-length'', [('' '', ''5'', [])])] @ ''hello'' @ ''next'') =
      Some (length (header_text (Request ''PUT'' ''/x'' True) [(''content-length'', [('' '', ''5'', [])])] @ ''hello''), None, st') \<and>
      derived st' = [start_event (Request ''PUT'' ''/x'' True), field_event (''content-length'', ''5''), Ev_header,
        Ev_body_init (Some 5), Ev_body ''hello'', Ev_finish]"
proof -
  let ?s = "Request ''PUT'' ''/x'' True"
  let ?fs = "[(''content-length'', [('' '', ''5'', [])])]"
  note chars = token_char_iff tchar_code_def alpha_code_def digit_code_def pathchar_iff vchar_code_def uchar_def
    is_control_char_def is_print_iff is_digit_iff
  have "start_wf ?s" "list_all field_wf ?fs" "length (header_text ?s ?fs) \<le> 100"
    by (simp_all add: chars field_wf_def folded_def part_ok_def one_line_def header_text_def fields_text_def
        field_text_def value_text_def part_text_def version_text_def)
  moreover have fields: "content ?fs = [(''content-length'', ''5'')]"
    by (simp add: content_def field_value_def one_line_def)
  moreover have "body_framing False ?s [(''content-length'', ''5'')] = Length 5"
    by code_simp
  moreover have "fields_ok {} [(''content-length'', ''5'')]"
    by (simp add: field_ok_def connection_name_def iequals_iff ascii_tolower_eq length_ok_def dec_value_def chars)
  ultimately show ?thesis
    using length_message_parsed [of ?s ?fs 100 False 5 10 "''hello''" "''next''"] by auto
qed

end
