(* ===== verification/Http_Edges.thy ===== *)
theory Http_Edges
  imports Chunk_Encode
begin

text \<open>
  Where the parser of messages does not do what its documentation or its assertions say: the limit
  on the header, sequences of buffers, errors of \<open>on_header\<close>, and the last chunk in
  pieces.
\<close>

section \<open>Errors of the derived class\<close>

lemma body_init_ignores:
  assumes "\<And>n d ec. on_body_init I n d ec = on_body_init I n d None"
  shows "body_init I ec st = body_init I None st"
  using assms [of "content_length st" "derived st" ec] by (simp add: body_init_def)

lemma step_ignores:
  assumes "\<And>n d ec. on_body_init I n d ec = on_body_init I n d None"
    "state st \<in> {Body0, Body_to_eof0, Chunk_header0}"
  shows "put_step q I ec st p = put_step q I None st p"
  using assms(2) body_init_ignores [OF assms(1), of ec st] by (auto simp: put_step.simps)

lemma loop_ignores:
  assumes "\<And>n d ec. on_body_init I n d ec = on_body_init I n d None"
    "state st \<in> {Body0, Body_to_eof0, Chunk_header0}"
  shows "put_loop q I ec st p = put_loop q I None st p"
  using step_ignores [OF assms, of q ec p] by (subst (1 2) put_loop.simps) simp

text \<open>The same derived class, which reports the error \<open>e\<close> from \<open>on_header\<close>.\<close>

definition refusing :: "http_error \<Rightarrow> 'd impl \<Rightarrow> 'd impl" where
  "refusing e I = I\<lparr>on_header := (\<lambda>d ec. (fst (on_header I d ec), Some e))\<rparr>"

lemma refusing_same [simp]:
  "on_request (refusing e I) = on_request I" "on_response (refusing e I) = on_response I"
  "on_field (refusing e I) = on_field I" "on_body_init (refusing e I) = on_body_init I"
  "on_body (refusing e I) = on_body I" "on_chunk_header (refusing e I) = on_chunk_header I"
  "on_chunk_body (refusing e I) = on_chunk_body I" "on_finish (refusing e I) = on_finish I"
  by (simp_all add: refusing_def)

lemma refusing_fields: "parse_fields (refusing e I) st p = parse_fields I st p"
proof (induction I st p rule: parse_fields.induct)
  case (1 I st p)
  then show ?case
    by (subst (1 2) parse_fields.simps) (auto simp: Let_def split: sum.splits prod.splits)
qed

lemma refusing_parts:
  "finish_message (refusing e I) = finish_message I" "body_init (refusing e I) = body_init I"
  "parse_body (refusing e I) = parse_body I" "parse_body_to_eof (refusing e I) = parse_body_to_eof I"
  "parse_chunk_body (refusing e I) = parse_chunk_body I" "parse_chunk_header (refusing e I) = parse_chunk_header I"
  "parse_request_line (refusing e I) = parse_request_line I" "parse_status_line (refusing e I) = parse_status_line I"
proof -
  show fin: "finish_message (refusing e I) = finish_message I" and "body_init (refusing e I) = body_init I"
    unfolding finish_message_def body_init_def refusing_same by (rule refl)+
  show "parse_body (refusing e I) = parse_body I" "parse_body_to_eof (refusing e I) = parse_body_to_eof I"
      "parse_chunk_body (refusing e I) = parse_chunk_body I"
    unfolding parse_body_def parse_body_to_eof_def parse_chunk_body_def fin refusing_same by (rule refl)+
  have last: "parse_last_chunk (refusing e I) = parse_last_chunk I"
    unfolding parse_last_chunk_def refusing_fields fin refusing_same by (rule refl)
  show "parse_chunk_header (refusing e I) = parse_chunk_header I"
    unfolding parse_chunk_header_def last refusing_same by (rule refl)
  show "parse_request_line (refusing e I) = parse_request_line I" "parse_status_line (refusing e I) = parse_status_line I"
    unfolding parse_request_line_def parse_status_line_def refusing_same by (rule refl)+
qed

text \<open>Once in the body, the class is not asked about the header any more.\<close>

definition in_body :: "pstate \<Rightarrow> bool" where
  "in_body s \<longleftrightarrow> s \<notin> {Nothing_yet, Start_line, Fields}"

lemma refusing_step: "in_body (state st) \<Longrightarrow> put_step q (refusing e I) ec st p = put_step q I ec st p"
  unfolding put_step.simps refusing_parts by (cases "state st") (simp_all add: in_body_def)

lemma finish_message_state: "finish_message I st = (ec, st') \<Longrightarrow> state st' = state st"
  by (auto simp: finish_message_def split: prod.splits)

lemma do_field_state: "do_field f v mem st = (ec, st') \<Longrightarrow> state st' = state st"
  by (auto simp: do_field_def split: if_splits option.splits list.splits)

lemma parse_fields_state: "parse_fields I st p = (ec, st', r) \<Longrightarrow> state st' = state st"
proof (induction "length p" arbitrary: p st rule: less_induct)
  case less
  show ?case
  proof (cases "length p < 2 \<or> p ! 0 = CR \<or> (\<exists>e. parse_field p = Inl e)")
    case True
    then show ?thesis
      using less.prems by (auto simp: parse_fields.simps [of I st p] split: if_splits)
  next
    case False
    then obtain name v mem r1 where f: "parse_field p = Inr (name, v, mem, r1)"
      by (cases "parse_field p") auto
    obtain ec1 st1 where d: "do_field (string_to_field name) v mem st = (ec1, st1)"
      by (cases "do_field (string_to_field name) v mem st")
    obtain d2 ec2 where o: "on_field I (string_to_field name, name, v) (derived st1) None = (d2, ec2)"
      by (cases "on_field I (string_to_field name, name, v) (derived st1) None")
    have "parse_fields I st p =
        (if ec1 \<noteq> None then (ec1, st1, p) else if ec2 \<noteq> None then (ec2, st1\<lparr>derived := d2\<rparr>, p)
         else parse_fields I (st1\<lparr>derived := d2\<rparr>) r1)"
      using False f d o by (subst parse_fields.simps) (simp only: Let_def prod.case sum.case if_False de_Morgan_disj)
    then show ?thesis
      using less.prems less.hyps [OF parse_field_shorter [OF f], of "st1\<lparr>derived := d2\<rparr>"] do_field_state [OF d]
      by (auto split: if_splits)
  qed
qed

lemma last_chunk_state:
  "parse_last_chunk I st p0 p eol = (ec, st', r) \<Longrightarrow> state st' = state st \<or> state st' = Complete"
  by (auto simp: parse_last_chunk_def Let_def dest!: parse_fields_state finish_message_state
      split: if_splits option.splits sum.splits prod.splits)

lemma chunk_header_state:
  "parse_chunk_header I st p0 = (ec, st', r) \<Longrightarrow> state st' \<in> {state st, Complete, Chunk_body}"
  by (auto simp: parse_chunk_header_def Let_def dest!: last_chunk_state
      split: if_splits option.splits sum.splits prod.splits)

lemma in_body_step:
  assumes "in_body (state st)" "put_step q I ec st p = (b, ec', st', p')"
  shows "in_body (state st')"
proof -
  have init: "state s' = state s" if "body_init I c s = (c', s')" for c s c' s'
    using that by (auto simp: body_init_def split: prod.splits)
  have broke: "x = (ec', st', p')" if "broke x = (b, ec', st', p')" for x :: "ec \<times> 'a parser \<times> string"
    using that by (simp add: broke_def)
  have body: "in_body (state s')" if "parse_body I s r = (c, s', r')" "in_body (state s)" for s r c s' r'
    using that by (auto simp: parse_body_def Let_def in_body_def dest!: finish_message_state split: if_splits prod.splits)
  have eof: "in_body (state s')" if "parse_body_to_eof I s r = (c, s', r')" "in_body (state s)" for s r c s' r'
    using that by (auto simp: parse_body_to_eof_def Let_def split: if_splits prod.splits)
  have chunk: "in_body (state s')" if "parse_chunk_body I s r = (c, s', r')" "in_body (state s)" for s r c s' r'
    using that by (auto simp: parse_chunk_body_def Let_def in_body_def split: if_splits prod.splits)
  have b: "in_body Body" "in_body Body_to_eof" "in_body Chunk_header"
    by (simp_all add: in_body_def)
  have header: "in_body (state s')" if "parse_chunk_header I s r = (c, s', r')" "in_body (state s)" for s r c s' r'
    using chunk_header_state [OF that(1)] that(2) by (auto simp: in_body_def)
  note parts = body eof chunk header
  from assms(2) show ?thesis
    using assms(1) b unfolding put_step.simps
    by (cases "state st")
      (auto simp: in_body_def [of Nothing_yet] in_body_def [of Start_line] in_body_def [of Fields]
        dest!: broke init dest: parts split: if_splits prod.splits)
qed

lemma refusing_loop:
  assumes "in_body (state st)"
  shows "put_loop q (refusing e I) ec st p = put_loop q I ec st p"
proof -
  have half: "put_loop q J ec st p = Some r" if "put_loop q I ec st p = Some r" "in_body (state st)"
    "\<And>ec st p. in_body (state st) \<Longrightarrow> put_step q J ec st p = put_step q I ec st p" for I J :: "'a impl" and ec st p r
    using that
  proof (induction q I ec st p r rule: put_loop.raw_induct [rotated, consumes 1])
    case (1 loop q I ec st p r)
    obtain b ec' st' p' where s: "put_step q I ec st p = (b, ec', st', p')"
      by (cases "put_step q I ec st p")
    note body = in_body_step [OF "1.prems"(1) s]
    show ?case
      using 1 s body by (subst put_loop.simps) (auto split: if_splits)
  qed
  have step: "put_step q (refusing e I) ec st p = put_step q I ec st p" if "in_body (state st)" for ec st p
    using refusing_step [OF that] .
  show ?thesis
  proof (cases "put_loop q I ec st p")
    case (Some r)
    then show ?thesis
      using half [OF Some assms step] by simp
  next
    case None
    have "put_loop q (refusing e I) ec st p \<noteq> Some r" for r
      using half [of "refusing e I" ec st p r I, OF _ assms step [symmetric]] None by auto
    then show ?thesis
      using None by (cases "put_loop q (refusing e I) ec st p") auto
  qed
qed

lemma refusing_finish:
  assumes "in_body (state s')" "state s' \<noteq> Complete"
  shows "finish_header_request I s = (None, s') \<Longrightarrow> finish_header_request (refusing e I) s = (Some e, s')"
    and "finish_header_response I s = (None, s') \<Longrightarrow> finish_header_response (refusing e I) s = (Some e, s')"
proof -
  have done_e: "header_done (refusing e I) t = (Some e, s')" if "header_done I t = (None, s')" for t
    using that assms finish_message_state
    by (fastforce simp: header_done_def refusing_def Let_def split: prod.splits if_splits)
  have len: "finish_length (refusing e I) t = (Some e, s')" if "finish_length I t = (None, s')" for t
    using that done_e by (auto simp: finish_length_def split: if_splits)
  show "finish_header_request (refusing e I) s = (Some e, s')" if "finish_header_request I s = (None, s')"
    using that done_e len by (auto simp: finish_header_request_def split: if_splits)
  show "finish_header_response (refusing e I) s = (Some e, s')" if "finish_header_response I s = (None, s')"
    using that done_e len by (auto simp: finish_header_response_def split: if_splits)
qed

lemma refusing_fields_step:
  assumes "in_body (state st')" "state st' \<noteq> Complete" "step_fields q I ec st p = (True, None, st', p')"
  shows "step_fields q (refusing e I) ec st p = (True, Some e, st', p')"
proof -
  obtain c s1 where m: "maybe_need_more st p ec = (c, s1)"
    by (cases "maybe_need_more st p ec")
  obtain c2 s2 r where f: "parse_fields I s1 (limited s1 p) = (c2, s2, r)"
    by (cases "parse_fields I s1 (limited s1 p)") auto
  have "c = None" "c2 = None" "p' = drop (length (limited s1 p) - length r) p"
      "(if q then finish_header_request I s2 else finish_header_response I s2) = (None, st')"
    using assms(3) m f by (cases c; cases c2; auto simp: step_fields_def Let_def split: prod.splits)+
  then show ?thesis
    using m f refusing_finish [OF assms(1,2), of I s2 e] by (cases q) (simp_all add: step_fields_def refusing_fields)
qed

lemma refusing_header_step:
  assumes "in_body (state st')" "state st' \<noteq> Complete" "\<not> in_body (state st)"
    "put_step q I ec st p = (True, None, st', p')"
  shows "put_step q (refusing e I) ec st p = (True, Some e, st', p')"
proof -
  have start: "step_start_line q (refusing e I) ec s p = (True, Some e, st', p')"
    if "step_start_line q I ec s p = (True, None, st', p')" for s
  proof -
    obtain c s1 where m: "maybe_need_more s p ec = (c, s1)"
      by (cases "maybe_need_more s p ec")
    obtain c2 s2 r where f: "(if q then parse_request_line I s1 (limited s1 p) else parse_status_line I s1 (limited s1 p)) = (c2, s2, r)"
      by (cases "if q then parse_request_line I s1 (limited s1 p) else parse_status_line I s1 (limited s1 p)") auto
    let ?r = "drop (length (limited s1 p) - length r) p"
    have "c = None" "c2 = None" "?r \<noteq> []" "step_fields q I None s2 ?r = (True, None, st', p')"
      using that m f by (cases c; cases c2; auto simp: step_start_line_def Let_def split: prod.splits if_splits)+
    then show ?thesis
      using m f refusing_fields_step [OF assms(1,2), of q I None s2 ?r p' e]
      unfolding step_start_line_def refusing_parts by (simp add: Let_def)
  qed
  show ?thesis
    using assms(3,4) start refusing_fields_step [OF assms(1,2)]
    by (cases "state st") (auto simp: in_body_def put_step.simps split: if_splits)
qed

section \<open>The last chunk in pieces\<close>

lemma hex_zero: "parse_hex (CHR ''0'' # CR # LF # r) = Some (Some (0, CR # LF # r))"
  using parse_to_hex [of "CR # LF # r" 0] by (simp add: to_hex_def hex_digit_ones)

lemma last_chunk_need_more:
  assumes "flags st \<inter> {FinalChunk, ExpectCRLF} = {}" "skip st = 0"
  shows "parse_chunk_header I st (CHR ''0'' # [CR, LF]) =
    (Some Need_more, set_flag FinalChunk (st\<lparr>skip := 0\<rparr>), CHR ''0'' # [CR, LF])"
proof -
  have "find_eom [CR, LF] = None"
    by (simp add: find_eom_eq)
  moreover have "FinalChunk \<notin> flags st" "ExpectCRLF \<notin> flags st"
    using assms(1) by auto
  ultimately show ?thesis
    using assms(2) hex_zero [of "[]"] unfolding parse_chunk_header_def parse_last_chunk_def Let_def
    by (simp del: parse_hex.simps)
qed

section \<open>Properties\<close>

text \<open>
  The limit on the header does not bound its total size.  It is applied to the start line
  and again, in full, to the fields, so a header is read without an error when each of the
  two is within the limit.
\<close>

theorem header_limit_stages:
  assumes "start_wf s" "list_all field_wf fs" "fields_ok {} (content fs)"
    "length (start_text s) \<le> h" "length (fields_text fs) \<le> h"
  shows "\<exists>ec st'. put (is_request s) recorder (fresh (is_request s) b h sk) (header_text s fs @ rest) =
        Some (length (header_text s fs), ec, st') \<and> ec \<noteq> Some Header_limit"
proof -
  obtain ec st' where "put (is_request s) recorder (fresh (is_request s) b h sk) (header_text s fs @ rest) =
        Some (length (header_text s fs), ec, st')"
      "header_outcome (body_framing sk s (content fs))
        ((fresh (is_request s) b h sk)\<lparr>state := Fields, derived := start_event s # map field_event (content fs)\<rparr>) (ec, st')"
    using put_header [OF assms(1,2,4,5), of b sk rest] assms(3) by auto
  moreover from this(2) have "ec \<noteq> Some Header_limit"
    by (cases "body_framing sk s (content fs)") (auto simp: header_outcome_def)
  ultimately show ?thesis
    by blast
qed

theorem header_limit_stages_witness:
  "\<exists>ec st'. put True recorder (fresh True 10 20 False) (header_text (Request ''PUT'' ''/x'' True) [(''a'', [('' '', ''12345'', [])])] @ []) =
      Some (length (header_text (Request ''PUT'' ''/x'' True) [(''a'', [('' '', ''12345'', [])])]), ec, st') \<and> ec \<noteq> Some Header_limit \<and>
    20 < length (header_text (Request ''PUT'' ''/x'' True) [(''a'', [('' '', ''12345'', [])])])"
proof -
  let ?s = "Request ''PUT'' ''/x'' True"
  let ?fs = "[(''a'', [('' '', ''12345'', [])])]"
  note chars = token_char_iff tchar_code_def alpha_code_def digit_code_def pathchar_iff vchar_code_def uchar_def
    is_control_char_def is_print_iff is_digit_iff
  have "start_wf ?s" "list_all field_wf ?fs" "length (start_text ?s) \<le> 20" "length (fields_text ?fs) \<le> 20"
      "20 < length (header_text ?s ?fs)"
    by (simp_all add: chars field_wf_def folded_def part_ok_def one_line_def header_text_def fields_text_def
        field_text_def value_text_def part_text_def version_text_def)
  moreover have "content ?fs = [(''a'', ''12345'')]"
    by (simp add: content_def field_value_def one_line_def)
  moreover have "fields_ok {} [(''a'', ''12345'')]"
    by code_simp
  ultimately show ?thesis
    using header_limit_stages [of ?s ?fs 20 10 False "[]"] by auto
qed

text \<open>
  C34: a sequence of several buffers, together longer than the buffer on the stack, is copied into a
  buffer that the parser keeps, and then the parser is given all of that buffer: what an
  earlier and longer sequence left there is taken for input.  Reading a body to the end of the
  stream, the derived class is passed those stale characters behind the new ones.
\<close>

theorem put_buffers_stale:
  assumes "2 \<le> length bs" "8192 < length (concat bs)" "length (concat bs) < length (buf st)"
    "state st = Body_to_eof" "skip st = 0" "length (buf st) \<le> unat (body_limit st)" "length (buf st) < 2 ^ 64"
  shows "\<exists>st'. put_buffers q recorder st bs = Some (length (buf st), None, st') \<and>
    derived st' = derived st @ [Ev_body (concat bs @ drop (length (concat bs)) (buf st))]"
proof -
  let ?m = "concat bs @ drop (length (concat bs)) (buf st)"
  have m: "length ?m = length (buf st)"
    using assms(3) by simp
  have "put_buffers q recorder st bs = put q recorder (st\<lparr>buf := ?m\<rparr>) ?m"
  proof -
    obtain a b cs where "bs = a # b # cs"
      using assms(1) by (cases bs; cases "tl bs") auto
    then show ?thesis
      using assms(2,3) unfolding put_buffers_def Let_def max_stack_buffer_def by simp
  qed
  moreover have "\<not> of_nat (length ?m) > body_limit (st\<lparr>buf := ?m\<rparr>)"
    using assms(6,7) m by (simp add: word_less_nat_alt unat_of_nat)
  then have "parse_body_to_eof recorder (st\<lparr>buf := ?m\<rparr>) ?m =
      (None, st\<lparr>buf := ?m, body_limit := body_limit st - of_nat (length ?m), derived := derived st @ [Ev_body ?m]\<rparr>, [])"
    unfolding parse_body_to_eof_def by (simp add: recorder_def Let_def)
  then have "put_step q recorder None (st\<lparr>buf := ?m\<rparr>) ?m =
      (True, None, st\<lparr>buf := ?m, body_limit := body_limit st - of_nat (length ?m), derived := derived st @ [Ev_body ?m]\<rparr>, [])"
    using assms(4,5) by (simp add: put_step.simps broke_def)
  then have "put_loop q recorder None (st\<lparr>buf := ?m\<rparr>) ?m = Some (None,
      st\<lparr>buf := ?m, body_limit := body_limit st - of_nat (length ?m), derived := derived st @ [Ev_body ?m]\<rparr>, [])"
    by (subst put_loop.simps) simp
  ultimately show ?thesis
    using assms(4) m by (simp add: put_def)
qed

theorem put_buffers_stale_witness:
  "\<exists>st'. put_buffers False recorder ((basic_parser False [])\<lparr>state := Body_to_eof, buf := replicate 9000 CHR ''y'',
      body_limit := 10000\<rparr>) [replicate 8000 CHR ''x'', replicate 500 CHR ''x''] = Some (9000, None, st') \<and>
    derived st' = [Ev_body (replicate 8500 CHR ''x'' @ replicate 500 CHR ''y'')]"
proof -
  let ?st = "(basic_parser False [] :: event list parser)\<lparr>state := Body_to_eof, buf := replicate 9000 CHR ''y'', body_limit := 10000\<rparr>"
  let ?bs = "[replicate 8000 CHR ''x'', replicate 500 CHR ''x'']"
  have "concat ?bs = replicate 8500 CHR ''x''"
    by (simp flip: replicate_add)
  moreover have "skip ?st = 0" "derived ?st = []"
    by (simp_all add: basic_parser_def)
  ultimately show ?thesis
    using put_buffers_stale [of ?bs ?st False] by (simp flip: replicate_add)
qed

text \<open>
  C35: an error that the derived class reports from \<open>on_header\<close> is lost when the header
  ends in a call that also has the first of the body, with the eager option.  The call returns what
  it returns for the same class without the error: the same number of characters, the same error code
  and the same parser.  That is so whenever \<open>on_body_init\<close> sets its error code without
  looking at it, as the readers of the library do.
\<close>

theorem header_error_dropped:
  assumes "\<And>n d ec. on_body_init I n d ec = on_body_init I n d None"
    and "state st \<in> {Nothing_yet, Start_line, Fields}"
    and "put_step q I None st p = (True, None, st', p')" "state st' \<in> {Body0, Body_to_eof0, Chunk_header0}"
      "eager st'" "p' \<noteq> []"
  shows "put q (refusing e I) st p = put q I st p"
proof -
  have body: "in_body (state st')" "state st' \<noteq> Complete" "\<not> in_body (state st)" "\<not> is_done st'"
    using assms(2,4) by (auto simp: in_body_def is_done_def)
  have "put_loop q (refusing e I) None st p = put_loop q (refusing e I) (Some e) st' p'"
    using refusing_header_step [OF body(1-3) assms(3), of e] body(4) assms(5,6) by (subst put_loop.simps) simp
  also have "\<dots> = put_loop q (refusing e I) None st' p'"
    by (rule loop_ignores) (use assms(1,4) in \<open>simp_all add: refusing_same(4)\<close>)
  also have "\<dots> = put_loop q I None st' p'"
    by (rule refusing_loop [OF body(1)])
  also have "\<dots> = put_loop q I None st p"
    using assms(3,5,6) body(4) by (subst (2) put_loop.simps) simp
  finally show ?thesis
    by (simp add: put_def)
qed

theorem header_error_dropped_witness:
  "let st = (basic_parser True [])\<lparr>state := Fields, flags := {Eager, ContentLength}, len := 1\<rparr> in
    put True (refusing Bad_field recorder) st [CR, LF, CHR ''x''] = put True recorder st [CR, LF, CHR ''x''] \<and>
    (\<exists>st'. put True recorder st [CR, LF, CHR ''x''] = Some (3, None, st'))"
proof -
  let ?st = "(basic_parser True [] :: event list parser)\<lparr>state := Fields, flags := {Eager, ContentLength}, len := 1\<rparr>"
  let ?st' = "?st\<lparr>flags := {HasBody, Eager, ContentLength}, state := Body0, derived := [Ev_header]\<rparr>"
  have "parse_fields recorder ?st [CR, LF, CHR ''x''] = (None, ?st, ''x'')"
    by (subst parse_fields.simps) simp
  then have step: "put_step True recorder None ?st [CR, LF, CHR ''x''] = (True, None, ?st', ''x'')"
    by (simp add: put_step.simps step_fields_def maybe_need_more_def limited_def finish_header_request_def finish_length_def
      header_done_def basic_parser_def default_body_limit_def recorder_def)
  have "on_body_init recorder n d ec = on_body_init recorder n d None" for n d ec
    by (simp add: recorder_def)
  then have "put True (refusing Bad_field recorder) ?st [CR, LF, CHR ''x''] = put True recorder ?st [CR, LF, CHR ''x'']"
    by (rule header_error_dropped [OF _ _ step]) (simp_all add: eager_def)
  moreover have "put_step True recorder None ?st' ''x'' = (True, None, st2, [])" if
      "st2 = ?st'\<lparr>state := Complete, len := 0, derived := [Ev_header, Ev_body_init (Some 1), Ev_body ''x'', Ev_finish]\<rparr>" for st2
    unfolding that by (simp add: put_step.simps body_init_def parse_body_def finish_message_def broke_def basic_parser_def
      recorder_def content_length_def clamp_def Let_def)
  then have "\<exists>st2. put_loop True recorder None ?st' ''x'' = Some (None, st2, [])"
    by (subst put_loop.simps) simp
  then have "\<exists>st2. put True recorder ?st [CR, LF, CHR ''x''] = Some (3, None, st2)"
    using step by (subst put_def, subst put_loop.simps) (auto simp: eager_def is_done_def)
  ultimately show ?thesis
    by (auto simp: Let_def)
qed

text \<open>
  C36: an assertion of the parser depends on how the input is divided.  When the last chunk
  arrives as three characters, and then one more, the parser asks for more the first time and fails the
  assertion that it has at least five characters the second time, whatever the character is.
\<close>

theorem last_chunk_assertion:
  assumes "state st = Chunk_header" "flags st \<inter> {FinalChunk, ExpectCRLF} = {}" "skip st = 0"
  shows "\<exists>st'. put q I st (CHR ''0'' # [CR, LF]) = Some (0, Some Need_more, st') \<and>
    put q I st' (CHR ''0'' # [CR, LF, c]) = Some (0, Some Assertion_failed, st')"
proof -
  let ?st' = "set_flag FinalChunk (st\<lparr>skip := 0\<rparr>)"
  have "put_step q I None st (CHR ''0'' # [CR, LF]) = (False, Some Need_more, ?st', CHR ''0'' # [CR, LF])"
    using last_chunk_need_more [OF assms(2,3)] by (simp add: put_step.simps assms(1) broke_def)
  then have "put_loop q I None st (CHR ''0'' # [CR, LF]) = Some (Some Need_more, ?st', CHR ''0'' # [CR, LF])"
    by (rule loop_stops(1))
  moreover have "parse_chunk_header I ?st' (CHR ''0'' # [CR, LF, c]) = (Some Assertion_failed, ?st', CHR ''0'' # [CR, LF, c])"
    unfolding parse_chunk_header_def by (simp add: Let_def)
  then have "put_step q I None ?st' (CHR ''0'' # [CR, LF, c]) = (False, Some Assertion_failed, ?st', CHR ''0'' # [CR, LF, c])"
    by (simp add: put_step.simps assms(1) broke_def)
  then have "put_loop q I None ?st' (CHR ''0'' # [CR, LF, c]) = Some (Some Assertion_failed, ?st', CHR ''0'' # [CR, LF, c])"
    by (rule loop_stops(1))
  ultimately show ?thesis
    by (intro exI [of _ ?st']) (simp add: put_def assms(1))
qed

theorem last_chunk_assertion_witness:
  "\<exists>st'. put False recorder ((basic_parser False [])\<lparr>state := Chunk_header\<rparr>) (CHR ''0'' # [CR, LF]) = Some (0, Some Need_more, st') \<and>
    put False recorder st' (CHR ''0'' # [CR, LF, CR]) = Some (0, Some Assertion_failed, st')"
  by (rule last_chunk_assertion) (simp_all add: basic_parser_def)

end
