(* ===== verification/Static_String.thy ===== *)
theory Static_String
  imports Prelude
begin

text \<open>
  \<open>beast/core/static_string.hpp\<close>, with its \<open>impl\<close> and \<open>detail\<close>: a string
  in an array of fixed size.  The array is the list \<open>sbuf\<close>, one character longer than
  \<open>max_size()\<close>; the size is \<open>slen\<close>.  A \<open>size_type\<close> is 64 bits wide and
  its arithmetic wraps.  An operation returns, throws, or strays: it reads or writes outside
  the array, or copies between ranges that overlap, which \<open>Traits::copy\<close> does not allow.
\<close>

section \<open>The array\<close>

datatype string_error = Length_error | Out_of_range

datatype 'a outcome = Returns 'a | Throws string_error | Stray

fun and_then :: "'a outcome \<Rightarrow> ('a \<Rightarrow> 'b outcome) \<Rightarrow> 'b outcome" where
  "and_then (Returns x) f = f x"
| "and_then (Throws e) f = Throws e"
| "and_then Stray f = Stray"

record static_string =
  sbuf :: string
  slen :: nat

abbreviation size_t :: "nat \<Rightarrow> nat" where
  "size_t n \<equiv> n mod 2 ^ 64"

text \<open>The difference of two sizes.\<close>

definition minus_t :: "nat \<Rightarrow> nat \<Rightarrow> nat" where
  "minus_t a b = size_t (a + 2 ^ 64 - b)"

definition max_size :: "static_string \<Rightarrow> nat" where
  "max_size s = length (sbuf s) - 1"

definition put_chars :: "nat \<Rightarrow> string \<Rightarrow> static_string \<Rightarrow> static_string outcome" where
  "put_chars off src s =
     (if off + length src \<le> length (sbuf s) then Returns (s\<lparr>sbuf := blit off src (sbuf s)\<rparr>) else Stray)"

text \<open>The \<open>n\<close> characters from \<open>off\<close> on, and moving them within the array.\<close>

definition get_chars :: "nat \<Rightarrow> nat \<Rightarrow> string \<Rightarrow> string outcome" where
  "get_chars off n arr = (if off + n \<le> length arr then Returns (take n (drop off arr)) else Stray)"

definition move_chars :: "nat \<Rightarrow> nat \<Rightarrow> nat \<Rightarrow> static_string \<Rightarrow> static_string outcome" where
  "move_chars dst src n s = and_then (get_chars src n (sbuf s)) (\<lambda>cs. put_chars dst cs s)"


definition term_nul :: "static_string \<Rightarrow> static_string outcome" where
  "term_nul s = put_chars (slen s) [CHR 0x00] s"

text \<open>The string that the object holds, and an array of \<open>N + 1\<close> characters after construction.\<close>

definition str_of :: "static_string \<Rightarrow> string" where
  "str_of s = take (slen s) (sbuf s)"

definition static_string_new :: "string \<Rightarrow> static_string outcome" where
  "static_string_new arr = term_nul \<lparr>sbuf = arr, slen = 0\<rparr>"

section \<open>Assignment\<close>






text \<open>\<open>substr\<close>, of a string view and of a static string.\<close>

definition substr :: "string \<Rightarrow> nat \<Rightarrow> nat \<Rightarrow> string outcome" where
  "substr t pos count =
     (if pos > length t then Throws Out_of_range
      else get_chars pos (min count (length t - pos)) t)"




definition at :: "nat \<Rightarrow> static_string \<Rightarrow> char outcome" where
  "at pos s = (if pos \<ge> slen s then Throws Out_of_range
     else and_then (get_chars pos 1 (sbuf s)) (\<lambda>cs. Returns (hd cs)))"

section \<open>Insertion\<close>

text \<open>
  The characters to insert: elsewhere in memory, or \<open>count\<close> characters of the string's own
  array, from a position on, read when they are copied.
\<close>

datatype source = Elsewhere string | Own nat nat

fun source_size :: "source \<Rightarrow> nat" where
  "source_size (Elsewhere t) = length t"
| "source_size (Own p count) = count"

definition copy_source :: "nat \<Rightarrow> source \<Rightarrow> static_string \<Rightarrow> static_string outcome" where
  "copy_source index src s =
     (case src of
        Elsewhere t \<Rightarrow> put_chars index t s
      | Own p count \<Rightarrow>
          if 0 < count \<and> p < index + count \<and> index < p + count then Stray
          else and_then (get_chars p count (sbuf s)) (\<lambda>cs. put_chars index cs s))"

definition move_up :: "nat \<Rightarrow> nat \<Rightarrow> static_string \<Rightarrow> static_string outcome" where
  "move_up index count s = move_chars (size_t (index + count)) index (minus_t (slen s) index) s"

definition insert_view :: "nat \<Rightarrow> source \<Rightarrow> static_string \<Rightarrow> static_string outcome" where
  "insert_view index src s =
     (if index > slen s then Throws Out_of_range
      else if size_t (slen s + source_size src) > max_size s then Throws Length_error
      else and_then (move_up index (source_size src) s) (\<lambda>s.
        and_then (copy_source index src (s\<lparr>slen := size_t (slen s + source_size src)\<rparr>)) term_nul))"

text \<open>At an iterator, \<open>begin() + index\<close>, there is no check of the index.\<close>

definition insert_fill_at :: "nat \<Rightarrow> nat \<Rightarrow> char \<Rightarrow> static_string \<Rightarrow> static_string outcome" where
  "insert_fill_at index count ch s =
     (if size_t (slen s + count) > max_size s then Throws Length_error
      else and_then (move_up index count s) (\<lambda>s.
        and_then (put_chars index (replicate count ch) (s\<lparr>slen := size_t (slen s + count)\<rparr>)) term_nul))"

definition insert_fill :: "nat \<Rightarrow> nat \<Rightarrow> char \<Rightarrow> static_string \<Rightarrow> static_string outcome" where
  "insert_fill index count ch s =
     (if index > slen s then Throws Out_of_range else insert_fill_at index count ch s)"


definition insert_sub :: "nat \<Rightarrow> string \<Rightarrow> nat \<Rightarrow> nat \<Rightarrow> static_string \<Rightarrow> static_string outcome" where
  "insert_sub index t pos count s =
     and_then (substr t pos count) (\<lambda>ss. insert_view index (Elsewhere ss) s)"

section \<open>Appending\<close>


definition append_view :: "source \<Rightarrow> static_string \<Rightarrow> static_string outcome" where
  "append_view src s = insert_view (slen s) src s"


definition append_fill :: "nat \<Rightarrow> char \<Rightarrow> static_string \<Rightarrow> static_string outcome" where
  "append_fill count ch s = insert_fill_at (slen s) count ch s"

text \<open>A part of a static string; for a part of a view the insertion is that of \<open>insert_sub\<close>.\<close>

definition append_sub :: "string \<Rightarrow> nat \<Rightarrow> nat \<Rightarrow> static_string \<Rightarrow> static_string outcome" where
  "append_sub t pos count s =
     (if pos \<ge> length t then Throws Out_of_range
      else and_then (get_chars pos (min count (length t - pos)) t)
        (\<lambda>ss. insert_view (slen s) (Elsewhere ss) s))"

definition append_view_sub :: "string \<Rightarrow> nat \<Rightarrow> nat \<Rightarrow> static_string \<Rightarrow> static_string outcome" where
  "append_view_sub t pos count s = insert_sub (slen s) t pos count s"

section \<open>Removing and resizing\<close>










section \<open>Comparison\<close>

text \<open>\<open>Traits::compare\<close> of \<open>n\<close> characters, by its sign.\<close>

fun traits_compare :: "string \<Rightarrow> string \<Rightarrow> nat \<Rightarrow> int" where
  "traits_compare (a # s) (b # t) (Suc n) =
     (if uchar a < uchar b then -1 else if uchar b < uchar a then 1 else traits_compare s t n)"
| "traits_compare s t n = 0"

definition lexicographical_compare :: "string \<Rightarrow> string \<Rightarrow> int" where
  "lexicographical_compare s1 s2 =
     (let n1 = length s1; n2 = length s2 in
      if n1 < n2 then (if traits_compare s1 s2 n1 \<le> 0 then -1 else 1)
      else if n1 > n2 then (if traits_compare s1 s2 n2 \<ge> 0 then 1 else -1)
      else traits_compare s1 s2 n1)"

section \<open>Decimal text\<close>

text \<open>
  \<open>raw_to_string\<close> writes backwards from the end of a buffer; what is written so far is
  the argument.  A negative \<open>x\<close> is negated at the width of its type, and the negation of
  the least number overflows.
\<close>

definition digit_char :: "nat \<Rightarrow> char" where
  "digit_char d = ''0123456789'' ! d"

function raw_digits :: "nat \<Rightarrow> string \<Rightarrow> string" where
  "raw_digits x buf = (if x > 0 then raw_digits (x div 10) (digit_char (x mod 10) # buf) else buf)"
  by auto
termination by (relation "measure fst") auto

declare raw_digits.simps [simp del]

definition raw_to_string_unsigned :: "nat \<Rightarrow> string" where
  "raw_to_string_unsigned x = (if x = 0 then ''0'' else raw_digits x [])"

definition raw_to_string_signed :: "nat \<Rightarrow> int \<Rightarrow> string outcome" where
  "raw_to_string_signed w x =
     (if x = 0 then Returns ''0''
      else if x < 0 then
        (if - x \<ge> 2 ^ (w - 1) then Stray else Returns (CHR ''-'' # raw_digits (nat (- x)) []))
      else Returns (raw_digits (nat x) []))"

text \<open>The room for the text, \<open>static_cast<std::size_t>(bytes * 2.41) + 1 + 1\<close>.\<close>

definition max_digits :: "nat \<Rightarrow> nat" where
  "max_digits bytes = bytes * 241 div 100 + 1 + 1"

section \<open>The behaviour of a string of bounded size\<close>

datatype string_op =
  Assign_view string | Assign_fill nat char | Assign_string static_string | Assign_sub string nat nat
| Assign_range string | Assign_char char | Clear | Reserve nat
| Insert_view nat string | Insert_own nat nat nat | Insert_fill nat nat char | Insert_fill_at nat nat char
| Insert_range nat string | Insert_sub nat string nat nat
| Append_view string | Append_fill nat char | Append_range string | Append_sub string nat nat
| Append_view_sub string nat nat | Push_back char
| Erase nat nat | Erase_at nat | Erase_range nat nat | Pop_back | Resize nat | Resize_fill nat char


text \<open>The same operations of a \<open>std::string\<close> whose \<open>max_size()\<close> is \<open>N\<close>.\<close>

definition fit :: "nat \<Rightarrow> string \<Rightarrow> string outcome" where
  "fit N t = (if length t > N then Throws Length_error else Returns t)"

definition splice :: "nat \<Rightarrow> nat \<Rightarrow> string \<Rightarrow> string \<Rightarrow> string outcome" where
  "splice N i t s = (if i > length s then Throws Out_of_range else fit N (take i s @ t @ drop i s))"

definition cut :: "nat \<Rightarrow> nat \<Rightarrow> string \<Rightarrow> string outcome" where
  "cut i n s = (if i > length s then Throws Out_of_range else Returns (take i s @ drop (i + n) s))"

definition part :: "string \<Rightarrow> nat \<Rightarrow> nat \<Rightarrow> string outcome" where
  "part t p n = (if p > length t then Throws Out_of_range else Returns (take n (drop p t)))"

fun string_spec :: "nat \<Rightarrow> string_op \<Rightarrow> string \<Rightarrow> string outcome" where
  "string_spec N (Assign_view t) s = fit N t"
| "string_spec N (Assign_fill n c) s = fit N (replicate n c)"
| "string_spec N (Assign_string str) s = Returns (str_of str)"
| "string_spec N (Assign_sub t p n) s = and_then (part t p n) (fit N)"
| "string_spec N (Assign_range t) s = fit N t"
| "string_spec N (Assign_char c) s = fit N [c]"
| "string_spec N Clear s = Returns []"
| "string_spec N (Reserve n) s = (if n > N then Throws Length_error else Returns s)"
| "string_spec N (Insert_view i t) s = splice N i t s"
| "string_spec N (Insert_own i p n) s = splice N i (take n (drop p s)) s"
| "string_spec N (Insert_fill i n c) s = splice N i (replicate n c) s"
| "string_spec N (Insert_fill_at i n c) s = splice N i (replicate n c) s"
| "string_spec N (Insert_range i t) s = splice N i t s"
| "string_spec N (Insert_sub i t p n) s = and_then (part t p n) (\<lambda>t. splice N i t s)"
| "string_spec N (Append_view t) s = fit N (s @ t)"
| "string_spec N (Append_fill n c) s = fit N (s @ replicate n c)"
| "string_spec N (Append_range t) s = fit N (s @ t)"
| "string_spec N (Append_sub t p n) s = and_then (part t p n) (\<lambda>t. fit N (s @ t))"
| "string_spec N (Append_view_sub t p n) s = and_then (part t p n) (\<lambda>t. fit N (s @ t))"
| "string_spec N (Push_back c) s = fit N (s @ [c])"
| "string_spec N (Erase i n) s = cut i n s"
| "string_spec N (Erase_at i) s = cut i 1 s"
| "string_spec N (Erase_range i j) s = cut i (j - i) s"
| "string_spec N Pop_back s = (if s = [] then Stray else Returns (butlast s))"
| "string_spec N (Resize n) s = fit N (take n s @ replicate (n - length s) (CHR 0x00))"
| "string_spec N (Resize_fill n c) s = fit N (take n s @ replicate (n - length s) c)"

text \<open>
  Three operations differ from those of a \<open>std::string\<close> in some arguments.  Characters of the
  string itself that are to be inserted in front of themselves are read after they were moved:
  others are inserted, or the copy overlaps.  The empty part at the end of a static string is not
  appended but out of range.  And \<open>resize\<close> to a greater size does not fill the string, so
  what the array held there appears; \<open>arr\<close> is that array.
\<close>

definition string_result :: "nat \<Rightarrow> string \<Rightarrow> string_op \<Rightarrow> string \<Rightarrow> string outcome" where
  "string_result N arr op t =
     (case op of
        Insert_own i p n \<Rightarrow>
          if i \<le> length t \<and> length t + n \<le> N \<and> 0 < n \<and> i < p + n
          then if p < i + n then Stray else splice N i (take n (drop (p - n) t)) t
          else string_spec N op t
      | Append_sub u p n \<Rightarrow> if p = length u then Throws Out_of_range else string_spec N op t
      | Resize n \<Rightarrow> if length t < n \<and> n \<le> N then Returns (take n arr) else string_spec N op t
      | _ \<Rightarrow> string_spec N op t)"

text \<open>The size is within the array, which ends the string with a nul.\<close>

definition string_ok :: "static_string \<Rightarrow> bool" where
  "string_ok s \<longleftrightarrow> slen s < length (sbuf s) \<and> sbuf s ! slen s = CHR 0x00 \<and> length (sbuf s) \<le> 2 ^ 63"


text \<open>A state that represents the string \<open>t\<close> in an array for \<open>N\<close> characters.\<close>

definition holds :: "nat \<Rightarrow> string \<Rightarrow> static_string \<Rightarrow> bool" where
  "holds N t s \<longleftrightarrow> string_ok s \<and> max_size s = N \<and> str_of s = t"


fun refined :: "nat \<Rightarrow> static_string outcome \<Rightarrow> string outcome \<Rightarrow> bool" where
  "refined N (Returns s) (Returns t) \<longleftrightarrow> holds N t s"
| "refined N (Throws e) (Throws e') \<longleftrightarrow> e = e'"
| "refined N Stray Stray \<longleftrightarrow> True"
| "refined N _ _ \<longleftrightarrow> False"

lemma holdsD:
  assumes "holds N t s"
  shows "slen s = length t" "length (sbuf s) = Suc N" "length t \<le> N" "take (length t) (sbuf s) = t"
    "sbuf s ! length t = CHR 0x00" "max_size s = N" "N < 2 ^ 63"
  using assms by (auto simp: holds_def string_ok_def max_size_def str_of_def min_def)






lemma substr_part: "substr t p n = part t p n"
  by (auto simp: substr_def part_def get_chars_def min_def)






lemma refined_same: "holds N t s \<Longrightarrow> refined N (Returns s) (Returns t)"
  by simp


text \<open>Inserting: the characters after the index are moved up, then the gap is filled.\<close>

lemma move_up_outcome:
  "move_up i m s = Returns b \<Longrightarrow> length (sbuf b) = length (sbuf s)" "move_up i m s \<noteq> Throws e"
  by (auto simp: move_up_def move_chars_def get_chars_def put_chars_def split: if_splits)








lemma splice_end: "splice N (length s) t s = fit N (s @ t)"
  by (simp add: splice_def)












lemma fit_append: "refined N (f u) (splice N (length t) u t) = refined N (f u) (fit N (t @ u))"
  by (simp add: splice_end)






section \<open>Lexicographical order\<close>

lemma traits_compare_sym: "length s = length t \<Longrightarrow> traits_compare s t (length s) = - traits_compare t s (length s)"
  by (induction s t rule: list_induct2) auto

text \<open>The order of strings by their characters as unsigned numbers.\<close>

fun char_less :: "string \<Rightarrow> string \<Rightarrow> bool" where
  "char_less s [] \<longleftrightarrow> False"
| "char_less [] (b # t) \<longleftrightarrow> True"
| "char_less (a # s) (b # t) \<longleftrightarrow> uchar a < uchar b \<or> a = b \<and> char_less s t"

lemma lexicographical_compare_Cons:
  "lexicographical_compare (a # s) (b # t) =
    (if uchar a < uchar b then -1 else if uchar b < uchar a then 1 else lexicographical_compare s t)"
  by (auto simp: lexicographical_compare_def Let_def)

lemma traits_compare_Nil: "traits_compare [] t n = 0" "traits_compare s [] n = 0" "traits_compare s t 0 = 0"
  by (cases s; cases t; simp)+

lemma lexicographical_compare_correct:
  "lexicographical_compare s t = (if char_less s t then -1 else if s = t then 0 else 1)"
proof (induction s t rule: char_less.induct)
  case (3 a s b t)
  then show ?case
    by (auto simp: lexicographical_compare_Cons)
next
  case (1 s)
  then show ?case
    by (cases s) (simp_all add: lexicographical_compare_def traits_compare_Nil Let_def)
next
  case (2 b t)
  then show ?case
    by (simp add: lexicographical_compare_def traits_compare_Nil Let_def)
qed

section \<open>Decimal text\<close>

lemma uchar_digit: "d < 10 \<Longrightarrow> uchar (digit_char d) = 48 + d"
proof -
  have "list_all (\<lambda>d. uchar (digit_char d) = 48 + d) [0..<10]"
    by code_simp
  then show "d < 10 \<Longrightarrow> uchar (digit_char d) = 48 + d"
    by (auto simp: list_all_iff)
qed

lemma raw_digits_0 [simp]: "raw_digits 0 buf = buf"
  by (simp add: raw_digits.simps)

lemma raw_digits_append: "raw_digits x (buf @ r) = raw_digits x buf @ r"
proof (induction x buf rule: raw_digits.induct)
  case (1 x buf)
  then show ?case
    by (cases "x = 0") (simp_all add: raw_digits.simps [of x])
qed

lemma raw_digits_snoc: "x > 0 \<Longrightarrow> raw_digits x [] = raw_digits (x div 10) [] @ [digit_char (x mod 10)]"
  using raw_digits_append [of "x div 10" "[]" "[digit_char (x mod 10)]"] by (simp add: raw_digits.simps [of x])

lemma dec_value_Nil [simp]: "dec_value [] = 0"
  by (simp add: dec_value_def)

lemma dec_value_digits: "dec_value (raw_digits x []) = x"
proof (induction x rule: less_induct)
  case (less x)
  then show ?case
    by (cases "x = 0") (simp_all add: raw_digits_snoc dec_value_snoc uchar_digit)
qed

lemma raw_digits_chars: "c \<in> set (raw_digits x []) \<Longrightarrow> 48 \<le> uchar c \<and> uchar c \<le> 57"
proof (induction x rule: less_induct)
  case (less x)
  then show ?case
    using less.IH [of "x div 10"] by (cases "x = 0") (auto simp: raw_digits_snoc uchar_digit)
qed

lemma raw_digits_length: "x < 10 ^ k \<Longrightarrow> length (raw_digits x []) \<le> k"
proof (induction k arbitrary: x)
  case (Suc k)
  then show ?case
    using Suc.IH [of "x div 10"] by (cases "x = 0") (simp_all add: raw_digits_snoc less_mult_imp_div_less)
qed simp

lemma raw_digits_start: "x > 0 \<Longrightarrow> raw_digits x [] \<noteq> [] \<and> uchar (hd (raw_digits x [])) > 48"
proof (induction x rule: less_induct)
  case (less x)
  show ?case
  proof (cases "x < 10")
    case True
    then show ?thesis
      using less.prems by (simp add: raw_digits_snoc uchar_digit)
  next
    case False
    then have "raw_digits (x div 10) [] \<noteq> [] \<and> uchar (hd (raw_digits (x div 10) [])) > 48"
      by (intro less.IH) auto
    then show ?thesis
      using less.prems by (simp add: raw_digits_snoc)
  qed
qed

lemma raw_fits: "x < 2 ^ 64 \<Longrightarrow> length (raw_to_string_unsigned x) \<le> max_digits 8"
  using raw_digits_length [of x 20] by (simp add: raw_to_string_unsigned_def max_digits_def)

lemma raw_least: "raw_to_string_signed w (- (2 ^ (w - 1))) = Stray"
  by (simp add: raw_to_string_signed_def)

lemma dec_value_unsigned: "dec_value (raw_to_string_unsigned x) = x"
  by (simp add: raw_to_string_unsigned_def dec_value_digits) (simp add: dec_value_def uchar_def)

section \<open>Parts of strings\<close>



lemma insert_own_moved:
  "string_result 7 arr (Insert_own 0 2 1) ''abc'' = Returns ''babc''"
  "string_spec 7 (Insert_own 0 2 1) ''abc'' = Returns ''cabc''"
  by (simp_all add: string_result_def splice_def fit_def)

text \<open>The empty part at the end of a string: of a static string it is out of range, of a view not.\<close>

lemma append_end:
  "append_sub u (length u) n s = Throws Out_of_range"
  "append_view_sub u (length u) n s = append_view (Elsewhere []) s"
  by (simp_all add: append_sub_def append_view_sub_def insert_sub_def substr_part part_def append_view_def)

section \<open>Properties\<close>



text \<open>
  C39: the sum of the sizes in the test for room wraps, so an insertion of nearly \<open>2 ^ 64\<close>
  characters into a string that is not empty passes the test, which is there to throw
  \<open>length_error\<close>, and writes outside the array.
\<close>

theorem static_string_strays:
  assumes "holds N t s" "count < 2 ^ 64" "2 ^ 64 \<le> length t + count" "i \<le> length t"
  shows "insert_fill i count c s = Stray \<and> append_fill count c s = Stray"
proof -
  note h = holdsD [OF assms(1)]
  have "size_t (length t + count) = length t + count - 2 ^ 64"
    using assms(2,3) h(3,7) by (simp add: mod_if)
  then have room: "size_t (slen s + count) \<le> N"
    using assms(2) h(1,3) by simp
  have put: "put_chars j (replicate count c) b = Stray" if "length (sbuf b) = Suc N" for b j
    using that assms(3) h(3,7) by (simp add: put_chars_def)
  have "insert_fill_at j count c s = Stray" for j
    using room put move_up_outcome [of j count s] h(2,6) by (cases "move_up j count s") (auto simp: insert_fill_at_def)
  then show ?thesis
    using assms(4) h(1) by (simp add: insert_fill_def append_fill_def)
qed

theorem static_string_strays_witness:
  "insert_fill 0 (2 ^ 64 - 1) (CHR ''-'') \<lparr>sbuf = ''a'' @ replicate 7 (CHR 0x00), slen = 1\<rparr> = Stray"
proof -
  have h: "holds 7 ''a'' \<lparr>sbuf = ''a'' @ replicate 7 (CHR 0x00), slen = 1\<rparr>"
    by (simp add: holds_def string_ok_def max_size_def str_of_def)
  show ?thesis
    using static_string_strays [OF h, of "2 ^ 64 - 1" 0 "CHR ''-''"] by simp
qed

end
