(* ===== verification/Basic_Fields.thy ===== *)
theory Basic_Fields
  imports Static_String Http_Fields Rfc7230 "HOL-Library.Multiset"
begin

text \<open>
  The container of header fields, \<open>beast/http/fields.hpp\<close> and \<open>impl/fields.ipp\<close>.
  Every element is in two intrusive containers at once: \<open>set_\<close>, ordered by name, and
  \<open>list_\<close>, the order in which the fields are written.  The two are lists of elements; an
  element is known by its address.  The ordered container is Boost.Intrusive's: its searches are a
  parameter, with their documented results on a sorted sequence as a hypothesis.
\<close>

section \<open>Elements\<close>

record element =
  addr :: nat
  efield :: field
  ename :: string
  evalue :: string

record fields =
  f_set :: "element list"
  f_list :: "element list"
  f_method :: string
  f_target :: string
  heap_next :: nat

definition no_fields :: fields where
  "no_fields = \<lparr>f_set = [], f_list = [], f_method = [], f_target = [], heap_next = 0\<rparr>"

text \<open>\<open>key_compare\<close>, of two names.\<close>

definition key_less :: "string \<Rightarrow> string \<Rightarrow> bool" where
  "key_less l r = (if length l < length r then True else if length l > length r then False else iless l r)"

text \<open>
  The searches of the ordered container for a name: positions in the sequence, its length for the
  end.
\<close>

record searches =
  lower_bound :: "element list \<Rightarrow> string \<Rightarrow> nat"
  upper_bound :: "element list \<Rightarrow> string \<Rightarrow> nat"
  find_key :: "element list \<Rightarrow> string \<Rightarrow> nat"
  count_key :: "element list \<Rightarrow> string \<Rightarrow> nat"

definition key_sorted :: "element list \<Rightarrow> bool" where
  "key_sorted xs \<longleftrightarrow> sorted_wrt (\<lambda>a b. \<not> key_less (ename b) (ename a)) xs"

definition linear :: searches where
  "linear = \<lparr>lower_bound = \<lambda>xs k. length (takeWhile (\<lambda>e. key_less (ename e) k) xs),
     upper_bound = \<lambda>xs k. length (takeWhile (\<lambda>e. \<not> key_less k (ename e)) xs),
     find_key = \<lambda>xs k. length (takeWhile (\<lambda>e. key_less (ename e) k \<or> key_less k (ename e)) xs),
     count_key = \<lambda>xs k. length (filter (\<lambda>e. \<not> key_less (ename e) k \<and> \<not> key_less k (ename e)) xs)\<rparr>"

definition searches_ok :: "searches \<Rightarrow> bool" where
  "searches_ok K \<longleftrightarrow> (\<forall>xs k. key_sorted xs \<longrightarrow>
     lower_bound K xs k = lower_bound linear xs k \<and> upper_bound K xs k = upper_bound linear xs k \<and>
     find_key K xs k = find_key linear xs k \<and> count_key K xs k = count_key linear xs k)"

section \<open>Modifiers\<close>

definition new_element :: "field \<Rightarrow> string \<Rightarrow> string \<Rightarrow> fields \<Rightarrow> string_error + element \<times> fields" where
  "new_element name sname value f =
     (if length sname + 2 > 65535 then Inl Length_error
      else if length value + 2 > 65535 then Inl Length_error
      else Inr (\<lparr>addr = heap_next f, efield = name, ename = sname, evalue = trim value\<rparr>, f\<lparr>heap_next := heap_next f + 1\<rparr>))"

definition insert_before :: "nat \<Rightarrow> element \<Rightarrow> element list \<Rightarrow> element list" where
  "insert_before i e xs = take i xs @ e # drop i xs"

fun insert_after :: "nat \<Rightarrow> element \<Rightarrow> element list \<Rightarrow> element list" where
  "insert_after a e [] = []"
| "insert_after a e (x # xs) = (if addr x = a then x # e # xs else x # insert_after a e xs)"

fun unlink :: "nat \<Rightarrow> element list \<Rightarrow> element list" where
  "unlink a [] = []"
| "unlink a (x # xs) = (if addr x = a then xs else x # unlink a xs)"

definition insert_element :: "searches \<Rightarrow> field \<Rightarrow> string \<Rightarrow> string \<Rightarrow> fields \<Rightarrow> string_error + fields" where
  "insert_element K name sname value f =
     (case new_element name sname value f of
        Inl e \<Rightarrow> Inl e
      | Inr (e, f) \<Rightarrow>
          let before = upper_bound K (f_set f) sname in
          if before = 0 then
            Inr (f\<lparr>f_set := insert_before before e (f_set f), f_list := f_list f @ [e]\<rparr>)
          else let last = f_set f ! (before - 1) in
            if \<not> iequals sname (ename last) then
              Inr (f\<lparr>f_set := insert_before before e (f_set f), f_list := f_list f @ [e]\<rparr>)
            else
              Inr (f\<lparr>f_set := insert_before before e (f_set f), f_list := insert_after (addr last) e (f_list f)\<rparr>))"

definition insert_named :: "searches \<Rightarrow> string \<Rightarrow> string \<Rightarrow> fields \<Rightarrow> string_error + fields" where
  "insert_named K sname value f = insert_element K (string_to_field sname) sname value f"

definition insert_field :: "searches \<Rightarrow> field \<Rightarrow> string \<Rightarrow> fields \<Rightarrow> string_error + fields" where
  "insert_field K name value f = insert_element K name (field_to_string name) value f"

text \<open>The loop of \<open>set_element\<close> that removes the elements of the name, from a position on.\<close>

function erase_from :: "nat \<Rightarrow> string \<Rightarrow> element list \<Rightarrow> element list \<Rightarrow> element list \<times> element list" where
  "erase_from it name s l =
     (if it \<ge> length s \<or> \<not> iequals name (ename (s ! it)) then (s, l)
      else erase_from it name (unlink (addr (s ! it)) s) (unlink (addr (s ! it)) l))"
  by auto

lemma unlink_shorter: "x \<in> set xs \<Longrightarrow> length (unlink (addr x) xs) < length xs"
  by (induction xs) auto

termination erase_from
  by (relation "measure (\<lambda>(it, name, s, l). length s)") (auto intro: unlink_shorter)

declare erase_from.simps [simp del]

definition set_element :: "searches \<Rightarrow> element \<Rightarrow> fields \<Rightarrow> fields" where
  "set_element K e f =
     (let it = lower_bound K (f_set f) (ename e) in
      if it = length (f_set f) \<or> \<not> iequals (ename e) (ename (f_set f ! it)) then
        f\<lparr>f_set := insert_before it e (f_set f), f_list := f_list f @ [e]\<rparr>
      else case erase_from it (ename e) (f_set f) (f_list f) of
        (s, l) \<Rightarrow> f\<lparr>f_set := insert_before it e s, f_list := l @ [e]\<rparr>)"

definition set_named :: "searches \<Rightarrow> string \<Rightarrow> string \<Rightarrow> fields \<Rightarrow> string_error + fields" where
  "set_named K sname value f =
     (case new_element (string_to_field sname) sname value f of
        Inl e \<Rightarrow> Inl e | Inr (e, f) \<Rightarrow> Inr (set_element K e f))"

definition set_field :: "searches \<Rightarrow> field \<Rightarrow> string \<Rightarrow> fields \<Rightarrow> string_error + fields" where
  "set_field K name value f =
     (case new_element name (field_to_string name) value f of
        Inl e \<Rightarrow> Inl e | Inr (e, f) \<Rightarrow> Inr (set_element K e f))"

text \<open>
  \<open>erase_and_dispose\<close> removes the elements of the name from the set, in order, and each from
  the list; the result is their number.
\<close>

definition erase_named :: "searches \<Rightarrow> string \<Rightarrow> fields \<Rightarrow> nat \<times> fields" where
  "erase_named K name f =
     (let lo = lower_bound K (f_set f) name; hi = upper_bound K (f_set f) name;
          es = take (hi - lo) (drop lo (f_set f)) in
      (length es, f\<lparr>f_set := take lo (f_set f) @ drop hi (f_set f),
        f_list := fold (\<lambda>e l. unlink (addr e) l) es (f_list f)\<rparr>))"

definition erase_field :: "searches \<Rightarrow> field \<Rightarrow> fields \<Rightarrow> nat \<times> fields" where
  "erase_field K name f = erase_named K (field_to_string name) f"

definition erase_at :: "element \<Rightarrow> fields \<Rightarrow> fields" where
  "erase_at e f = f\<lparr>f_set := unlink (addr e) (f_set f), f_list := unlink (addr e) (f_list f)\<rparr>"

definition clear_fields :: "fields \<Rightarrow> fields" where
  "clear_fields f = f\<lparr>f_set := [], f_list := []\<rparr>"

section \<open>Lookup\<close>

definition count_named :: "searches \<Rightarrow> string \<Rightarrow> fields \<Rightarrow> nat" where
  "count_named K name f = count_key K (f_set f) name"

definition count_field :: "searches \<Rightarrow> field \<Rightarrow> fields \<Rightarrow> nat" where
  "count_field K name f = count_named K (field_to_string name) f"

definition find_named :: "searches \<Rightarrow> string \<Rightarrow> fields \<Rightarrow> element option" where
  "find_named K name f =
     (let it = find_key K (f_set f) name in if it = length (f_set f) then None else Some (f_set f ! it))"

definition find_field :: "searches \<Rightarrow> field \<Rightarrow> fields \<Rightarrow> element option" where
  "find_field K name f = find_named K (field_to_string name) f"

definition lookup_named :: "searches \<Rightarrow> string \<Rightarrow> fields \<Rightarrow> string" where
  "lookup_named K name f = (case find_named K name f of None \<Rightarrow> [] | Some e \<Rightarrow> evalue e)"

definition lookup :: "searches \<Rightarrow> field \<Rightarrow> fields \<Rightarrow> string" where
  "lookup K name f = lookup_named K (field_to_string name) f"

definition at_named :: "searches \<Rightarrow> string \<Rightarrow> fields \<Rightarrow> string_error + string" where
  "at_named K name f = (case find_named K name f of None \<Rightarrow> Inl Out_of_range | Some e \<Rightarrow> Inr (evalue e))"

text \<open>The elements that an \<open>equal_range\<close> goes through: in \<open>list_\<close>, from one to another.\<close>

fun list_range :: "nat \<Rightarrow> nat \<Rightarrow> element list \<Rightarrow> element list" where
  "list_range a b [] = []"
| "list_range a b (x # xs) =
     (if addr x = a then x # (if a = b then [] else takeWhile (\<lambda>y. addr y \<noteq> b) xs @
        take 1 (dropWhile (\<lambda>y. addr y \<noteq> b) xs))
      else list_range a b xs)"

definition equal_range :: "searches \<Rightarrow> string \<Rightarrow> fields \<Rightarrow> element list" where
  "equal_range K name f =
     (let lo = lower_bound K (f_set f) name; hi = upper_bound K (f_set f) name in
      if lo = hi then [] else list_range (addr (f_set f ! lo)) (addr (f_set f ! (hi - 1))) (f_list f))"

section \<open>Copies and the start line\<close>

definition realloc_target :: "string \<Rightarrow> string" where
  "realloc_target s = (if s = [] then [] else CHR '' '' # s)"

definition get_target :: "fields \<Rightarrow> string" where
  "get_target f = (if f_target f = [] then [] else tl (f_target f))"

fun insert_all :: "searches \<Rightarrow> element list \<Rightarrow> fields \<Rightarrow> string_error + fields" where
  "insert_all K [] f = Inr f"
| "insert_all K (e # es) f =
     (case insert_element K (efield e) (ename e) (evalue e) f of
        Inl er \<Rightarrow> Inl er | Inr f \<Rightarrow> insert_all K es f)"

definition copy_all :: "searches \<Rightarrow> fields \<Rightarrow> fields \<Rightarrow> string_error + fields" where
  "copy_all K other f =
     map_sum id (\<lambda>f. f\<lparr>f_method := f_method other, f_target := f_target other\<rparr>)
       (insert_all K (f_list other) f)"

definition clear_all :: "fields \<Rightarrow> fields" where
  "clear_all f = (clear_fields f)\<lparr>f_method := [], f_target := []\<rparr>"

definition copy_assign :: "searches \<Rightarrow> fields \<Rightarrow> fields \<Rightarrow> string_error + fields" where
  "copy_assign K other f = copy_all K other (clear_all f)"

section \<open>The order of names\<close>

abbreviation lower :: "string \<Rightarrow> string" where
  "lower s \<equiv> map ascii_tolower s"

abbreviation key :: "element \<Rightarrow> string" where
  "key e \<equiv> lower (ename e)"

lemma key_less_lower: "lower a = lower a' \<Longrightarrow> lower b = lower b' \<Longrightarrow> key_less a b = key_less a' b'"
  by (simp add: key_less_def iless_map flip: map_map) (metis length_map)

lemma key_less_equiv: "(\<not> key_less a b \<and> \<not> key_less b a) \<longleftrightarrow> lower a = lower b"
  using iless_equiv [of a b] by (auto simp: key_less_def iequals_iff dest: map_eq_imp_length_eq)

lemma key_less_trans: "key_less a b \<Longrightarrow> key_less b c \<Longrightarrow> key_less a c"
  using iless_trans [of a b c] by (auto simp: key_less_def split: if_splits)

lemma key_less_irrefl [simp]: "\<not> key_less a a"
  by (simp add: key_less_def)

lemma key_le_trans: "\<not> key_less b a \<Longrightarrow> \<not> key_less c b \<Longrightarrow> \<not> key_less c a"
  using key_less_equiv [of a b] key_less_trans [of c a b] key_less_lower [of c c a b] by blast

lemma key_le_less: "\<not> key_less b a \<Longrightarrow> key_less b c \<Longrightarrow> key_less a c"
  using key_less_equiv [of a b] key_less_trans [of a b c] key_less_lower [of a b c c] by blast

lemma key_less_le: "key_less a b \<Longrightarrow> \<not> key_less c b \<Longrightarrow> key_less a c"
  using key_less_equiv [of b c] key_less_trans [of a b c] key_less_lower [of a a b c] by blast

text \<open>A sorted sequence is the smaller, the equal and the greater elements.\<close>

abbreviation below :: "string \<Rightarrow> element list \<Rightarrow> element list" where
  "below k xs \<equiv> filter (\<lambda>e. key_less (ename e) k) xs"

abbreviation equal :: "string \<Rightarrow> element list \<Rightarrow> element list" where
  "equal k xs \<equiv> filter (\<lambda>e. key e = lower k) xs"

abbreviation above :: "string \<Rightarrow> element list \<Rightarrow> element list" where
  "above k xs \<equiv> filter (\<lambda>e. key_less k (ename e)) xs"

lemma sorted_split: "key_sorted xs \<Longrightarrow> xs = below k xs @ equal k xs @ above k xs"
proof (induction xs)
  case (Cons x xs)
  have x: "\<not> key_less (ename y) (ename x)" if "y \<in> set xs" for y
    using Cons.prems that by (simp add: key_sorted_def)
  have IH: "xs = below k xs @ equal k xs @ above k xs"
    using Cons by (simp add: key_sorted_def)
  consider "key_less (ename x) k" | "key x = lower k" | "key_less k (ename x)"
    using key_less_equiv [of "ename x" k] by auto
  then show ?case
  proof cases
    case 1
    then have "\<not> key_less k (ename x)" "key x \<noteq> lower k"
      using key_less_equiv [of "ename x" k] key_less_trans [of k "ename x" k] by auto
    then show ?thesis
      using 1 IH by simp
  next
    case 2
    then have "\<not> key_less k (ename x)" "\<not> key_less (ename x) k"
      using key_less_equiv [of "ename x" k] by auto
    moreover have "\<not> key_less (ename y) k" if "y \<in> set xs" for y
      using x [OF that] 2 key_less_lower [of "ename y" "ename y" "ename x" k] by simp
    then have "below k xs = []"
      by (simp add: filter_empty_conv)
    ultimately show ?thesis
      using 2 IH by simp
  next
    case 3
    have "key_less k (ename y)" if "y \<in> set xs" for y
      using key_less_le [OF 3 x [OF that]] .
    then have "\<not> key_less (ename y) k \<and> key y \<noteq> lower k" if "y \<in> set xs" for y
      using that key_less_trans [of k "ename y" k] key_less_equiv [of "ename y" k] by auto
    then have "below k xs = []" "equal k xs = []"
      by (auto simp: filter_empty_conv)
    moreover have "\<not> key_less (ename x) k" "key x \<noteq> lower k"
      using 3 key_less_trans [of k "ename x" k] key_less_equiv [of "ename x" k] by auto
    ultimately show ?thesis
      using 3 IH by simp
  qed
qed simp

lemma key_cases:
  "key_less (ename e) k \<Longrightarrow> key e \<noteq> lower k \<and> \<not> key_less k (ename e)"
  "key e = lower k \<Longrightarrow> \<not> key_less (ename e) k \<and> \<not> key_less k (ename e)"
  "key_less k (ename e) \<Longrightarrow> key e \<noteq> lower k \<and> \<not> key_less (ename e) k"
  using key_less_equiv [of "ename e" k] key_less_trans [of k "ename e" k] by auto

lemma takeWhile_front:
  assumes "list_all P a" "b \<noteq> [] \<Longrightarrow> \<not> P (hd b)"
  shows "takeWhile P (a @ b) = a"
  using assms by (induction a) (cases b; simp)+

lemma linear_positions:
  assumes "key_sorted xs"
  shows "lower_bound linear xs k = length (below k xs)"
    "upper_bound linear xs k = length (below k xs) + length (equal k xs)"
    "find_key linear xs k = (if equal k xs = [] then length xs else length (below k xs))"
    "count_key linear xs k = length (equal k xs)"
proof -
  let ?A = "below k xs" and ?B = "equal k xs" and ?C = "above k xs"
  note s = sorted_split [OF assms, of k]
  have hd_in: "hd ys \<in> set ys" if "ys \<noteq> []" for ys :: "element list"
    using that by simp
  have B: "\<And>e. e \<in> set ?B \<Longrightarrow> key e = lower k" and C: "\<And>e. e \<in> set ?C \<Longrightarrow> key_less k (ename e)"
    by simp_all
  have 1: "takeWhile (\<lambda>e. key_less (ename e) k) (?A @ ?B @ ?C) = ?A"
    using hd_in [of "?B @ ?C"] by (intro takeWhile_front) (auto simp: list_all_iff dest: key_cases)
  have 2: "takeWhile (\<lambda>e. \<not> key_less k (ename e)) ((?A @ ?B) @ ?C) = ?A @ ?B"
    using hd_in [of ?C] by (intro takeWhile_front) (auto simp: list_all_iff dest: key_cases)
  have 3: "takeWhile (\<lambda>e. key_less (ename e) k \<or> key_less k (ename e)) (?A @ ?B @ ?C) =
      (if ?B = [] then ?A @ ?C else ?A)"
  proof (cases "?B = []")
    case True
    then show ?thesis
      using takeWhile_front [of "\<lambda>e. key_less (ename e) k \<or> key_less k (ename e)" "?A @ ?C" "[]"]
      by (auto simp: list_all_iff)
  next
    case False
    then have "hd (?B @ ?C) \<in> set ?B"
      using hd_in [of ?B] by simp
    then have "\<not> (key_less (ename (hd (?B @ ?C))) k \<or> key_less k (ename (hd (?B @ ?C))))"
      using key_cases(2) B by blast
    then show ?thesis
      using False by (subst takeWhile_front) (auto simp: list_all_iff)
  qed
  have len: "length xs = length ?A + length ?B + length ?C"
    using s by (metis add.assoc length_append)
  have tw: "takeWhile P xs = takeWhile P (?A @ ?B @ ?C)" for P
    using s by (rule arg_cong)
  show "lower_bound linear xs k = length (below k xs)"
    using 1 tw by (simp add: linear_def)
  show "upper_bound linear xs k = length (below k xs) + length (equal k xs)"
    using 2 tw by (simp add: linear_def)
  show "find_key linear xs k = (if equal k xs = [] then length xs else length (below k xs))"
    using 3 tw len by (simp add: linear_def)
  show "count_key linear xs k = length (equal k xs)"
    unfolding linear_def searches.simps key_less_equiv ..
qed

text \<open>Replacing the elements of a name.\<close>

lemma replace_sorted:
  assumes "key_sorted xs" "\<forall>e\<in>set ys. key e = lower k"
  shows "key_sorted (below k xs @ ys @ above k xs)"
proof -
  have s: "key_sorted (below k xs)" "key_sorted (above k xs)"
    using assms(1) by (simp_all add: key_sorted_def sorted_wrt_filter)
  have "\<not> key_less (ename b) (ename a)" if "a \<in> set ys" "b \<in> set ys" for a b
    using assms(2) that key_less_equiv [of "ename b" "ename a"] by simp
  then have "key_sorted ys"
    by (induction ys) (simp_all add: key_sorted_def)
  moreover have "\<forall>a\<in>set (below k xs). \<forall>b\<in>set ys. \<not> key_less (ename b) (ename a)"
    using assms(2) key_less_trans [of _ _ k] key_less_equiv [of _ k] by (metis (mono_tags, lifting) set_filter mem_Collect_eq)
  moreover have "\<forall>a\<in>set ys. \<forall>b\<in>set (above k xs). \<not> key_less (ename b) (ename a)"
    using assms(2) key_less_trans [of k] key_less_equiv [of _ k] by (metis (mono_tags, lifting) set_filter mem_Collect_eq)
  moreover have "\<forall>a\<in>set (below k xs). \<forall>b\<in>set (above k xs). \<not> key_less (ename b) (ename a)"
    using key_less_trans key_less_irrefl by (metis (mono_tags, lifting) set_filter mem_Collect_eq)
  ultimately show ?thesis
    using s by (auto simp: key_sorted_def sorted_wrt_append simp del: filter_set set_filter)
qed

lemma replace_equal:
  assumes "key_sorted xs" "\<forall>e\<in>set ys. key e = lower k"
  shows "equal k' (below k xs @ ys @ above k xs) = (if lower k' = lower k then ys else equal k' xs)"
proof (cases "lower k' = lower k")
  case True
  have "equal k (below k xs) = []" "equal k (above k xs) = []" "equal k ys = ys"
    using assms(2) by (auto simp: filter_empty_conv filter_id_conv dest: key_cases)
  then show ?thesis
    using True by simp
next
  case False
  have "equal k' ys = []" "equal k' (equal k xs) = []"
    using False assms(2) by (auto simp: filter_empty_conv)
  then show ?thesis
    using False arg_cong [OF sorted_split [OF assms(1), of k], of "equal k'"] by simp
qed

lemma insert_before_at: "insert_before (length a) e (a @ b) = a @ e # b"
  by (simp add: insert_before_def)

section \<open>The invariant\<close>

definition element_ok :: "element \<Rightarrow> bool" where
  "element_ok e \<longleftrightarrow> length (ename e) \<le> 65533 \<and> length (evalue e) \<le> 65533 \<and> trim (evalue e) = evalue e"

text \<open>
  The two containers hold the same elements; those of a name are in the same order in both and next
  to each other in both.
\<close>

definition fields_inv :: "fields \<Rightarrow> bool" where
  "fields_inv f \<longleftrightarrow> key_sorted (f_set f) \<and> distinct (map addr (f_list f)) \<and>
     (\<forall>k. equal k (f_set f) = equal k (f_list f)) \<and>
     (\<forall>e\<in>set (f_list f). addr e < heap_next f \<and> element_ok e) \<and>
     distinct (remdups_adj (map key (f_list f)))"

definition pairs :: "element list \<Rightarrow> (string \<times> string) list" where
  "pairs xs = map (\<lambda>e. (ename e, evalue e)) xs"

text \<open>The container holds the fields, in this order.\<close>

definition holds_fields :: "fields \<Rightarrow> (string \<times> string) list \<Rightarrow> bool" where
  "holds_fields f xs \<longleftrightarrow> fields_inv f \<and> pairs (f_list f) = xs"

lemma same_elements:
  assumes "\<forall>k. equal k s = equal k l"
  shows "mset s = mset l"
proof (rule multiset_eqI)
  fix e
  have c: "count (mset xs) e = count (mset (equal (ename e) xs)) e" for xs
    by (simp only: mset_filter count_filter_mset) simp
  show "count (mset s) e = count (mset l) e"
    using c assms by metis
qed

lemma fields_invD:
  assumes "fields_inv f"
  shows "key_sorted (f_set f)" "distinct (map addr (f_list f))"
    "equal k (f_set f) = equal k (f_list f)" "e \<in> set (f_list f) \<Longrightarrow> addr e < heap_next f \<and> element_ok e"
    "distinct (remdups_adj (map key (f_list f)))" "mset (f_set f) = mset (f_list f)"
  using assms same_elements [of "f_set f" "f_list f"] unfolding fields_inv_def by blast+

lemma set_distinct:
  assumes "fields_inv f"
  shows "set (f_set f) = set (f_list f)" "distinct (map addr (f_set f))"
proof -
  note m = fields_invD(6) [OF assms]
  show "set (f_set f) = set (f_list f)"
    using mset_eq_setD [OF m] .
  have "mset (map addr (f_set f)) = mset (map addr (f_list f))"
    using m by simp
  then show "distinct (map addr (f_set f))"
    using fields_invD(2) [OF assms] mset_eq_imp_distinct_iff by blast
qed

section \<open>Runs of equal names\<close>

lemma remdups_adj_snoc: "remdups_adj (ks @ [k]) = (if ks \<noteq> [] \<and> last ks = k then remdups_adj ks else remdups_adj ks @ [k])"
  by (induction ks rule: remdups_adj.induct) auto

lemma remdups_adj_twice: "remdups_adj (ks @ k # k # ls) = remdups_adj (ks @ k # ls)"
  by (induction ks rule: remdups_adj.induct) auto

lemma runs_snoc: "distinct (remdups_adj ks) \<Longrightarrow> k \<notin> set ks \<Longrightarrow> distinct (remdups_adj (ks @ [k]))"
  by (auto simp: remdups_adj_snoc)

lemma runs_Cons: "distinct (remdups_adj (k # ks)) \<longleftrightarrow> distinct (remdups_adj ks) \<and> (k \<in> set ks \<longrightarrow> hd ks = k)"
  by (cases ks) auto

lemma runs_filter: "distinct (remdups_adj ks) \<Longrightarrow> distinct (remdups_adj (filter P ks))"
proof (induction ks)
  case (Cons k ks)
  have IH: "distinct (remdups_adj (filter P ks))"
    using Cons by (simp only: runs_Cons)
  have "k \<in> set (filter P ks) \<longrightarrow> hd (filter P ks) = k" if "P k"
    using Cons.prems that by (cases ks) (auto simp: runs_Cons simp del: remdups_adj.simps)
  then show ?case
    using IH by (auto simp: runs_Cons simp del: remdups_adj.simps)
qed simp

text \<open>The elements of a name are one block of the list.\<close>

lemma runs_block:
  assumes "distinct (remdups_adj (map f xs))"
  obtains a b where "xs = a @ filter (\<lambda>x. f x = k) xs @ b" "k \<notin> f ` set a" "k \<notin> f ` set b"
proof -
  have "\<exists>a b. xs = a @ filter (\<lambda>x. f x = k) xs @ b \<and> k \<notin> f ` set a \<and> k \<notin> f ` set b"
    using assms
  proof (induction xs)
    case (Cons x xs)
    then have "distinct (remdups_adj (f x # map f xs))"
      by (simp only: list.map)
    then have r: "distinct (remdups_adj (map f xs)) \<and> (f x \<in> set (map f xs) \<longrightarrow> hd (map f xs) = f x)"
      unfolding runs_Cons .
    then have runs: "distinct (remdups_adj (map f xs))" "f x \<in> f ` set xs \<Longrightarrow> f (hd xs) = f x"
      by blast (use r in \<open>cases xs; simp\<close>)
    obtain a b where ab: "xs = a @ filter (\<lambda>x. f x = k) xs @ b" "k \<notin> f ` set a" "k \<notin> f ` set b"
      using Cons.IH runs(1) by blast
    show ?case
    proof (cases "f x = k")
      case False
      then show ?thesis
        using ab by (intro exI [of _ "x # a"] exI [of _ b]) simp
    next
      case True
      have "a = [] \<or> filter (\<lambda>x. f x = k) xs = []"
      proof (rule ccontr)
        assume *: "\<not> ?thesis"
        then have "k \<in> f ` set xs"
          by (auto simp: filter_empty_conv)
        then have "f (hd xs) = k"
          using runs(2) True by simp
        moreover have "hd xs \<in> set a"
          using * ab(1) by (metis hd_append2 hd_in_set)
        ultimately show False
          using ab(2) by auto
      qed
      then show ?thesis
      proof
        assume "a = []"
        then show ?thesis
          using ab True by (intro exI [of _ "[]"] exI [of _ b]) simp
      next
        assume *: "filter (\<lambda>x. f x = k) xs = []"
        then show ?thesis
          using True by (intro exI [of _ "[]"] exI [of _ xs]) (auto simp: filter_empty_conv)
      qed
    qed
  qed simp
  then show thesis
    using that by blast
qed

section \<open>The operations on the fields in their order\<close>

text \<open>
  What the operations do to the list of names and values: a new field goes behind the last one of
  its name, or to the end.
\<close>

fun add_field :: "string \<Rightarrow> string \<Rightarrow> (string \<times> string) list \<Rightarrow> (string \<times> string) list" where
  "add_field n v [] = [(n, v)]"
| "add_field n v (x # xs) =
     (if lower (fst x) = lower n \<and> list_all (\<lambda>y. lower (fst y) \<noteq> lower n) xs then x # (n, v) # xs
      else x # add_field n v xs)"

definition drop_fields :: "string \<Rightarrow> (string \<times> string) list \<Rightarrow> (string \<times> string) list" where
  "drop_fields n xs = filter (\<lambda>x. lower (fst x) \<noteq> lower n) xs"

definition put_field :: "string \<Rightarrow> string \<Rightarrow> (string \<times> string) list \<Rightarrow> (string \<times> string) list" where
  "put_field n v xs = drop_fields n xs @ [(n, v)]"

definition values_of :: "string \<Rightarrow> (string \<times> string) list \<Rightarrow> string list" where
  "values_of n xs = map snd (filter (\<lambda>x. lower (fst x) = lower n) xs)"

definition field_fits :: "string \<Rightarrow> string \<Rightarrow> bool" where
  "field_fits n v \<longleftrightarrow> length n + 2 \<le> 65535 \<and> length v + 2 \<le> 65535"

lemma add_field_absent: "list_all (\<lambda>x. lower (fst x) \<noteq> lower n) xs \<Longrightarrow> add_field n v xs = xs @ [(n, v)]"
  by (induction xs) auto

lemma add_field_last:
  "lower (fst x) = lower n \<Longrightarrow> list_all (\<lambda>y. lower (fst y) \<noteq> lower n) b \<Longrightarrow> add_field n v (a @ x # b) = a @ x # (n, v) # b"
  by (induction a) auto

lemma insert_after_at: "addr z \<notin> addr ` set a \<Longrightarrow> insert_after (addr z) e (a @ z # b) = a @ z # e # b"
  by (induction a) auto

lemma unlink_at: "addr z \<notin> addr ` set a \<Longrightarrow> unlink (addr z) (a @ z # b) = a @ b"
  by (induction a) auto

lemma pairs_simps [simp]: "pairs [] = []" "pairs (e # es) = (ename e, evalue e) # pairs es" "pairs (a @ b) = pairs a @ pairs b"
  by (simp_all add: pairs_def)

lemma values_pairs: "values_of n (pairs xs) = map evalue (equal n xs)"
  by (simp add: values_of_def pairs_def filter_map comp_def)

lemma drop_pairs: "drop_fields n (pairs xs) = pairs (filter (\<lambda>e. key e \<noteq> lower n) xs)"
  by (simp add: drop_fields_def pairs_def filter_map comp_def)

lemma pairs_absent: "equal n xs = [] \<Longrightarrow> list_all (\<lambda>x. lower (fst x) \<noteq> lower n) (pairs xs)"
  by (auto simp: pairs_def list_all_iff filter_empty_conv)

text \<open>Skipping white space is trimming; trimming twice is trimming once.\<close>

lemma skip_ows_fix: "s = [] \<or> \<not> is_ows (hd s) \<Longrightarrow> skip_ows s = s"
  by (cases s) auto

lemma skip_ows_hd: "skip_ows s = [] \<or> \<not> is_ows (hd (skip_ows s))"
  by (induction s) auto

lemma skip_ows_rev_last: "skip_ows_rev s = [] \<or> \<not> is_ows (last (skip_ows_rev s))"
proof (induction s rule: skip_ows_rev.induct)
  case (1 s)
  then show ?case
    by (cases "s = [] \<or> \<not> is_ows (last s)") (auto simp: skip_ows_rev.simps [of s])
qed

lemma skip_ows_rev_prefix: "\<exists>t. s = skip_ows_rev s @ t"
proof (induction s rule: skip_ows_rev.induct)
  case (1 s)
  show ?case
  proof (cases "s = [] \<or> \<not> is_ows (last s)")
    case True
    then show ?thesis
      by (auto simp: skip_ows_rev.simps [of s])
  next
    case False
    then obtain t where "butlast s = skip_ows_rev (butlast s) @ t"
      using 1 by auto
    then have "s = skip_ows_rev (butlast s) @ t @ [last s]"
      using False by (metis append.assoc append_butlast_last_id)
    then show ?thesis
      using False by (auto simp: skip_ows_rev.simps [of s])
  qed
qed

lemma trim_trim [simp]: "trim (trim s) = trim s"
proof -
  obtain t where t: "skip_ows s = trim s @ t"
    using skip_ows_rev_prefix [of "skip_ows s"] by (auto simp: trim_def)
  have "trim s = [] \<or> \<not> is_ows (hd (trim s))"
    using skip_ows_hd [of s] t by (cases "trim s") auto
  moreover have "trim s = [] \<or> \<not> is_ows (last (trim s))"
    using skip_ows_rev_last by (simp add: trim_def)
  moreover have "skip_ows (trim s) = trim s"
    using calculation(1) by (rule skip_ows_fix)
  ultimately show ?thesis
    unfolding trim_def [of "trim s"] using skip_ows_rev.simps [of "trim s"] by metis
qed

lemma trim_length: "length (trim s) \<le> length s"
proof -
  obtain t where "skip_ows s = trim s @ t"
    using skip_ows_rev_prefix [of "skip_ows s"] by (auto simp: trim_def)
  then have "length (trim s) \<le> length (skip_ows s)"
    by simp
  then show ?thesis
    using length_skip_ows [of s] by simp
qed

text \<open>The invariant after the elements of one name have been replaced.\<close>

lemma fields_inv_replace:
  assumes "fields_inv f" "f_set f' = below n (f_set f) @ ys @ above n (f_set f)" "\<forall>e\<in>set ys. key e = lower n"
    "equal n (f_list f') = ys" "\<forall>k. lower k \<noteq> lower n \<longrightarrow> equal k (f_list f') = equal k (f_list f)"
    "distinct (map addr (f_list f'))" "\<forall>e\<in>set (f_list f'). addr e < heap_next f' \<and> element_ok e"
    "distinct (remdups_adj (map key (f_list f')))"
  shows "fields_inv f'"
proof -
  note i = fields_invD [OF assms(1)]
  have s: "key_sorted (f_set f')"
    unfolding assms(2) by (rule replace_sorted [OF i(1) assms(3)])
  have eq: "equal k (f_set f') = equal k (f_list f')" for k
  proof (cases "lower k = lower n")
    case True
    then have "equal k (f_list f') = ys"
      using assms(4) by simp
    then show ?thesis
      unfolding assms(2) replace_equal [OF i(1) assms(3)] using True by simp
  next
    case False
    then show ?thesis
      unfolding assms(2) replace_equal [OF i(1) assms(3)] using assms(5) i(3) by simp
  qed
  show ?thesis
    using s eq assms(6,7,8) by (simp add: fields_inv_def)
qed

lemma positions:
  assumes "searches_ok K" "fields_inv f"
  shows "lower_bound K (f_set f) k = length (below k (f_set f))"
    "upper_bound K (f_set f) k = length (below k (f_set f)) + length (equal k (f_list f))"
    "find_key K (f_set f) k = (if equal k (f_list f) = [] then length (f_set f) else length (below k (f_set f)))"
    "count_key K (f_set f) k = length (equal k (f_list f))"
    "f_set f = below k (f_set f) @ equal k (f_list f) @ above k (f_set f)"
proof -
  note eq = fields_invD(3) [OF assms(2), of k]
  have "lower_bound K (f_set f) k = lower_bound linear (f_set f) k" "upper_bound K (f_set f) k = upper_bound linear (f_set f) k"
    "find_key K (f_set f) k = find_key linear (f_set f) k" "count_key K (f_set f) k = count_key linear (f_set f) k"
    using assms(1) [unfolded searches_ok_def, rule_format, OF fields_invD(1) [OF assms(2)]] by simp_all
  then show "lower_bound K (f_set f) k = length (below k (f_set f))"
    "upper_bound K (f_set f) k = length (below k (f_set f)) + length (equal k (f_list f))"
    "find_key K (f_set f) k = (if equal k (f_list f) = [] then length (f_set f) else length (below k (f_set f)))"
    "count_key K (f_set f) k = length (equal k (f_list f))"
    unfolding linear_positions [OF fields_invD(1) [OF assms(2)]] eq by blast+
  show "f_set f = below k (f_set f) @ equal k (f_list f) @ above k (f_set f)"
    using sorted_split [OF fields_invD(1) [OF assms(2)], of k] unfolding eq .
qed

lemma block:
  assumes "fields_inv f"
  obtains a b where "f_list f = a @ equal k (f_list f) @ b" "lower k \<notin> key ` set a" "lower k \<notin> key ` set b"
  using runs_block [OF fields_invD(5) [OF assms], of "lower k"] by blast

lemma fresh_element:
  assumes "fields_inv f"
  shows "heap_next f \<notin> addr ` set (f_list f)"
proof
  assume "heap_next f \<in> addr ` set (f_list f)"
  then obtain e where e: "e \<in> set (f_list f)" "addr e = heap_next f"
    by auto
  then show False
    using fields_invD(4) [OF assms e(1)] by simp
qed

lemma field_fits_ok: "field_fits n v \<Longrightarrow> element_ok \<lparr>addr = a, efield = fd, ename = n, evalue = trim v\<rparr>"
  using trim_length [of v] by (simp add: field_fits_def element_ok_def)

lemma new_element_eq:
  "new_element fd n v f =
    (if field_fits n v then Inr (\<lparr>addr = heap_next f, efield = fd, ename = n, evalue = trim v\<rparr>, f\<lparr>heap_next := heap_next f + 1\<rparr>)
     else Inl Length_error)"
  by (auto simp: new_element_def field_fits_def)

lemma nth_end: "i = length a \<Longrightarrow> (a @ x # b) ! i = x"
  by simp

text \<open>An element goes to its place: the state after \<open>insert\<close>.\<close>

lemma insert_element_step:
  assumes "searches_ok K" "fields_inv f" "field_fits n v"
  shows "\<exists>f'. insert_element K fd n v f = Inr f' \<and> fields_inv f' \<and>
    pairs (f_list f') = add_field n (trim v) (pairs (f_list f)) \<and>
    f_method f' = f_method f \<and> f_target f' = f_target f"
proof -
  let ?e = "\<lparr>addr = heap_next f, efield = fd, ename = n, evalue = trim v\<rparr>"
  let ?A = "below n (f_set f)" and ?B = "equal n (f_list f)" and ?C = "above n (f_set f)"
  note p = positions [OF assms(1,2), of n] and i = fields_invD [OF assms(2)]
  note fresh = fresh_element [OF assms(2)]
  have set': "insert_before (length ?A + length ?B) ?e (f_set f) = ?A @ (?B @ [?e]) @ ?C"
    using insert_before_at [of "?A @ ?B" ?e ?C] p(5) by (metis append.assoc append_Cons append_Nil length_append)
  define put where "put l = f\<lparr>heap_next := heap_next f + 1, f_set := ?A @ (?B @ [?e]) @ ?C, f_list := l\<rparr>" for l
  have ok: "\<forall>x\<in>insert ?e (set (f_list f)). addr x < heap_next f + 1 \<and> element_ok x"
    using i(4) field_fits_ok [OF assms(3)] by (auto simp: less_Suc_eq)
  show ?thesis
  proof (cases "?B = []")
    case True
    have other: "\<not> iequals n (ename (f_set f ! (length ?A - 1)))" if "?A \<noteq> []"
    proof -
      have "f_set f ! (length ?A - 1) = last ?A"
        using that p(5) by (metis diff_less last_conv_nth length_greater_0_conv nth_append zero_less_one)
      moreover have "last ?A \<in> set ?A"
        using that by (rule last_in_set)
      ultimately show ?thesis
        using key_cases(1) [where e = "last ?A" and k = n] by (auto simp: iequals_iff)
    qed
    have "insert_element K fd n v f = Inr (put (f_list f @ [?e]))"
    proof (cases "?A = []")
      case True
      then show ?thesis
        using assms(3) p(2) set' \<open>?B = []\<close> by (simp add: insert_element_def new_element_eq put_def Let_def)
    next
      case False
      then show ?thesis
        using assms(3) p(2) set' \<open>?B = []\<close> other [OF False]
        by (simp add: insert_element_def new_element_eq put_def Let_def)
    qed
    moreover have "fields_inv (put (f_list f @ [?e]))"
    proof (rule fields_inv_replace [OF assms(2), of _ n "?B @ [?e]"])
      have "lower n \<notin> set (map key (f_list f))"
        using True by (auto simp: filter_empty_conv)
      then show "distinct (remdups_adj (map key (f_list (put (f_list f @ [?e])))))"
        using runs_snoc [OF i(5), of "lower n"] by (simp add: put_def)
      show "distinct (map addr (f_list (put (f_list f @ [?e]))))"
        using fresh i(2) by (simp add: put_def)
    qed (use True ok in \<open>auto simp: put_def\<close>)
    moreover have "pairs (f_list (put (f_list f @ [?e]))) = add_field n (trim v) (pairs (f_list f))"
      using add_field_absent [OF pairs_absent [OF True]] by (simp add: put_def)
    moreover have "f_method (put l) = f_method f" "f_target (put l) = f_target f" for l
      by (simp_all add: put_def)
    ultimately show ?thesis
      by blast
  next
    case False
    then obtain B z where B: "?B = B @ [z]"
      by (metis rev_exhaust)
    obtain a b where ab: "f_list f = a @ ?B @ b" "lower n \<notin> key ` set a" "lower n \<notin> key ` set b"
      using block [OF assms(2)] by blast
    then have l: "f_list f = (a @ B) @ z # b"
      using B by simp
    have "\<forall>e\<in>set ?B. key e = lower n"
      by simp
    then have Bz: "\<forall>e\<in>set (B @ [z]). key e = lower n"
      unfolding B .
    then have z: "key z = lower n"
      by simp
    have "f_set f = (?A @ B) @ z # ?C"
      using p(5) B by simp
    then have nth: "f_set f ! (length ?A + length B) = z"
      by (metis length_append nth_append_length)
    have after: "insert_after (addr z) ?e (f_list f) = (a @ B) @ z # ?e # b"
      unfolding l by (rule insert_after_at) (use i(2) l in auto)
    have "insert_element K fd n v f = Inr (put ((a @ B) @ z # ?e # b))"
      using assms(3) p(2) set' nth after z
      by (simp add: insert_element_def new_element_eq put_def Let_def B iequals_iff)
    moreover have "fields_inv (put ((a @ B) @ z # ?e # b))"
    proof (rule fields_inv_replace [OF assms(2), of _ n "?B @ [?e]"])
      have "equal n a = []" "equal n b = []"
        unfolding filter_empty_conv using ab(2,3) by (metis image_eqI)+
      moreover have "equal n ?B = ?B"
        by simp
      ultimately show "equal n (f_list (put ((a @ B) @ z # ?e # b))) = ?B @ [?e]"
        using B z by (simp add: put_def)
      show "distinct (remdups_adj (map key (f_list (put ((a @ B) @ z # ?e # b)))))"
        using i(5) z remdups_adj_twice [of "map key (a @ B)" "lower n" "map key b"] by (simp add: put_def l)
      show "distinct (map addr (f_list (put ((a @ B) @ z # ?e # b))))"
        using fresh i(2) by (auto simp: put_def l)
      show "\<forall>k. lower k \<noteq> lower n \<longrightarrow> equal k (f_list (put ((a @ B) @ z # ?e # b))) = equal k (f_list f)"
        by (simp add: put_def l)
      show "\<forall>x\<in>set (f_list (put ((a @ B) @ z # ?e # b))). addr x < heap_next (put ((a @ B) @ z # ?e # b)) \<and> element_ok x"
        using ok by (auto simp: put_def l)
    qed (use B Bz in \<open>simp_all add: put_def\<close>)
    moreover have "pairs (f_list (put ((a @ B) @ z # ?e # b))) = add_field n (trim v) (pairs (f_list f))"
    proof -
      have "\<forall>y\<in>set b. key y \<noteq> lower n"
        using ab(3) by (metis image_eqI)
      then show ?thesis
        using add_field_last [of "(ename z, evalue z)" n "pairs b" "trim v" "pairs (a @ B)"] z
        by (simp add: put_def l pairs_def list_all_iff)
    qed
    moreover have "f_method (put l) = f_method f" "f_target (put l) = f_target f" for l
      by (simp_all add: put_def)
    ultimately show ?thesis
      by blast
  qed
qed

text \<open>Removing the elements of a name, one at a time.\<close>

lemma unlink_middle:
  "distinct (map addr (a @ B @ b)) \<Longrightarrow> fold (\<lambda>e l. unlink (addr e) l) B (a @ B @ b) = a @ b"
proof (induction B)
  case (Cons x B)
  have "unlink (addr x) (a @ x # B @ b) = a @ B @ b"
    using Cons.prems by (intro unlink_at) auto
  then show ?case
    using Cons by simp
qed simp

lemma unlink_name:
  assumes "fields_inv f"
  shows "fold (\<lambda>e l. unlink (addr e) l) (equal n (f_list f)) (f_list f) = filter (\<lambda>e. key e \<noteq> lower n) (f_list f)"
proof -
  obtain a b where ab: "f_list f = a @ equal n (f_list f) @ b" "lower n \<notin> key ` set a" "lower n \<notin> key ` set b"
    using block [OF assms] by blast
  define B where "B = equal n (f_list f)"
  have "filter (\<lambda>e. key e \<noteq> lower n) a = a" "filter (\<lambda>e. key e \<noteq> lower n) b = b"
    unfolding filter_id_conv using ab(2,3) by (metis image_eqI)+
  moreover have "filter (\<lambda>e. key e \<noteq> lower n) B = []"
    by (simp add: B_def)
  moreover have "f_list f = a @ B @ b"
    using ab(1) by (simp add: B_def)
  moreover have "distinct (map addr (a @ B @ b))"
    using fields_invD(2) [OF assms] calculation(4) by simp
  ultimately show ?thesis
    unfolding B_def [symmetric] using unlink_middle [of a B b] by simp
qed

lemma erase_from_block:
  assumes "distinct (map addr (A @ B @ C))" "\<forall>e\<in>set B. key e = lower n" "C = [] \<or> key (hd C) \<noteq> lower n"
  shows "erase_from (length A) n (A @ B @ C) l = (A @ C, fold (\<lambda>e l. unlink (addr e) l) B l)"
  using assms(1,2)
proof (induction B arbitrary: l)
  case Nil
  then show ?case
    using assms(3) by (subst erase_from.simps) (cases C; auto simp: iequals_iff)
next
  case (Cons x B)
  have "unlink (addr x) (A @ x # B @ C) = A @ B @ C"
    using Cons.prems by (intro unlink_at) auto
  then show ?case
    using Cons by (subst erase_from.simps) (simp add: iequals_iff)
qed

lemma above_start: "key_sorted s \<Longrightarrow> above n s = [] \<or> key (hd (above n s)) \<noteq> lower n"
  using key_cases(3) [where e = "hd (above n s)" and k = n] hd_in_set [of "above n s"] by auto

text \<open>The state after an element has replaced the others of its name at the end of the list.\<close>

lemma replaced_inv:
  assumes "fields_inv f" "key e = lower n" "addr e = heap_next f" "element_ok e"
    "f_set f' = below n (f_set f) @ [e] @ above n (f_set f)"
    "f_list f' = filter (\<lambda>x. key x \<noteq> lower n) (f_list f) @ [e]" "heap_next f' = heap_next f + 1"
  shows "fields_inv f'"
proof (rule fields_inv_replace [OF assms(1,5)])
  let ?F = "filter (\<lambda>x. key x \<noteq> lower n) (f_list f)"
  have "filter (\<lambda>k. k \<noteq> lower n) (map key (f_list f)) = map key ?F"
    by (simp add: filter_map comp_def)
  then have "distinct (remdups_adj (map key ?F))"
    using runs_filter [OF fields_invD(5) [OF assms(1)], of "\<lambda>k. k \<noteq> lower n"] by simp
  moreover have "lower n \<notin> set (map key ?F)"
    by auto
  ultimately show "distinct (remdups_adj (map key (f_list f')))"
    using runs_snoc [of "map key ?F" "lower n"] assms(2) by (simp add: assms(6))
  show "distinct (map addr (f_list f'))"
    using fresh_element [OF assms(1)] fields_invD(2) [OF assms(1)] assms(3)
    by (auto simp: assms(6) distinct_map inj_on_def)
  show "\<forall>e\<in>set (f_list f'). addr e < heap_next f' \<and> element_ok e"
    using fields_invD(4) [OF assms(1)] assms(3,4) by (auto simp: assms(6,7) less_Suc_eq)
  show "\<forall>k. lower k \<noteq> lower n \<longrightarrow> equal k (f_list f') = equal k (f_list f)"
    using assms(2) by (auto simp: assms(6) intro: filter_cong)
  show "equal n (f_list f') = [e]"
    using assms(2) by (simp add: assms(6) filter_empty_conv)
qed (use assms in simp)

lemma set_element_step:
  fixes fd :: field
  assumes "searches_ok K" "fields_inv f" "field_fits n v"
  defines "e \<equiv> \<lparr>addr = heap_next f, efield = fd, ename = n, evalue = trim v\<rparr>"
  defines "f' \<equiv> set_element K e (f\<lparr>heap_next := heap_next f + 1\<rparr>)"
  shows "fields_inv f' \<and> pairs (f_list f') = put_field n (trim v) (pairs (f_list f)) \<and>
    f_method f' = f_method f \<and> f_target f' = f_target f"
proof -
  let ?A = "below n (f_set f)" and ?B = "equal n (f_list f)" and ?C = "above n (f_set f)"
  let ?F = "filter (\<lambda>x. key x \<noteq> lower n) (f_list f)"
  note p = positions [OF assms(1,2), of n] and i = fields_invD [OF assms(2)]
  note C = above_start [OF i(1), of n]
  have before: "insert_before (length ?A) e (?A @ ?C) = ?A @ [e] @ ?C"
    using insert_before_at [of ?A e ?C] by simp
  have f': "f' = f\<lparr>heap_next := heap_next f + 1, f_set := ?A @ [e] @ ?C, f_list := ?F @ [e]\<rparr>"
  proof (cases "?B = []")
    case True
    have "?F = f_list f"
      using True by (simp add: filter_empty_conv filter_id_conv)
    moreover have s: "f_set f = ?A @ ?C"
      using p(5) True by simp
    moreover have "length ?A = length (f_set f) \<or> \<not> iequals n (ename (f_set f ! length ?A))"
    proof (cases "?C")
      case Nil
      then show ?thesis
        using arg_cong [OF s, of length] by simp
    next
      case (Cons c C')
      then have "f_set f ! length ?A = c"
        using s by (metis nth_append_length)
      then show ?thesis
        using C Cons by (simp add: iequals_iff)
    qed
    moreover have "insert_before (length ?A) e (f_set f) = ?A @ [e] @ ?C"
      using before s by metis
    ultimately show ?thesis
      using p(1) by (simp add: f'_def set_element_def Let_def e_def)
  next
    case False
    then obtain z B where B: "?B = z # B"
      by (cases ?B) auto
    then have "key z = lower n"
      by (metis (mono_tags, lifting) filter_eq_ConsD)
    moreover have "f_set f ! length ?A = z" "length ?A < length (f_set f)"
      using p(5) B by (metis nth_append_length append_Cons, metis length_append length_Cons append_Cons add_less_cancel_left less_add_same_cancel1 zero_less_Suc add_Suc)
    moreover have "erase_from (length ?A) n (f_set f) (f_list f) = (?A @ ?C, ?F)"
    proof -
      have "distinct (map addr (?A @ ?B @ ?C))"
        using set_distinct(2) [OF assms(2)] p(5) by metis
      then have "erase_from (length ?A) n (?A @ ?B @ ?C) (f_list f) = (?A @ ?C, fold (\<lambda>e l. unlink (addr e) l) ?B (f_list f))"
        using C by (intro erase_from_block) simp_all
      then show ?thesis
        using unlink_name [OF assms(2), of n] p(5) by metis
    qed
    ultimately show ?thesis
      using p(1) before by (simp add: f'_def set_element_def Let_def e_def iequals_iff)
  qed
  have "fields_inv f'"
    by (rule replaced_inv [OF assms(2), of e n]) (use field_fits_ok [OF assms(3)] in \<open>simp_all add: f' e_def\<close>)
  moreover have "pairs (f_list f') = put_field n (trim v) (pairs (f_list f))"
    by (simp add: f' put_field_def drop_pairs e_def)
  ultimately show ?thesis
    by (simp add: f')
qed

lemma erase_named_step:
  fixes n :: string
  assumes "searches_ok K" "fields_inv f"
  defines "f' \<equiv> snd (erase_named K n f)"
  shows "fst (erase_named K n f) = length (values_of n (pairs (f_list f))) \<and> fields_inv f' \<and>
    pairs (f_list f') = drop_fields n (pairs (f_list f)) \<and> f_method f' = f_method f \<and> f_target f' = f_target f"
proof -
  let ?A = "below n (f_set f)" and ?B = "equal n (f_list f)" and ?C = "above n (f_set f)"
  let ?F = "filter (\<lambda>x. key x \<noteq> lower n) (f_list f)"
  note p = positions [OF assms(1,2), of n] and i = fields_invD [OF assms(2)]
  have "take (length ?B) (drop (length ?A) (f_set f)) = ?B" "take (length ?A) (f_set f) = ?A"
    "drop (length ?A + length ?B) (f_set f) = ?C"
    using arg_cong [OF p(5), of "\<lambda>s. take (length ?B) (drop (length ?A) s)"] arg_cong [OF p(5), of "take (length ?A)"]
      arg_cong [OF p(5), of "drop (length ?A + length ?B)"] by simp_all
  then have e: "erase_named K n f = (length ?B, f\<lparr>f_set := ?A @ ?C, f_list := ?F\<rparr>)"
    using p(1,2) unlink_name [OF assms(2), of n] by (simp add: erase_named_def Let_def del: length_take)
  have "fields_inv f'"
  proof (rule fields_inv_replace [OF assms(2), of _ n "[]"])
    have "filter (\<lambda>k. k \<noteq> lower n) (map key (f_list f)) = map key ?F"
      by (simp add: filter_map comp_def)
    then show "distinct (remdups_adj (map key (f_list f')))"
      using runs_filter [OF i(5), of "\<lambda>k. k \<noteq> lower n"] by (simp add: f'_def e)
    show "distinct (map addr (f_list f'))"
      using i(2) by (auto simp: f'_def e distinct_map inj_on_def)
    show "\<forall>k. lower k \<noteq> lower n \<longrightarrow> equal k (f_list f') = equal k (f_list f)"
      by (auto simp: f'_def e intro: filter_cong)
  qed (use i(4) in \<open>auto simp: f'_def e filter_empty_conv\<close>)
  then show ?thesis
    by (simp add: f'_def e drop_pairs values_pairs)
qed

section \<open>Lookups\<close>

lemma find_named_eq:
  assumes "searches_ok K" "fields_inv f"
  shows "find_named K n f = (case equal n (f_list f) of [] \<Rightarrow> None | e # es \<Rightarrow> Some e)"
proof (cases "equal n (f_list f)")
  case Nil
  then show ?thesis
    using positions(3) [OF assms, of n] by (simp add: find_named_def Let_def)
next
  case (Cons e es)
  let ?A = "below n (f_set f)"
  have s: "f_set f = ?A @ e # es @ above n (f_set f)"
    using positions(5) [OF assms, of n] Cons by simp
  have "length ?A < length (f_set f)"
    using arg_cong [OF s, of length] by simp
  moreover have "f_set f ! length ?A = e"
    using arg_cong [OF s, of "\<lambda>s. s ! length ?A"] by (simp add: nth_append)
  ultimately show ?thesis
    using positions(3) [OF assms, of n] Cons by (simp add: find_named_def Let_def)
qed

lemma lookup_named_eq:
  assumes "searches_ok K" "fields_inv f"
  shows "lookup_named K n f = (case values_of n (pairs (f_list f)) of [] \<Rightarrow> [] | v # vs \<Rightarrow> v)"
    "count_named K n f = length (values_of n (pairs (f_list f)))"
    "at_named K n f = (case values_of n (pairs (f_list f)) of [] \<Rightarrow> Inl Out_of_range | v # vs \<Rightarrow> Inr v)"
    "map_option evalue (find_named K n f) = (case values_of n (pairs (f_list f)) of [] \<Rightarrow> None | v # vs \<Rightarrow> Some v)"
  using positions(4) [OF assms, of n]
  by (simp_all add: lookup_named_def at_named_def count_named_def find_named_eq [OF assms] values_pairs split: list.split)

lemma list_range_block:
  assumes "distinct (map addr (a @ B @ b))" "B \<noteq> []"
  shows "list_range (addr (hd B)) (addr (last B)) (a @ B @ b) = B"
proof -
  obtain x B' where B: "B = x # B'"
    using assms(2) by (cases B) auto
  have "list_range (addr x) c (a @ x # r) = list_range (addr x) c (x # r)" if "addr x \<notin> addr ` set a" for c r
    using that by (induction a) auto
  moreover have "addr x \<notin> addr ` set a"
    using assms(1) B by auto
  moreover have "list_range (addr x) (addr (last B)) (x # B' @ b) = B"
  proof (cases B' rule: rev_cases)
    case Nil
    then show ?thesis
      using B by simp
  next
    case (snoc B'' z)
    then have "addr x \<noteq> addr z" "addr z \<notin> addr ` set B''"
      using assms(1) B by auto
    then have "takeWhile (\<lambda>y. addr y \<noteq> addr z) (B'' @ z # b) = B''" "dropWhile (\<lambda>y. addr y \<noteq> addr z) (B'' @ z # b) = z # b"
      by (induction B'') auto
    then show ?thesis
      using B snoc \<open>addr x \<noteq> addr z\<close> by simp
  qed
  ultimately show ?thesis
    using B by simp
qed

lemma equal_range_eq:
  assumes "searches_ok K" "fields_inv f"
  shows "equal_range K n f = equal n (f_list f)"
proof (cases "equal n (f_list f) = []")
  case True
  then show ?thesis
    using positions(1,2) [OF assms, of n] by (simp add: equal_range_def)
next
  case False
  let ?A = "below n (f_set f)" and ?B = "equal n (f_list f)"
  define B where "B = ?B"
  have s: "f_set f = ?A @ B @ above n (f_set f)"
    unfolding B_def by (rule positions(5) [OF assms])
  obtain a b where ab: "f_list f = a @ ?B @ b"
    by (rule block [OF assms(2)])
  have B: "B \<noteq> []"
    using False by (simp add: B_def)
  have "f_set f ! length ?A = hd B"
    using arg_cong [OF s, of "\<lambda>s. s ! length ?A"] B by (cases B) (simp_all add: nth_append)
  moreover have "f_set f ! (length ?A + length B - 1) = last B"
    using arg_cong [OF s, of "\<lambda>s. s ! (length ?A + length B - 1)"] B
    by (cases B rule: rev_cases) (simp_all add: nth_append)
  ultimately have "equal_range K n f = list_range (addr (hd B)) (addr (last B)) (f_list f)"
    using positions(1,2) [OF assms, of n] B by (simp add: equal_range_def Let_def flip: B_def)
  also have "\<dots> = list_range (addr (hd B)) (addr (last B)) (a @ B @ b)"
    by (simp only: ab [folded B_def])
  also have "\<dots> = B"
  proof (rule list_range_block [OF _ B])
    show "distinct (map addr (a @ B @ b))"
      using fields_invD(2) [OF assms(2)] by (simp only: ab [folded B_def])
  qed
  finally show ?thesis
    by (simp add: B_def)
qed

section \<open>Copies\<close>

lemma add_field_runs:
  assumes "distinct (remdups_adj (map (lower \<circ> fst) xs @ [lower n]))"
  shows "add_field n v xs = xs @ [(n, v)]"
proof (cases "lower n \<in> set (map (lower \<circ> fst) xs)")
  case False
  then show ?thesis
    by (intro add_field_absent) (auto simp: list_all_iff image_iff)
next
  case True
  then obtain ys x where xs: "xs = ys @ [x]"
    by (cases xs rule: rev_cases) auto
  have "last (map (lower \<circ> fst) xs) = lower n"
    using assms True by (auto simp: remdups_adj_snoc split: if_splits)
  then have "lower (fst x) = lower n"
    by (simp add: xs)
  then show ?thesis
    using add_field_last [of x n "[]" v ys] by (simp add: xs)
qed

lemma runs_prefix: "distinct (remdups_adj (ks @ ls)) \<Longrightarrow> distinct (remdups_adj ks)"
proof (induction ls rule: rev_induct)
  case (snoc l ls)
  then show ?case
    by (auto simp: remdups_adj_snoc simp flip: append_assoc split: if_splits)
qed simp

lemma insert_all_copy:
  assumes "searches_ok K" "\<forall>e\<in>set es. element_ok e" "fields_inv f"
    "distinct (remdups_adj (map key (f_list f) @ map key es))"
  shows "\<exists>f'. insert_all K es f = Inr f' \<and> fields_inv f' \<and> pairs (f_list f') = pairs (f_list f) @ pairs es \<and>
    f_method f' = f_method f \<and> f_target f' = f_target f"
  using assms(2-)
proof (induction es arbitrary: f)
  case (Cons e es)
  have fits: "field_fits (ename e) (evalue e)" "trim (evalue e) = evalue e"
    using Cons.prems(1) by (simp_all add: element_ok_def field_fits_def)
  obtain f1 where f1: "insert_element K (efield e) (ename e) (evalue e) f = Inr f1" "fields_inv f1"
    "pairs (f_list f1) = add_field (ename e) (evalue e) (pairs (f_list f))" "f_method f1 = f_method f" "f_target f1 = f_target f"
    using insert_element_step [OF assms(1) Cons.prems(2) fits(1), of "efield e"] fits(2) by auto
  have "distinct (remdups_adj ((map key (f_list f) @ [key e]) @ map key es))"
    using Cons.prems(3) by simp
  then have "distinct (remdups_adj (map key (f_list f) @ [key e]))"
    by (rule runs_prefix)
  then have p: "pairs (f_list f1) = pairs (f_list f) @ [(ename e, evalue e)]"
    unfolding f1(3) by (intro add_field_runs) (simp add: pairs_def comp_def)
  have "map key xs = map (lower \<circ> fst) (pairs xs)" for xs
    by (simp add: pairs_def)
  then have "map key (f_list f1) = map key (f_list f) @ [key e]"
    by (simp add: p)
  then have "distinct (remdups_adj (map key (f_list f1) @ map key es))"
    using Cons.prems(3) by simp
  then show ?case
    using Cons.IH [of f1] Cons.prems(1) f1 p by auto
qed simp

lemma no_fields_inv: "fields_inv f \<Longrightarrow> fields_inv (clear_all f)"
  by (simp add: fields_inv_def clear_all_def clear_fields_def key_sorted_def)

lemma copy_assign_step:
  assumes "searches_ok K" "fields_inv f" "fields_inv g"
  shows "\<exists>f'. copy_assign K g f = Inr f' \<and> fields_inv f' \<and> pairs (f_list f') = pairs (f_list g) \<and>
    f_method f' = f_method g \<and> f_target f' = f_target g"
proof -
  have l: "f_list (clear_all f) = []"
    by (simp add: clear_all_def clear_fields_def)
  have "\<forall>e\<in>set (f_list g). element_ok e"
    using fields_invD(4) [OF assms(3)] by blast
  then obtain f' where "insert_all K (f_list g) (clear_all f) = Inr f'" "fields_inv f'" "pairs (f_list f') = pairs (f_list g)"
    using insert_all_copy [OF assms(1) _ no_fields_inv [OF assms(2)], of "f_list g"] fields_invD(5) [OF assms(3)] l by auto
  then show ?thesis
    by (auto simp: copy_assign_def copy_all_def fields_inv_def)
qed

section \<open>Properties\<close>

datatype fields_op = Insert string string | Set string string | Erase string | Clear | Copy_of fields

fun fields_step :: "searches \<Rightarrow> fields_op \<Rightarrow> fields \<Rightarrow> string_error + fields" where
  "fields_step K (Insert n v) f = insert_named K n v f"
| "fields_step K (Set n v) f = set_named K n v f"
| "fields_step K (Erase n) f = Inr (snd (erase_named K n f))"
| "fields_step K Clear f = Inr (clear_fields f)"
| "fields_step K (Copy_of g) f = copy_assign K g f"

fun fields_spec :: "fields_op \<Rightarrow> (string \<times> string) list \<Rightarrow> string_error + (string \<times> string) list" where
  "fields_spec (Insert n v) xs = (if field_fits n v then Inr (add_field n (trim v) xs) else Inl Length_error)"
| "fields_spec (Set n v) xs = (if field_fits n v then Inr (put_field n (trim v) xs) else Inl Length_error)"
| "fields_spec (Erase n) xs = Inr (drop_fields n xs)"
| "fields_spec Clear xs = Inr []"
| "fields_spec (Copy_of g) xs = Inr (pairs (f_list g))"

fun op_ok :: "fields_op \<Rightarrow> bool" where
  "op_ok (Copy_of g) \<longleftrightarrow> fields_inv g"
| "op_ok _ \<longleftrightarrow> True"

text \<open>
  C6: with both containers of the elements kept up, an operation on the fields does what it does to
  the list of names and values: a field that is inserted goes behind the last of its name or to the
  end, \<open>set\<close> replaces all of its name by one at the end, a copy has the same fields in the
  same order, and names or values that are too long are refused.  Afterwards the containers are
  consistent again: the same elements in both, ordered by name in one, those of a name next to each
  other and in the same order in the other.
\<close>

theorem fields_refine:
  assumes "searches_ok K" "holds_fields f xs" "op_ok op"
  shows "case fields_step K op f of
      Inl e \<Rightarrow> fields_spec op xs = Inl e
    | Inr f' \<Rightarrow> \<exists>xs'. fields_spec op xs = Inr xs' \<and> holds_fields f' xs'"
proof -
  have f: "fields_inv f" "pairs (f_list f) = xs"
    using assms(2) by (simp_all add: holds_fields_def)
  show ?thesis
  proof (cases op)
    case (Insert n v)
    show ?thesis
    proof (cases "field_fits n v")
      case True
      then show ?thesis
        using insert_element_step [OF assms(1) f(1) True, of "string_to_field n"] f(2) Insert
        by (auto simp: insert_named_def holds_fields_def)
    next
      case False
      then show ?thesis
        using Insert by (simp add: insert_named_def insert_element_def new_element_eq)
    qed
  next
    case (Set n v)
    show ?thesis
    proof (cases "field_fits n v")
      case True
      then show ?thesis
        using set_element_step [OF assms(1) f(1) True, of "string_to_field n"] f(2) Set
        by (simp add: set_named_def new_element_eq holds_fields_def)
    next
      case False
      then show ?thesis
        using Set by (simp add: set_named_def new_element_eq)
    qed
  next
    case (Erase n)
    then show ?thesis
      using erase_named_step [OF assms(1) f(1), of n] f(2) by (simp add: holds_fields_def)
  next
    case Clear
    then show ?thesis
      using no_fields_inv [OF f(1)] by (simp add: holds_fields_def clear_fields_def clear_all_def fields_inv_def)
  next
    case (Copy_of g)
    then obtain f' where "copy_assign K g f = Inr f'" "fields_inv f'" "pairs (f_list f') = pairs (f_list g)"
      using copy_assign_step [OF assms(1) f(1), of g] assms(3) by auto
    then show ?thesis
      using Copy_of by (simp add: holds_fields_def)
  qed
qed

text \<open>The search from the front, and a container with three fields, two of one name.\<close>

definition three_fields :: fields where
  "three_fields = \<lparr>
     f_set = [\<lparr>addr = 1, efield = field_host, ename = ''Host'', evalue = ''x''\<rparr>,
       \<lparr>addr = 0, efield = 0, ename = ''Set-Cookie'', evalue = ''a''\<rparr>,
       \<lparr>addr = 2, efield = 0, ename = ''set-cookie'', evalue = ''b''\<rparr>],
     f_list = [\<lparr>addr = 0, efield = 0, ename = ''Set-Cookie'', evalue = ''a''\<rparr>,
       \<lparr>addr = 2, efield = 0, ename = ''set-cookie'', evalue = ''b''\<rparr>,
       \<lparr>addr = 1, efield = field_host, ename = ''Host'', evalue = ''x''\<rparr>],
     f_method = ''GET'', f_target = '' /'', heap_next = 3\<rparr>"

lemma linear_ok [simp]: "searches_ok linear"
  by (simp add: searches_ok_def)

lemma three_fields_hold: "holds_fields three_fields [(''Set-Cookie'', ''a''), (''set-cookie'', ''b''), (''Host'', ''x'')]"
proof -
  have low: "lower ''Host'' = ''host''" "lower ''Set-Cookie'' = ''set-cookie''" "lower ''set-cookie'' = ''set-cookie''"
    by code_simp+
  have key: "\<not> key_less ''Set-Cookie'' ''Host''" "\<not> key_less ''set-cookie'' ''Host''" "\<not> key_less ''set-cookie'' ''Set-Cookie''"
    by code_simp+
  have trims: "trim ''a'' = ''a''" "trim ''b'' = ''b''" "trim ''x'' = ''x''"
    by code_simp+
  have "equal k (f_set three_fields) = equal k (f_list three_fields)" for k
    using low by (cases "lower k = ''host''") (simp_all add: three_fields_def)
  moreover have "key_sorted (f_set three_fields)" "distinct (remdups_adj (map key (f_list three_fields)))"
    using key low by (simp_all add: three_fields_def key_sorted_def)
  moreover have "\<forall>e\<in>set (f_list three_fields). addr e < heap_next three_fields \<and> element_ok e"
    using trims by (simp add: three_fields_def element_ok_def)
  moreover have "distinct (map addr (f_list three_fields))"
    by (simp add: three_fields_def)
  ultimately show ?thesis
    by (simp add: holds_fields_def fields_inv_def) (simp add: three_fields_def)
qed

theorem fields_refine_witness:
  "\<exists>f. fields_step linear (Set ''HOST'' '' y '') three_fields = Inr f \<and>
    holds_fields f [(''Set-Cookie'', ''a''), (''set-cookie'', ''b''), (''HOST'', ''y'')]"
proof -
  have "lower ''Host'' = ''host''" "lower ''Set-Cookie'' = ''set-cookie''" "lower ''set-cookie'' = ''set-cookie''"
    "lower ''HOST'' = ''host''" "trim '' y '' = ''y''"
    by code_simp+
  then show ?thesis
    using fields_refine [OF linear_ok three_fields_hold, of "Set ''HOST'' '' y ''"]
    by (auto simp: put_field_def drop_fields_def field_fits_def split: sum.splits)
qed

text \<open>
  C7: the lookups find what the list of fields says: the number of fields of a name in any case,
  the value of the first of them, and with \<open>equal_range\<close> all of them in order.
\<close>

theorem fields_lookup:
  assumes "searches_ok K" "holds_fields f xs"
  shows "count_named K n f = length (values_of n xs) \<and>
    lookup_named K n f = (case values_of n xs of [] \<Rightarrow> [] | v # vs \<Rightarrow> v) \<and>
    at_named K n f = (case values_of n xs of [] \<Rightarrow> Inl Out_of_range | v # vs \<Rightarrow> Inr v) \<and>
    map evalue (equal_range K n f) = values_of n xs"
proof -
  have f: "fields_inv f" "pairs (f_list f) = xs"
    using assms(2) by (simp_all add: holds_fields_def)
  show ?thesis
    using lookup_named_eq [OF assms(1) f(1), of n] equal_range_eq [OF assms(1) f(1), of n] values_pairs [of n "f_list f"]
    by (simp add: f(2))
qed

theorem fields_lookup_witness:
  "count_named linear ''SET-COOKIE'' three_fields = 2 \<and> map evalue (equal_range linear ''SET-COOKIE'' three_fields) = [''a'', ''b'']"
proof -
  have "lower ''Host'' = ''host''" "lower ''Set-Cookie'' = ''set-cookie''" "lower ''set-cookie'' = ''set-cookie''"
    "lower ''SET-COOKIE'' = ''set-cookie''"
    by code_simp+
  then show ?thesis
    using fields_lookup [OF linear_ok three_fields_hold, of "''SET-COOKIE''"] by (simp add: values_of_def)
qed

end
