(* ===== verification/Fields_Options.thy ===== *)
theory Fields_Options
  imports Basic_Fields
begin

text \<open>
  The fields that say how a message ends and whether the connection stays open, as
  \<open>impl/fields.ipp\<close> reads and writes them: Connection, Transfer-Encoding and Content-Length.
\<close>

section \<open>Filtering lists of tokens\<close>

text \<open>What is appended is appended to a string that was empty before.\<close>

definition with_comma :: "string list \<Rightarrow> string" where
  "with_comma ts = concat (map (\<lambda>t. '', '' @ t) ts)"

fun filter_from :: "(string \<Rightarrow> bool) \<Rightarrow> string list \<Rightarrow> string" where
  "filter_from P [] = []"
| "filter_from P (t # ts) =
     (if P t then filter_from P ts else t @ with_comma (filter (\<lambda>t. \<not> P t) ts))"

definition filter_token_list :: "string \<Rightarrow> (string \<Rightarrow> bool) \<Rightarrow> string" where
  "filter_token_list value P = filter_from P (tokens value)"

fun filter_last_from :: "(string \<Rightarrow> bool) \<Rightarrow> string list \<Rightarrow> string" where
  "filter_last_from P [] = []"
| "filter_last_from P [t] = (if \<not> P t then '', '' @ t else [])"
| "filter_last_from P (t # ts) = '', '' @ t @ filter_last_from P ts"

definition filter_token_list_last :: "string \<Rightarrow> (string \<Rightarrow> bool) \<Rightarrow> string" where
  "filter_token_list_last value P =
     (case tokens value of
        [] \<Rightarrow> []
      | [t] \<Rightarrow> if \<not> P t then t else []
      | t # ts \<Rightarrow> t @ filter_last_from P ts)"

definition keep_alive_impl :: "string \<Rightarrow> nat \<Rightarrow> bool \<Rightarrow> string" where
  "keep_alive_impl value version keep_alive =
     (if version < 11 then
        if keep_alive then
          let s = filter_token_list value (\<lambda>s. iequals s ''close'') in
          if s = [] then s @ ''keep-alive''
          else if \<not> token_exists ''keep-alive'' value then s @ '', keep-alive'' else s
        else filter_token_list value (\<lambda>s. iequals s ''close'' \<or> iequals s ''keep-alive'')
      else
        if keep_alive then filter_token_list value (\<lambda>s. iequals s ''close'' \<or> iequals s ''keep-alive'')
        else
          let s = filter_token_list value (\<lambda>s. iequals s ''keep-alive'') in
          if s = [] then s @ ''close''
          else if \<not> token_exists ''close'' value then s @ '', close'' else s)"

section \<open>The fields\<close>

definition get_chunked :: "searches \<Rightarrow> fields \<Rightarrow> bool" where
  "get_chunked K f =
     (let te = tokens (lookup K field_transfer_encoding f) in te \<noteq> [] \<and> iequals (last te) ''chunked'')"

definition get_keep_alive :: "searches \<Rightarrow> nat \<Rightarrow> fields \<Rightarrow> bool" where
  "get_keep_alive K version f =
     (let it = find_field K field_connection f in
      if version < 11 then
        (case it of None \<Rightarrow> False | Some e \<Rightarrow> token_exists ''keep-alive'' (evalue e))
      else (case it of None \<Rightarrow> True | Some e \<Rightarrow> \<not> token_exists ''close'' (evalue e)))"

definition has_content_length :: "searches \<Rightarrow> fields \<Rightarrow> bool" where
  "has_content_length K f \<longleftrightarrow> count_field K field_content_length f > 0"

text \<open>
  A value is put together in a static string of 4096 characters; if that throws, again in a
  string without a bound.
\<close>

definition max_static_buffer :: nat where
  "max_static_buffer = 4096"

definition set_or_erase :: "searches \<Rightarrow> field \<Rightarrow> string \<Rightarrow> fields \<Rightarrow> string_error + fields" where
  "set_or_erase K name s f = (if s \<noteq> [] then set_field K name s f else Inr (snd (erase_field K name f)))"

definition set_chunked :: "searches \<Rightarrow> bool \<Rightarrow> fields \<Rightarrow> string_error + fields" where
  "set_chunked K value f =
     (let it = find_field K field_transfer_encoding f in
      if value then
        (case it of
           None \<Rightarrow> set_field K field_transfer_encoding ''chunked'' f
         | Some e \<Rightarrow>
             let te = tokens (evalue e) in
             if te \<noteq> [] \<and> iequals (last te) ''chunked'' then Inr f
             else set_field K field_transfer_encoding (evalue e @ '', chunked'') f)
      else
        (case it of
           None \<Rightarrow> Inr f
         | Some e \<Rightarrow>
             let s = filter_token_list_last (evalue e) (\<lambda>s. iequals s ''chunked'') in
             (case fit max_static_buffer s of
                Returns buf \<Rightarrow> set_or_erase K field_transfer_encoding buf f
              | _ \<Rightarrow> set_or_erase K field_transfer_encoding s f)))"

definition set_content_length :: "searches \<Rightarrow> u64 option \<Rightarrow> fields \<Rightarrow> string_error + fields" where
  "set_content_length K value f =
     (case value of
        None \<Rightarrow> Inr (snd (erase_field K field_content_length f))
      | Some n \<Rightarrow> set_field K field_content_length (raw_to_string_unsigned (unat n)) f)"

definition set_keep_alive :: "searches \<Rightarrow> nat \<Rightarrow> bool \<Rightarrow> fields \<Rightarrow> string_error + fields" where
  "set_keep_alive K version keep_alive f =
     (let value = lookup K field_connection f; s = keep_alive_impl value version keep_alive in
      case fit max_static_buffer s of
        Returns buf \<Rightarrow> set_or_erase K field_connection buf f
      | _ \<Rightarrow> set_or_erase K field_connection s f)"

section \<open>Lists of tokens and their text\<close>

definition join :: "string list \<Rightarrow> string" where
  "join ts = (case ts of [] \<Rightarrow> [] | t # ts \<Rightarrow> t @ with_comma ts)"

definition token_ok :: "string \<Rightarrow> bool" where
  "token_ok t \<longleftrightarrow> t \<noteq> [] \<and> list_all is_token_char t"

lemma filter_token_list_join: "filter_token_list value P = join (filter (\<lambda>t. \<not> P t) (tokens value))"
proof -
  have "filter_from P ts = join (filter (\<lambda>t. \<not> P t) ts)" for ts
    by (induction ts) (simp_all add: join_def)
  then show ?thesis
    by (simp add: filter_token_list_def)
qed

lemma filter_last_with_comma: "ts \<noteq> [] \<Longrightarrow> filter_last_from P ts = with_comma (if P (last ts) then butlast ts else ts)"
proof (induction P ts rule: filter_last_from.induct)
  case (3 P t u ts)
  then show ?case
    by (simp add: with_comma_def split: if_splits)
qed (simp_all add: with_comma_def)

lemma filter_last_join:
  "filter_token_list_last value P =
    join (if tokens value \<noteq> [] \<and> P (last (tokens value)) then butlast (tokens value) else tokens value)"
  by (auto simp: filter_token_list_last_def join_def filter_last_with_comma with_comma_def split: list.split)

lemma tokens_ok: "t \<in> set (tokens v) \<Longrightarrow> token_ok t"
  using set_takeWhileD by (fastforce simp: tokens_pieces scan_pieces_def piece_token_def token_ok_def list_all_iff)

lemma token_no_comma: "token_ok t \<Longrightarrow> CHR '','' \<notin> set t"
  using token_not_special(5) by (auto simp: token_ok_def list_all_iff dest!: bspec)

lemma pieces_join: "CHR '','' \<notin> set t \<Longrightarrow> list_all token_ok ts \<Longrightarrow> pieces (t @ with_comma ts) = t # map (Cons (CHR '' '')) ts"
proof (induction ts arbitrary: t)
  case Nil
  then show ?case
    by (simp add: with_comma_def pieces_single)
next
  case (Cons u ts)
  then have "pieces ((CHR '' '' # u) @ with_comma ts) = (CHR '' '' # u) # map (Cons (CHR '' '')) ts"
    using token_no_comma [of u] by (intro Cons.IH) auto
  moreover have "t @ with_comma (u # ts) = t @ CHR '','' # ((CHR '' '' # u) @ with_comma ts)"
    by (simp add: with_comma_def)
  ultimately show ?case
    using Cons.prems(1) by (simp add: pieces_append)
qed

lemma token_piece:
  assumes "token_ok t"
  shows "piece_token t = t" "piece_token (CHR '' '' # t) = t" "piece_ok t" "piece_ok (CHR '' '' # t)"
proof -
  obtain c s where t: "t = c # s" "is_token_char c" "list_all is_token_char s"
    using assms by (cases t) (auto simp: token_ok_def)
  have "dropWhile is_ows t = t" "takeWhile is_token_char t = t" "dropWhile is_token_char t = []"
    using t token_not_special [OF t(2)] by (auto simp: list_all_iff)
  then show "piece_token t = t" "piece_token (CHR '' '' # t) = t" "piece_ok t" "piece_ok (CHR '' '' # t)"
    by (simp_all only: piece_token_def piece_ok_def piece_rest_def dropWhile.simps simp_thms if_True list.pred_inject)
qed

lemma scan_tokens: "list_all token_ok ts \<Longrightarrow> scan_pieces (map (Cons (CHR '' '')) ts) = ts"
proof (induction ts)
  case (Cons t ts)
  then show ?case
    using token_piece [of t] by (auto simp: scan_pieces_Cons token_ok_def)
qed (simp add: scan_pieces_def)

lemma tokens_join: "list_all token_ok ts \<Longrightarrow> tokens (join ts) = ts"
proof (cases ts)
  case Nil
  then show ?thesis
    by (simp add: join_def tokens_pieces scan_pieces_def piece_token_def)
next
  case (Cons t us)
  assume a: "list_all token_ok ts"
  then show ?thesis
    using token_piece [of t] token_no_comma [of t] scan_tokens [of us]
    by (auto simp: Cons join_def tokens_pieces pieces_join scan_pieces_Cons token_ok_def)
qed

lemma join_snoc: "us \<noteq> [] \<Longrightarrow> join us @ '', '' @ t = join (us @ [t])"
  by (cases us) (simp_all add: join_def with_comma_def)

lemma join_empty: "list_all token_ok ts \<Longrightarrow> join ts = [] \<longleftrightarrow> ts = []"
  by (cases ts) (auto simp: join_def token_ok_def)

lemma trim_fix:
  assumes "s = [] \<or> \<not> is_ows (hd s) \<and> \<not> is_ows (last s)"
  shows "trim s = s"
proof -
  have "skip_ows s = s"
    using assms by (intro skip_ows_fix) blast
  then show ?thesis
    using assms skip_ows_rev.simps [of s] unfolding trim_def by metis
qed

lemma trim_join: "list_all token_ok ts \<Longrightarrow> trim (join ts) = join ts"
proof (cases ts rule: rev_cases)
  case (snoc us t)
  assume a: "list_all token_ok ts"
  have ows: "\<not> is_ows c" if "is_token_char c" for c
    using token_not_special [OF that] by auto
  have t: "t \<noteq> []" "is_token_char (last t)"
    using a snoc by (auto simp: token_ok_def list_all_iff)
  have h: "hd ts \<noteq> []" "is_token_char (hd (hd ts))"
    using a by (cases ts; cases "hd ts"; auto simp: snoc token_ok_def)+
  have "hd (join ts) = hd (hd ts)"
    using h(1) by (cases ts) (simp_all add: snoc join_def)
  moreover have "last (join ts) = last t"
  proof (cases "us = []")
    case True
    then show ?thesis
      by (simp add: snoc join_def with_comma_def)
  next
    case False
    then show ?thesis
      unfolding snoc join_snoc [OF False, symmetric] using t(1) by simp
  qed
  ultimately show ?thesis
    using ows [OF t(2)] ows [OF h(2)] by (intro trim_fix) simp
qed (simp add: join_def trim_def skip_ows_rev.simps)

section \<open>The operations on the list of fields\<close>

definition same_start :: "fields \<Rightarrow> fields \<Rightarrow> bool" where
  "same_start f f' \<longleftrightarrow> f_method f' = f_method f \<and> f_target f' = f_target f"

lemma field_names [simp]:
  "field_to_string field_connection = ''Connection''" "field_to_string field_content_length = ''Content-Length''"
  "field_to_string field_transfer_encoding = ''Transfer-Encoding''"
  by (simp_all add: field_to_string_def field_constants)

lemma set_field_holds:
  assumes "searches_ok K" "holds_fields f xs"
  shows "field_fits (field_to_string fd) v \<Longrightarrow>
      \<exists>f'. set_field K fd v f = Inr f' \<and> holds_fields f' (put_field (field_to_string fd) (trim v) xs) \<and> same_start f f'"
    and "\<not> field_fits (field_to_string fd) v \<Longrightarrow> set_field K fd v f = Inl Length_error"
proof -
  have f: "fields_inv f" "pairs (f_list f) = xs"
    using assms(2) by (simp_all add: holds_fields_def)
  show "\<exists>f'. set_field K fd v f = Inr f' \<and> holds_fields f' (put_field (field_to_string fd) (trim v) xs) \<and> same_start f f'"
    if "field_fits (field_to_string fd) v"
    using set_element_step [OF assms(1) f(1) that, of fd] f(2) that
    by (simp add: set_field_def new_element_eq holds_fields_def same_start_def)
  show "set_field K fd v f = Inl Length_error" if "\<not> field_fits (field_to_string fd) v"
    using that by (simp add: set_field_def new_element_eq)
qed

lemma erase_field_holds:
  assumes "searches_ok K" "holds_fields f xs"
  shows "holds_fields (snd (erase_field K fd f)) (drop_fields (field_to_string fd) xs) \<and> same_start f (snd (erase_field K fd f))"
  using assms erase_named_step [OF assms(1), of f "field_to_string fd"]
  by (auto simp: erase_field_def holds_fields_def same_start_def)

lemma lookup_holds:
  assumes "searches_ok K" "holds_fields f xs"
  shows "lookup K fd f = (case values_of (field_to_string fd) xs of [] \<Rightarrow> [] | v # vs \<Rightarrow> v)"
    "count_field K fd f = length (values_of (field_to_string fd) xs)"
    "map_option evalue (find_field K fd f) = (case values_of (field_to_string fd) xs of [] \<Rightarrow> None | v # vs \<Rightarrow> Some v)"
  using assms lookup_named_eq [OF assms(1), of f "field_to_string fd"]
  by (simp_all add: lookup_def count_field_def find_field_def holds_fields_def)

lemma find_holds:
  assumes "searches_ok K" "holds_fields f xs"
  shows "values_of (field_to_string fd) xs = [] \<Longrightarrow> find_field K fd f = None"
    "values_of (field_to_string fd) xs = v # vs \<Longrightarrow> \<exists>e. find_field K fd f = Some e \<and> evalue e = v"
  using lookup_holds(3) [OF assms, of fd] by auto

lemma values_put: "values_of n (put_field n v xs) = [v]"
  by (simp add: put_field_def values_of_def drop_fields_def filter_empty_conv)

lemma values_drop: "values_of n (drop_fields n xs) = []"
  by (simp add: values_of_def drop_fields_def filter_empty_conv)

lemma values_other:
  assumes "lower n \<noteq> lower m"
  shows "values_of n (put_field m v xs) = values_of n xs" "values_of n (drop_fields m xs) = values_of n xs"
proof -
  have "filter (\<lambda>x. lower (fst x) = lower n) (filter (\<lambda>x. lower (fst x) \<noteq> lower m) xs) = filter (\<lambda>x. lower (fst x) = lower n) xs"
    using assms by (induction xs) auto
  then show "values_of n (put_field m v xs) = values_of n xs" "values_of n (drop_fields m xs) = values_of n xs"
    using assms by (simp_all add: values_of_def put_field_def drop_fields_def)
qed

text \<open>The fields after \<open>set_or_erase\<close> with a list of tokens.\<close>

definition put_tokens :: "string \<Rightarrow> string list \<Rightarrow> (string \<times> string) list \<Rightarrow> (string \<times> string) list" where
  "put_tokens n ts xs = (if ts = [] then drop_fields n xs else put_field n (join ts) xs)"

lemma set_or_erase_holds:
  assumes "searches_ok K" "holds_fields f xs" "list_all token_ok ts" "field_fits (field_to_string fd) (join ts)"
  shows "\<exists>f'. set_or_erase K fd (join ts) f = Inr f' \<and> holds_fields f' (put_tokens (field_to_string fd) ts xs) \<and> same_start f f'"
proof (cases "ts = []")
  case True
  then show ?thesis
    using erase_field_holds [OF assms(1,2), of fd] by (auto simp: set_or_erase_def put_tokens_def join_def)
next
  case False
  then show ?thesis
    using set_field_holds(1) [OF assms(1,2,4)] assms(3)
    by (simp add: set_or_erase_def put_tokens_def join_empty trim_join)
qed

lemma set_or_erase_long:
  assumes "searches_ok K" "holds_fields f xs" "\<not> field_fits (field_to_string fd) s" "length (field_to_string fd) < 65533"
  shows "set_or_erase K fd s f = Inl Length_error"
  using set_field_holds(2) [OF assms(1,2,3)] assms(3,4) by (auto simp: set_or_erase_def field_fits_def)

lemma values_put_tokens: "values_of n (put_tokens n ts xs) = (if ts = [] then [] else [join ts])"
  by (simp add: put_tokens_def values_put values_drop)

section \<open>Keeping the connection open\<close>

text \<open>The tokens of the Connection field after \<open>keep_alive_impl\<close>.\<close>

definition has_token :: "string \<Rightarrow> string list \<Rightarrow> bool" where
  "has_token s ts \<longleftrightarrow> list_ex (iequals s) ts"

definition add_token :: "string \<Rightarrow> string list \<Rightarrow> string list" where
  "add_token s ts = (if has_token s ts then ts else ts @ [s])"

definition remove_token :: "string \<Rightarrow> string list \<Rightarrow> string list" where
  "remove_token s ts = filter (\<lambda>t. \<not> iequals t s) ts"

definition keep_alive_tokens :: "nat \<Rightarrow> bool \<Rightarrow> string list \<Rightarrow> string list" where
  "keep_alive_tokens version keep_alive ts =
     (if version < 11 \<and> keep_alive then add_token ''keep-alive'' (remove_token ''close'' ts)
      else if version \<ge> 11 \<and> \<not> keep_alive then add_token ''close'' (remove_token ''keep-alive'' ts)
      else remove_token ''keep-alive'' (remove_token ''close'' ts))"

lemma has_token_remove:
  "has_token s (remove_token s ts) = False"
  "\<not> iequals s t \<Longrightarrow> has_token s (remove_token t ts) = has_token s ts"
  "has_token s (add_token s ts)"
  by (auto simp: has_token_def remove_token_def add_token_def list_ex_iff iequals_iff)

lemma has_token_remove_other: "\<not> has_token s ts \<Longrightarrow> \<not> has_token s (remove_token t ts)"
  by (auto simp: has_token_def remove_token_def list_ex_iff)

lemma keep_alive_distinct: "\<not> iequals ''close'' ''keep-alive''" "\<not> iequals ''keep-alive'' ''close''"
  by (auto dest!: iequals_length)

lemma token_exists_has: "token_exists s v = has_token s (tokens v)"
  by (auto simp: token_exists_def has_token_def list_ex_iff)

lemma literal_tokens: "token_ok ''keep-alive''" "token_ok ''close''" "token_ok ''chunked''"
  by (simp_all add: token_ok_def token_char_iff tchar_code_def alpha_code_def digit_code_def uchar_def)

lemma keep_alive_tokens_ok: "list_all token_ok (keep_alive_tokens version ka (tokens v))"
  using tokens_ok [of _ v] literal_tokens
  by (auto simp: keep_alive_tokens_def add_token_def remove_token_def list_all_iff split: if_splits)

lemma keep_alive_impl_join: "keep_alive_impl value version ka = join (keep_alive_tokens version ka (tokens value))"
proof -
  define ts where "ts = tokens value"
  have ok: "list_all token_ok ts"
    using tokens_ok by (auto simp: ts_def list_all_iff)
  have add: "(if join us = [] then join us @ s else if \<not> has_token s ts then join us @ '', '' @ s else join us) =
      join (add_token s us)" if us: "us = remove_token t ts" "\<not> iequals s t" for s t us
  proof -
    have e: "join us = [] \<longleftrightarrow> us = []"
      using ok by (intro join_empty) (auto simp: us remove_token_def list_all_iff)
    have h: "has_token s us = has_token s ts"
      using has_token_remove(2) [OF us(2)] by (simp add: us)
    show ?thesis
    proof (cases "us = []")
      case True
      then show ?thesis
        by (simp add: add_token_def has_token_def join_def with_comma_def)
    next
      case False
      then show ?thesis
        using e h join_snoc [OF False, of s] by (simp add: add_token_def)
    qed
  qed
  have both: "filter (\<lambda>t. \<not> (iequals t ''close'' \<or> iequals t ''keep-alive'')) ts = remove_token ''keep-alive'' (remove_token ''close'' ts)"
    by (simp add: remove_token_def)
  have one: "filter (\<lambda>t. \<not> iequals t s) ts = remove_token s ts" for s
    by (simp add: remove_token_def)
  have r: "keep_alive_impl value version ka =
    (if version < 11 then
       if ka then
         let s = join (remove_token ''close'' ts) in
         if s = [] then s @ ''keep-alive'' else if \<not> has_token ''keep-alive'' ts then s @ '', '' @ ''keep-alive'' else s
       else join (remove_token ''keep-alive'' (remove_token ''close'' ts))
     else
       if ka then join (remove_token ''keep-alive'' (remove_token ''close'' ts))
       else
         let s = join (remove_token ''keep-alive'' ts) in
         if s = [] then s @ ''close'' else if \<not> has_token ''close'' ts then s @ '', '' @ ''close'' else s)"
    unfolding keep_alive_impl_def filter_token_list_join token_exists_has ts_def [symmetric] both one by (simp only: append_Cons append_Nil)
  show ?thesis
    unfolding r keep_alive_tokens_def Let_def add [OF refl keep_alive_distinct(2)] add [OF refl keep_alive_distinct(1)]
      ts_def [symmetric] by (cases "version < 11"; cases ka; simp)
qed

lemma set_keep_alive_eq:
  "set_keep_alive K version ka f =
    set_or_erase K field_connection (join (keep_alive_tokens version ka (tokens (lookup K field_connection f)))) f"
  by (simp add: set_keep_alive_def Let_def keep_alive_impl_join fit_def)

lemma set_keep_alive_holds:
  assumes "searches_ok K" "holds_fields f xs"
  defines "ts \<equiv> \<lambda>v ka. keep_alive_tokens v ka (tokens (lookup K field_connection f))"
  shows "if length (join (ts version ka)) \<le> 65533
    then \<exists>f'. set_keep_alive K version ka f = Inr f' \<and> holds_fields f' (put_tokens ''Connection'' (ts version ka) xs) \<and>
      same_start f f'
    else set_keep_alive K version ka f = Inl Length_error"
  using set_or_erase_holds [OF assms(1,2) keep_alive_tokens_ok, of field_connection version ka]
    set_or_erase_long [OF assms(1,2), of field_connection]
  by (simp add: set_keep_alive_eq ts_def field_fits_def)

lemma get_keep_alive_holds:
  assumes "searches_ok K" "holds_fields f xs"
  shows "get_keep_alive K version f =
    (let ts = (case values_of ''Connection'' xs of [] \<Rightarrow> [] | v # vs \<Rightarrow> tokens v) in
     if version < 11 then has_token ''keep-alive'' ts else \<not> has_token ''close'' ts)"
proof (cases "values_of ''Connection'' xs")
  case Nil
  then show ?thesis
    using find_holds(1) [OF assms, of field_connection] by (simp add: get_keep_alive_def has_token_def)
next
  case (Cons v vs)
  then show ?thesis
    using find_holds(2) [OF assms, of field_connection v vs] by (auto simp: get_keep_alive_def token_exists_has)
qed

section \<open>Chunked\<close>

lemma get_chunked_holds:
  assumes "searches_ok K" "holds_fields f xs"
  shows "get_chunked K f =
    (let ts = (case values_of ''Transfer-Encoding'' xs of [] \<Rightarrow> [] | v # vs \<Rightarrow> tokens v) in
     ts \<noteq> [] \<and> iequals (last ts) ''chunked'')"
  using lookup_holds(1) [OF assms, of field_transfer_encoding]
  by (simp add: get_chunked_def Let_def tokens_join [of "[]", unfolded join_def, simplified] split: list.split)

lemma pieces_comma: "pieces (a @ CHR '','' # b) = pieces a @ pieces b"
proof (induction a)
  case (Cons c a)
  have "pieces a \<noteq> []"
    by (cases a) simp_all
  then show ?case
    using Cons by simp
qed simp

lemma scan_pieces_append:
  "scan_pieces (ps @ qs) = scan_pieces ps @ (if list_all piece_ok ps then scan_pieces qs else [])"
  by (induction ps) (simp_all add: scan_pieces_Cons, simp add: scan_pieces_def)

lemma tokens_append: "token_ok t \<Longrightarrow> tokens (v @ '', '' @ t) = tokens v @ (if validate_list v then [t] else [])"
proof -
  assume t: "token_ok t"
  have v: "validate_list v \<longleftrightarrow> list_all piece_ok (pieces v)"
    by (simp add: validate_list_def opt_tokens_pieces)
  have "pieces (CHR '' '' # t) = [CHR '' '' # t]"
    using token_no_comma [OF t] by (intro pieces_single) simp
  then have "pieces (v @ '', '' @ t) = pieces v @ [CHR '' '' # t]"
    using pieces_comma [of v "CHR '' '' # t"] by simp
  moreover have "scan_pieces [CHR '' '' # t] = [t]"
    using token_piece [OF t] t by (simp add: scan_pieces_Cons token_ok_def) (simp add: scan_pieces_def)
  ultimately show ?thesis
    by (simp add: tokens_pieces scan_pieces_append v)
qed

lemma trim_both: "trim v = v \<Longrightarrow> token_ok t \<Longrightarrow> trim (v @ '', '' @ t) = v @ '', '' @ t"
proof (rule trim_fix)
  assume v: "trim v = v" and t: "token_ok t"
  have "v = [] \<or> \<not> is_ows (hd v)"
  proof -
    obtain u where "skip_ows v = trim v @ u"
      using skip_ows_rev_prefix [of "skip_ows v"] by (auto simp: trim_def)
    then have "skip_ows v = v"
      using v length_skip_ows [of v] by (cases u) auto
    then show ?thesis
      using skip_ows_hd [of v] by simp
  qed
  moreover have "is_token_char (last t)" "t \<noteq> []"
    using t by (auto simp: token_ok_def list_all_iff)
  moreover from this have "\<not> is_ows (last t)"
    using token_not_special [of "last t"] by auto
  ultimately show "v @ '', '' @ t = [] \<or> \<not> is_ows (hd (v @ '', '' @ t)) \<and> \<not> is_ows (last (v @ '', '' @ t))"
    by (cases v) simp_all
qed

definition last_chunked :: "string list \<Rightarrow> bool" where
  "last_chunked ts \<longleftrightarrow> ts \<noteq> [] \<and> iequals (last ts) ''chunked''"

text \<open>The Transfer-Encoding field after \<open>set_chunked\<close>.\<close>

definition chunked_fields :: "bool \<Rightarrow> (string \<times> string) list \<Rightarrow> (string \<times> string) list" where
  "chunked_fields b xs =
     (case values_of ''Transfer-Encoding'' xs of
        [] \<Rightarrow> if b then put_field ''Transfer-Encoding'' ''chunked'' xs else xs
      | v # vs \<Rightarrow>
          if b then if last_chunked (tokens v) then xs else put_field ''Transfer-Encoding'' (v @ '', chunked'') xs
          else put_tokens ''Transfer-Encoding''
            (if last_chunked (tokens v) then butlast (tokens v) else tokens v) xs)"

definition chunked_length :: "bool \<Rightarrow> (string \<times> string) list \<Rightarrow> nat" where
  "chunked_length b xs =
     (case values_of ''Transfer-Encoding'' xs of
        [] \<Rightarrow> 0
      | v # vs \<Rightarrow>
          if b then if last_chunked (tokens v) then 0 else length v + 9
          else length (join (if last_chunked (tokens v) then butlast (tokens v) else tokens v)))"

lemma holds_trim: "holds_fields f xs \<Longrightarrow> v \<in> set (values_of n xs) \<Longrightarrow> trim v = v"
  using fields_invD(4) by (fastforce simp: holds_fields_def values_pairs element_ok_def)

lemma butlast_ok: "list_all P ts \<Longrightarrow> list_all P (butlast ts)"
  by (auto simp: list_all_iff dest: in_set_butlastD)

lemma set_chunked_holds:
  assumes "searches_ok K" "holds_fields f xs"
  shows "if chunked_length b xs \<le> 65533
    then \<exists>f'. set_chunked K b f = Inr f' \<and> holds_fields f' (chunked_fields b xs) \<and> same_start f f'
    else set_chunked K b f = Inl Length_error"
proof (cases "values_of ''Transfer-Encoding'' xs")
  case Nil
  then have none: "find_field K field_transfer_encoding f = None"
    using find_holds(1) [OF assms, of field_transfer_encoding] by simp
  have "trim ''chunked'' = ''chunked''"
    using trim_join [of "[''chunked'']"] literal_tokens by (simp add: join_def with_comma_def)
  then show ?thesis
    using none Nil assms(2) set_field_holds(1) [OF assms, of field_transfer_encoding "''chunked''"]
    by (auto simp: set_chunked_def chunked_fields_def chunked_length_def field_fits_def same_start_def)
next
  case (Cons v vs)
  then obtain e where e: "find_field K field_transfer_encoding f = Some e" "evalue e = v"
    using find_holds(2) [OF assms, of field_transfer_encoding v vs] by auto
  have v: "trim v = v"
    using holds_trim [OF assms(2), of v "''Transfer-Encoding''"] Cons by simp
  show ?thesis
  proof (cases b)
    case True
    have t: "trim (v @ '', chunked'') = v @ '', chunked''"
      using trim_both [OF v literal_tokens(3)] by simp
    then show ?thesis
      using True Cons e assms(2) set_field_holds [OF assms, of field_transfer_encoding "v @ '', chunked''"]
      by (auto simp: set_chunked_def chunked_fields_def chunked_length_def field_fits_def same_start_def last_chunked_def)
  next
    case False
    let ?ts = "if last_chunked (tokens v) then butlast (tokens v) else tokens v"
    have ok: "list_all token_ok ?ts"
      using tokens_ok [of _ v] butlast_ok by (auto simp: list_all_iff dest: in_set_butlastD)
    have "set_chunked K b f = set_or_erase K field_transfer_encoding (join ?ts) f"
      using False e by (simp add: set_chunked_def filter_last_join last_chunked_def fit_def Let_def)
    then show ?thesis
      using False Cons set_or_erase_holds [OF assms ok, of field_transfer_encoding]
        set_or_erase_long [OF assms, of field_transfer_encoding "join ?ts"]
      by (simp add: chunked_fields_def chunked_length_def field_fits_def)
  qed
qed

section \<open>Content-Length\<close>

lemma digits_text:
  assumes "x < 2 ^ 64"
  shows "raw_to_string_unsigned x \<noteq> []" "length (raw_to_string_unsigned x) \<le> 21" "trim (raw_to_string_unsigned x) = raw_to_string_unsigned x"
    "c \<in> set (raw_to_string_unsigned x) \<Longrightarrow> 48 \<le> uchar c \<and> uchar c \<le> 57"
proof -
  let ?s = "raw_to_string_unsigned x"
  show ne: "?s \<noteq> []"
    using raw_digits_start [of x] by (simp add: raw_to_string_unsigned_def)
  show "length ?s \<le> 21"
    using raw_fits [OF assms] by (simp add: max_digits_def)
  have d: "48 \<le> uchar c \<and> uchar c \<le> 57" if "c \<in> set ?s" for c
    using that raw_digits_chars [of c x] by (auto simp: raw_to_string_unsigned_def uchar_def split: if_splits)
  then show "c \<in> set ?s \<Longrightarrow> 48 \<le> uchar c \<and> uchar c \<le> 57" .
  have "\<not> is_ows c" if "c \<in> set ?s" for c
    using d [OF that] by (auto simp: uchar_def)
  then show "trim ?s = ?s"
    using ne by (intro trim_fix) simp
qed

definition length_fields :: "u64 option \<Rightarrow> (string \<times> string) list \<Rightarrow> (string \<times> string) list" where
  "length_fields v xs =
     (case v of
        None \<Rightarrow> drop_fields ''Content-Length'' xs
      | Some n \<Rightarrow> put_field ''Content-Length'' (raw_to_string_unsigned (unat n)) xs)"

lemma set_content_length_holds:
  assumes "searches_ok K" "holds_fields f xs"
  shows "\<exists>f'. set_content_length K v f = Inr f' \<and> holds_fields f' (length_fields v xs) \<and> same_start f f'"
proof (cases v)
  case None
  then show ?thesis
    using erase_field_holds [OF assms, of field_content_length] by (simp add: set_content_length_def length_fields_def)
next
  case (Some n)
  have n: "unat n < 2 ^ 64"
    using unsigned_less [of n] by simp
  have "length (raw_to_string_unsigned (unat n)) \<le> 21"
    by (rule digits_text(2) [OF n])
  then have "field_fits ''Content-Length'' (raw_to_string_unsigned (unat n))"
    by (simp add: field_fits_def)
  then show ?thesis
    using Some set_field_holds(1) [OF assms, of field_content_length "raw_to_string_unsigned (unat n)"] digits_text(3) [OF n]
    by (simp add: set_content_length_def length_fields_def)
qed

lemma has_content_length_holds:
  assumes "searches_ok K" "holds_fields f xs"
  shows "has_content_length K f \<longleftrightarrow> values_of ''Content-Length'' xs \<noteq> []"
  using lookup_holds(2) [OF assms, of field_content_length] by (simp add: has_content_length_def)

section \<open>Properties\<close>

text \<open>
  The options of the first Connection field, which is all that the container's functions see, and
  those of all Connection fields, which are one list to a recipient.  A value that is not well
  formed has the options in front of the error.
\<close>

definition first_options :: "(string \<times> string) list \<Rightarrow> string list" where
  "first_options xs = (case values_of ''Connection'' xs of [] \<Rightarrow> [] | v # vs \<Rightarrow> tokens v)"

definition connection_options :: "(string \<times> string) list \<Rightarrow> string list" where
  "connection_options xs = concat (map tokens (values_of ''Connection'' xs))"

definition stays_open :: "nat \<Rightarrow> string list \<Rightarrow> bool" where
  "stays_open version ts = (if version < 11 then has_token ''keep-alive'' ts else \<not> has_token ''close'' ts)"

definition other_options :: "string list \<Rightarrow> string list" where
  "other_options ts = filter (\<lambda>t. \<not> iequals t ''close'' \<and> \<not> iequals t ''keep-alive'') ts"

lemma other_options_remove: "other_options ts = remove_token ''close'' (remove_token ''keep-alive'' ts)"
  by (auto simp: other_options_def remove_token_def intro: filter_cong)

lemma options_put:
  "list_all token_ok ts \<Longrightarrow> first_options (put_tokens ''Connection'' ts xs) = ts"
  "list_all token_ok ts \<Longrightarrow> connection_options (put_tokens ''Connection'' ts xs) = ts"
  by (simp_all add: first_options_def connection_options_def values_put_tokens tokens_join)

lemma one_connection: "length (values_of ''Connection'' xs) \<le> 1 \<Longrightarrow> connection_options xs = first_options xs"
  by (cases "values_of ''Connection'' xs") (simp_all add: connection_options_def first_options_def)

lemma drop_put: "drop_fields n (put_field n v xs) = drop_fields n xs" "drop_fields n (put_tokens n ts xs) = drop_fields n xs"
  by (simp_all add: put_tokens_def put_field_def drop_fields_def)

lemma remove_keep_alive_tokens:
  "remove_token ''close'' (remove_token ''keep-alive'' (keep_alive_tokens v b ts)) =
    remove_token ''close'' (remove_token ''keep-alive'' ts)"
proof -
  have "remove_token a (remove_token a us) = remove_token a us" "remove_token a (remove_token b us) = remove_token b (remove_token a us)" for a b us
    by (simp_all add: remove_token_def conj_commute)
  moreover have "remove_token a (remove_token b (add_token b us)) = remove_token a (remove_token b us)"
    "remove_token b (remove_token a (add_token b us)) = remove_token b (remove_token a us)" for a b us
    by (simp_all add: remove_token_def add_token_def)
  ultimately show ?thesis
    by (auto simp: keep_alive_tokens_def)
qed

text \<open>
  C11: after \<open>keep_alive(b)\<close> the message keeps the connection open exactly when \<open>b\<close>
  says so, for either version of HTTP, by what the container says and by all options of the message
  that a recipient sees.  There is one Connection field at most then, with the other options of the
  first one in their order: all other options when there was only one Connection field, whereas those
  of further Connection fields are lost.  All other fields are as they were.  Only a value that
  becomes too long is refused.
\<close>

theorem keep_alive_roundtrip:
  assumes "searches_ok K" "holds_fields f xs"
    "length (join (keep_alive_tokens version b (first_options xs))) \<le> 65533"
  shows "\<exists>f' xs'. set_keep_alive K version b f = Inr f' \<and> holds_fields f' xs' \<and>
    get_keep_alive K version f' = b \<and> stays_open version (connection_options xs') = b \<and>
    length (values_of ''Connection'' xs') \<le> 1 \<and>
    other_options (connection_options xs') = other_options (first_options xs) \<and>
    (length (values_of ''Connection'' xs) \<le> 1 \<longrightarrow>
      other_options (connection_options xs') = other_options (connection_options xs)) \<and>
    drop_fields ''Connection'' xs' = drop_fields ''Connection'' xs"
proof -
  define ts where "ts = keep_alive_tokens version b (first_options xs)"
  have look: "tokens (lookup K field_connection f) = first_options xs"
    using lookup_holds(1) [OF assms(1,2), of field_connection] tokens_join [of "[]"]
    by (simp add: first_options_def join_def split: list.split)
  then have ok: "list_all token_ok ts"
    using keep_alive_tokens_ok [of version b "lookup K field_connection f"] by (simp add: ts_def)
  obtain f' where f': "set_keep_alive K version b f = Inr f'" "holds_fields f' (put_tokens ''Connection'' ts xs)"
    using set_keep_alive_holds [OF assms(1,2), of version b] assms(3) look by (auto simp: ts_def)
  have open_b: "stays_open version ts = b"
    using has_token_remove has_token_remove_other keep_alive_distinct
    by (auto simp: stays_open_def ts_def keep_alive_tokens_def)
  moreover have "get_keep_alive K version f' = stays_open version ts"
    using get_keep_alive_holds [OF assms(1) f'(2), of version] options_put(1) [OF ok, of xs]
    by (simp add: Let_def stays_open_def flip: first_options_def)
  moreover have "other_options ts = other_options (first_options xs)"
    unfolding other_options_remove ts_def by (rule remove_keep_alive_tokens)
  moreover have "length (values_of ''Connection'' (put_tokens ''Connection'' ts xs)) \<le> 1"
    by (simp add: values_put_tokens)
  ultimately show ?thesis
    using f' drop_put(2) [of "''Connection''" ts xs] options_put(2) [OF ok, of xs] one_connection [of xs]
    by (intro exI [of _ f'] exI [of _ "put_tokens ''Connection'' ts xs"]) simp
qed

theorem keep_alive_roundtrip_witness:
  "\<exists>f. set_keep_alive linear 11 False three_fields = Inr f \<and> get_keep_alive linear 11 f = False"
proof -
  have "first_options [(''Set-Cookie'', ''a''), (''set-cookie'', ''b''), (''Host'', ''x'')] = []"
    by code_simp
  then show ?thesis
    using keep_alive_roundtrip [OF linear_ok three_fields_hold, of 11 False]
    by (auto simp: keep_alive_tokens_def add_token_def remove_token_def has_token_def join_def with_comma_def)
qed

text \<open>
  C24: \<open>chunked(b)\<close> makes chunked the last encoding of the message, or removes it from there.
  It is the last one afterwards when it is to be set, unless the list of encodings has an error, in
  which what is appended is not seen; and not when it is to be removed, unless it was there twice.
\<close>

theorem chunked_roundtrip:
  assumes "searches_ok K" "holds_fields f xs" "chunked_length b xs \<le> 65533"
  defines "ts \<equiv> (case values_of ''Transfer-Encoding'' xs of [] \<Rightarrow> [] | v # vs \<Rightarrow> tokens v)"
  shows "\<exists>f'. set_chunked K b f = Inr f' \<and>
    get_chunked K f' = (if b then last_chunked ts \<or> (\<forall>v\<in>set (take 1 (values_of ''Transfer-Encoding'' xs)). validate_list v)
      else last_chunked ts \<and> last_chunked (butlast ts))"
proof -
  obtain f' where f': "set_chunked K b f = Inr f'" "holds_fields f' (chunked_fields b xs)"
    using set_chunked_holds [OF assms(1,2), of b] assms(3) by auto
  have ch: "last_chunked [''chunked'']" "last_chunked (us @ [''chunked''])" "\<not> last_chunked []" for us
    by (simp_all add: last_chunked_def)
  have tc: "tokens ''chunked'' = [''chunked'']"
    using tokens_join [of "[''chunked'']"] literal_tokens by (simp add: join_def with_comma_def)
  have "get_chunked K f' = (case values_of ''Transfer-Encoding'' (chunked_fields b xs) of [] \<Rightarrow> False | v # vs \<Rightarrow> last_chunked (tokens v))"
    using get_chunked_holds [OF assms(1) f'(2)] by (simp add: Let_def last_chunked_def split: list.split)
  also have "\<dots> = (if b then last_chunked ts \<or> (\<forall>v\<in>set (take 1 (values_of ''Transfer-Encoding'' xs)). validate_list v)
      else last_chunked ts \<and> last_chunked (butlast ts))"
  proof (cases "values_of ''Transfer-Encoding'' xs")
    case Nil
    then show ?thesis
      using ch tc by (simp add: chunked_fields_def values_put ts_def)
  next
    case (Cons v vs)
    have ok: "list_all token_ok us" if "us = tokens v \<or> us = butlast (tokens v)" for us
      using that tokens_ok [of _ v] by (auto simp: list_all_iff dest: in_set_butlastD)
    show ?thesis
      using Cons ch tokens_append [OF literal_tokens(3), of v] ok tokens_join
      by (auto simp: chunked_fields_def values_put values_put_tokens ts_def split: if_splits)
  qed
  finally show ?thesis
    using f'(1) by blast
qed

theorem chunked_roundtrip_witness:
  "\<exists>f. set_chunked linear True three_fields = Inr f \<and> get_chunked linear f"
proof -
  have "values_of ''Transfer-Encoding'' [(''Set-Cookie'', ''a''), (''set-cookie'', ''b''), (''Host'', ''x'')] = []"
    by code_simp
  then show ?thesis
    using chunked_roundtrip [OF linear_ok three_fields_hold, of True] by (simp add: chunked_length_def)
qed

text \<open>
  Of several Connection fields the container's functions see the first only: an option in a later
  field does not count, and it is lost when the option to keep the connection is set.
\<close>

lemma connection_first_only:
  assumes "searches_ok K" "holds_fields f xs" "values_of ''Connection'' xs = ''upgrade'' # vs"
  shows "get_keep_alive K 11 f" "set_keep_alive K 11 True f = Inr f' \<Longrightarrow> lookup K field_connection f' = ''upgrade''"
    "set_keep_alive K 11 True f = Inr f' \<Longrightarrow> count_field K field_connection f' = 1"
proof -
  have t: "tokens ''upgrade'' = [''upgrade'']"
    by code_simp
  have h: "\<not> iequals ''close'' ''upgrade''" "\<not> iequals ''upgrade'' ''close''" "\<not> iequals ''upgrade'' ''keep-alive''"
    by (auto dest!: iequals_length)
  then show "get_keep_alive K 11 f"
    using get_keep_alive_holds [OF assms(1,2), of 11] assms(3) t by (simp add: has_token_def)
  have o: "keep_alive_tokens 11 True (tokens (lookup K field_connection f)) = [''upgrade'']"
    using lookup_holds(1) [OF assms(1,2), of field_connection] assms(3) t h by (simp add: keep_alive_tokens_def remove_token_def)
  assume "set_keep_alive K 11 True f = Inr f'"
  then have "holds_fields f' (put_tokens ''Connection'' [''upgrade''] xs)"
    using set_keep_alive_holds [OF assms(1,2), of 11 True] o by (simp add: join_def with_comma_def split: if_splits)
  then show "lookup K field_connection f' = ''upgrade''" "count_field K field_connection f' = 1"
    using lookup_holds(1,2) [OF assms(1), of f' _ field_connection] by (simp_all add: values_put_tokens join_def with_comma_def)
qed

end
