(* ===== verification/Http_Message.thy ===== *)
theory Http_Message
  imports Fields_Options Http_Header
begin

text \<open>
  Messages, \<open>beast/http/message.hpp\<close> and \<open>impl/message.ipp\<close>, and how their
  header is written, the \<open>writer\<close> of \<open>impl/fields.ipp\<close>.  The size of the body's
  payload is what the body reports and a parameter here.
\<close>

section \<open>Headers\<close>

datatype message_error =
  Unknown_method | Invalid_status | Invalid_request_body | Invalid_response_body | Field_error string_error

record request =
  rq_fields :: fields
  rq_version :: nat
  rq_method :: verb

record response =
  rs_fields :: fields
  rs_version :: nat
  rs_result :: nat

definition new_request :: request where
  "new_request = \<lparr>rq_fields = no_fields, rq_version = 11, rq_method = V_unknown\<rparr>"

definition new_response :: response where
  "new_response = \<lparr>rs_fields = no_fields, rs_version = 11, rs_result = 200\<rparr>"

definition set_method :: "verb \<Rightarrow> request \<Rightarrow> message_error + request" where
  "set_method v rq =
     (if v = V_unknown then Inl Unknown_method
      else Inr (rq\<lparr>rq_method := v, rq_fields := (rq_fields rq)\<lparr>f_method := []\<rparr>\<rparr>))"

definition method_string :: "request \<Rightarrow> string" where
  "method_string rq =
     (if rq_method rq \<noteq> V_unknown then verb_to_string (rq_method rq) else f_method (rq_fields rq))"

text \<open>The characters after the view \<open>s\<close>, which the search for the verb may read, are \<open>mem\<close>.\<close>

definition set_method_string :: "string \<Rightarrow> string \<Rightarrow> request \<Rightarrow> request option" where
  "set_method_string s mem rq =
     map_option (\<lambda>v. rq\<lparr>rq_method := v,
       rq_fields := (rq_fields rq)\<lparr>f_method := (if v \<noteq> V_unknown then [] else s)\<rparr>\<rparr>) (string_to_verb s mem)"

definition set_target :: "string \<Rightarrow> request \<Rightarrow> request" where
  "set_target s rq = rq\<lparr>rq_fields := (rq_fields rq)\<lparr>f_target := realloc_target s\<rparr>\<rparr>"

definition result :: "response \<Rightarrow> nat" where
  "result rs = int_to_status (rs_result rs)"

definition set_result_int :: "nat \<Rightarrow> response \<Rightarrow> message_error + response" where
  "set_result_int v rs = (if v > 999 then Inl Invalid_status else Inr (rs\<lparr>rs_result := v\<rparr>))"

definition reason :: "response \<Rightarrow> string" where
  "reason rs =
     (let s = f_target (rs_fields rs) in if s \<noteq> [] then s else status_to_string (rs_result rs))"

section \<open>The payload\<close>

fun and_also :: "string_error + 'a \<Rightarrow> ('a \<Rightarrow> string_error + 'b) \<Rightarrow> string_error + 'b" where
  "and_also (Inl e) g = Inl e"
| "and_also (Inr x) g = g x"

definition chunked :: "searches \<Rightarrow> bool \<Rightarrow> fields \<Rightarrow> string_error + fields" where
  "chunked K value f = and_also (set_chunked K value f) (set_content_length K None)"

definition content_length :: "searches \<Rightarrow> u64 option \<Rightarrow> fields \<Rightarrow> string_error + fields" where
  "content_length K value f = and_also (set_content_length K value f) (set_chunked K False)"

definition prepare_request :: "searches \<Rightarrow> u64 option \<Rightarrow> request \<Rightarrow> message_error + request" where
  "prepare_request K n rq =
     (if rq_method rq = V_trace \<and> (n = None \<or> the n > 0) then Inl Invalid_request_body
      else map_sum Field_error (\<lambda>f. rq\<lparr>rq_fields := f\<rparr>)
        (case n of
           Some k \<Rightarrow>
             if k > 0 \<or> rq_method rq = V_options \<or> rq_method rq = V_put \<or> rq_method rq = V_post
             then content_length K n (rq_fields rq)
             else chunked K False (rq_fields rq)
         | None \<Rightarrow>
             if rq_version rq = 11 then chunked K True (rq_fields rq) else chunked K False (rq_fields rq)))"

text \<open>
  The test for an informational result converts the status code itself to a status class, so it
  compares it with the number of that class, which is one.
\<close>

definition prepare_response :: "searches \<Rightarrow> u64 option \<Rightarrow> response \<Rightarrow> message_error + response" where
  "prepare_response K n rs =
     (if (n = None \<or> the n > 0) \<and> (result rs = 1 \<or> result rs = 204 \<or> result rs = 304) then Inl Invalid_response_body
      else map_sum Field_error (\<lambda>f. rs\<lparr>rs_fields := f\<rparr>)
        (case n of
           Some k \<Rightarrow> content_length K n (rs_fields rs)
         | None \<Rightarrow> if rs_version rs = 11 then chunked K True (rs_fields rs) else chunked K False (rs_fields rs)))"

definition need_eof_request :: "searches \<Rightarrow> request \<Rightarrow> bool" where
  "need_eof_request K rq \<longleftrightarrow> \<not> get_keep_alive K (rq_version rq) (rq_fields rq)"

definition need_eof_response :: "searches \<Rightarrow> response \<Rightarrow> bool" where
  "need_eof_response K rs =
     (if result rs = 204 \<or> result rs = 304 \<or> to_status_class (result rs) = Informational \<or>
         has_content_length K (rs_fields rs) \<or> get_chunked K (rs_fields rs)
      then \<not> get_keep_alive K (rs_version rs) (rs_fields rs) else True)"

section \<open>The writer\<close>

definition element_buffer :: "element \<Rightarrow> string" where
  "element_buffer e = ename e @ '': '' @ evalue e @ [CR, LF]"

definition digit_at :: "nat \<Rightarrow> char" where
  "digit_at n = char_of (48 + n)"

definition write_fields :: "fields \<Rightarrow> string" where
  "write_fields f = concat (map element_buffer (f_list f)) @ [CR, LF]"

definition write_request :: "request \<Rightarrow> string" where
  "write_request rq =
     (let sv = (if rq_method rq = V_unknown then f_method (rq_fields rq) else verb_to_string (rq_method rq)) in
      sv @ f_target (rq_fields rq) @
      '' HTTP/'' @ [digit_at (rq_version rq div 10), CHR ''.'', digit_at (rq_version rq mod 10), CR, LF] @
      write_fields (rq_fields rq))"

definition write_response :: "response \<Rightarrow> string" where
  "write_response rs =
     ''HTTP/'' @ [digit_at (rs_version rs div 10), CHR ''.'', digit_at (rs_version rs mod 10), CHR '' '',
       digit_at (rs_result rs div 100), digit_at (rs_result rs div 10 mod 10), digit_at (rs_result rs mod 10), CHR '' ''] @
     (let sv = f_target (rs_fields rs) in if sv \<noteq> [] then sv else status_to_string (rs_result rs)) @ [CR, LF] @
     write_fields (rs_fields rs)"

section \<open>The written header is a header\<close>

definition line_of :: "string \<times> string \<Rightarrow> hfield" where
  "line_of = (\<lambda>(n, v). (n, [('' '', v, [])]))"

definition field_text_ok :: "string \<times> string \<Rightarrow> bool" where
  "field_text_ok = (\<lambda>(n, v). n \<noteq> [] \<and> list_all is_token_char n \<and> list_all (\<lambda>c. \<not> is_control_char c) v)"

lemma line_text: "field_text (line_of (n, v)) = n @ '': '' @ v @ [CR, LF]"
  by (simp add: line_of_def field_text_def value_text_def part_text_def)

lemma trimmed_ends: "trim v = v \<Longrightarrow> v \<noteq> [] \<Longrightarrow> \<not> is_ows (hd v) \<and> \<not> is_ows (last v)"
proof -
  assume v: "trim v = v" "v \<noteq> []"
  obtain u where "skip_ows v = trim v @ u"
    using skip_ows_rev_prefix [of "skip_ows v"] by (auto simp: trim_def)
  then have s: "skip_ows v = v"
    using v length_skip_ows [of v] by (cases u) auto
  then show ?thesis
    using skip_ows_hd [of v] skip_ows_rev_last [of v] v by (simp add: trim_def)
qed

lemma line_wf: "field_text_ok (n, v) \<Longrightarrow> trim v = v \<Longrightarrow> field_wf (line_of (n, v))"
  using trimmed_ends [of v]
  by (auto simp: field_text_ok_def line_of_def field_wf_def folded_def part_ok_def one_line_def)

lemma content_lines: "content (map line_of xs) = xs"
  by (induction xs) (auto simp: content_def line_of_def field_value_def one_line_def)

lemma write_fields_text:
  assumes "holds_fields f xs"
  shows "write_fields f = fields_text (map line_of xs)"
proof -
  have "map element_buffer es = map field_text (map line_of (pairs es))" for es
    by (induction es) (simp_all add: line_text element_buffer_def)
  then show ?thesis
    using assms by (simp add: write_fields_def fields_text_def holds_fields_def)
qed

lemma lines_wf:
  assumes "holds_fields f xs" "list_all field_text_ok xs"
  shows "list_all field_wf (map line_of xs)"
proof -
  have "trim v = v" if "(n, v) \<in> set xs" for n v
    using holds_trim [OF assms(1), of v n] that by (force simp: values_of_def)
  then show ?thesis
    using assms(2) line_wf by (auto simp: list_all_iff)
qed

text \<open>The start lines.\<close>

definition start_of_request :: "request \<Rightarrow> start" where
  "start_of_request rq = Request (method_string rq) (get_target (rq_fields rq)) (rq_version rq = 11)"

definition start_of_response :: "response \<Rightarrow> start" where
  "start_of_response rs = Response (rs_result rs) (reason rs) (rs_version rs = 11)"

lemma digit_chars_01: "digit_at 0 = CHR ''0''" "digit_at (Suc 0) = CHR ''1''"
  by code_simp+

lemma write_request_text:
  assumes "holds_fields (rq_fields rq) xs" "rq_version rq \<in> {10, 11}" "f_target (rq_fields rq) = realloc_target t" "t \<noteq> []"
  shows "write_request rq = header_text (start_of_request rq) (map line_of xs)"
proof -
  have "'' HTTP/'' @ [digit_at (rq_version rq div 10), CHR ''.'', digit_at (rq_version rq mod 10), CR, LF] =
      '' '' @ version_text (rq_version rq = 11) @ [CR, LF]"
    using assms(2) by (auto simp: version_text_def digit_chars_01)
  then show ?thesis
    using assms(3,4) write_fields_text [OF assms(1)]
    by (simp add: write_request_def header_text_def start_of_request_def method_string_def get_target_def realloc_target_def)
qed

lemma write_response_text:
  assumes "holds_fields (rs_fields rs) xs" "rs_version rs \<in> {10, 11}"
  shows "write_response rs = header_text (start_of_response rs) (map line_of xs)"
proof -
  have "''HTTP/'' @ [digit_at (rs_version rs div 10), CHR ''.'', digit_at (rs_version rs mod 10), CHR '' ''] =
      version_text (rs_version rs = 11) @ '' ''"
    using assms(2) by (auto simp: version_text_def digit_chars_01)
  then show ?thesis
    using write_fields_text [OF assms(1)]
    by (simp add: write_response_def header_text_def start_of_response_def reason_def code_text_def digit_at_def Let_def)
qed

section \<open>Fields that say nothing of the framing\<close>

abbreviation length_name :: string where "length_name \<equiv> ''Content-Length''"
abbreviation encoding_name :: string where "encoding_name \<equiv> ''Transfer-Encoding''"

definition plain :: "(string \<times> string) list \<Rightarrow> bool" where
  "plain xs \<longleftrightarrow> list_all (\<lambda>(n, v). lower n \<noteq> lower length_name \<and> lower n \<noteq> lower encoding_name \<and>
     (connection_name n \<longrightarrow> validate_list v)) xs"

lemma iequals_lower: "iequals a b \<longleftrightarrow> lower b = lower a"
  by (auto simp: iequals_iff)

lemma list_flags_framing: "ContentLength \<notin> list_flags ts" "Chunked \<notin> list_flags ts"
  by (auto simp: list_flags_def)

lemma plain_field:
  assumes "lower n \<noteq> lower length_name" "lower n \<noteq> lower encoding_name" "connection_name n \<longrightarrow> validate_list v"
  shows "field_ok F (n, v)" "ContentLength \<notin> field_flags (n, v)" "Chunked \<notin> field_flags (n, v)" "field_len (n, v) l = l"
  using assms list_flags_framing by (auto simp: field_ok_def field_flags_def field_len_def iequals_lower)

lemma plain_fields:
  assumes "plain xs"
  shows "fields_ok F xs" "ContentLength \<notin> fields_flags xs" "Chunked \<notin> fields_flags xs" "fields_len xs l = l"
proof -
  have "fields_ok F xs \<and> ContentLength \<notin> fields_flags xs \<and> Chunked \<notin> fields_flags xs \<and> fields_len xs l = l"
    using assms
  proof (induction xs arbitrary: F l)
    case (Cons x xs)
    obtain n v where x: "x = (n, v)"
      by (cases x)
    have p: "lower n \<noteq> lower length_name" "lower n \<noteq> lower encoding_name" "connection_name n \<longrightarrow> validate_list v" "plain xs"
      using Cons.prems by (simp_all add: plain_def x)
    show ?case
      using plain_field [OF p(1-3)] Cons.IH [OF p(4)] by (simp add: x fields_flags_def fields_len_def)
  qed (simp add: fields_flags_def fields_len_def)
  then show "fields_ok F xs" "ContentLength \<notin> fields_flags xs" "Chunked \<notin> fields_flags xs" "fields_len xs l = l"
    by simp_all
qed

lemma fields_ok_concat: "fields_ok F (xs @ ys) \<longleftrightarrow> fields_ok F xs \<and> fields_ok (F \<union> fields_flags xs) ys"
  by (induction xs arbitrary: F) (auto simp: fields_flags_def Un_assoc)

lemma fields_flags_append: "fields_flags (xs @ ys) = fields_flags xs \<union> fields_flags ys"
  by (simp add: fields_flags_def)

lemma fields_len_append: "fields_len (xs @ ys) l = fields_len ys (fields_len xs l)"
  by (simp add: fields_len_def)

lemma names_distinct_lower: "lower length_name \<noteq> lower encoding_name"
  by (metis length_map list.size(3,4) numeral_eq_iff length_Cons Suc_inject nat.distinct(1))

lemma not_connection:
  "lower n = lower length_name \<Longrightarrow> \<not> connection_name n" "lower n = lower encoding_name \<Longrightarrow> \<not> connection_name n"
  by (auto simp: connection_name_def dest!: iequals_length map_eq_imp_length_eq)

lemma length_field:
  assumes "lower n = lower length_name"
  shows "field_ok F (n, v) \<longleftrightarrow> ContentLength \<notin> F \<and> Chunked \<notin> F \<and> length_ok v"
    "field_flags (n, v) = {ContentLength}" "field_len (n, v) l = of_nat (dec_value v)"
proof -
  have "\<not> connection_name n" "iequals length_name n"
    using not_connection(1) [OF assms] assms by (simp_all only: iequals_lower simp_thms)
  then show "field_ok F (n, v) \<longleftrightarrow> ContentLength \<notin> F \<and> Chunked \<notin> F \<and> length_ok v"
    "field_flags (n, v) = {ContentLength}" "field_len (n, v) l = of_nat (dec_value v)"
    by (simp_all add: field_ok_def field_flags_def field_len_def)
qed

lemma encoding_field:
  assumes "lower n = lower encoding_name"
  shows "field_ok F (n, v) \<longleftrightarrow> ContentLength \<notin> F \<and> Chunked \<notin> F"
    "field_flags (n, v) = (if chunked_last v then {Chunked} else {})"
proof -
  have "\<not> connection_name n" "\<not> iequals length_name n" "iequals encoding_name n"
    using not_connection(2) [OF assms] assms names_distinct_lower [symmetric] by (simp_all only: iequals_lower simp_thms)
  then show "field_ok F (n, v) \<longleftrightarrow> ContentLength \<notin> F \<and> Chunked \<notin> F"
    "field_flags (n, v) = (if chunked_last v then {Chunked} else {})"
    by (simp_all add: field_ok_def field_flags_def)
qed

lemma fields_Cons:
  "fields_flags (x # xs) = field_flags x \<union> fields_flags xs" "fields_len (x # xs) l = fields_len xs (field_len x l)"
  by (simp_all add: fields_flags_def fields_len_def)

text \<open>One field of a length, or one of the chunked encoding, among fields that say nothing.\<close>

lemma one_length:
  assumes "plain a" "plain b" "lower n = lower length_name" "length_ok v"
  shows "fields_ok {} (a @ (n, v) # b)" "ContentLength \<in> fields_flags (a @ (n, v) # b)"
    "fields_len (a @ (n, v) # b) 0 = of_nat (dec_value v)"
  using plain_fields [OF assms(1)] plain_fields [OF assms(2)] assms(4)
  by (simp_all add: fields_ok_concat fields_flags_append fields_len_append fields_Cons length_field [OF assms(3)])

lemma one_encoding:
  assumes "plain a" "plain b" "lower n = lower encoding_name" "chunked_last v"
  shows "fields_ok {} (a @ (n, v) # b)" "ContentLength \<notin> fields_flags (a @ (n, v) # b)"
    "Chunked \<in> fields_flags (a @ (n, v) # b)"
  using plain_fields [OF assms(1)] plain_fields [OF assms(2)] assms(4)
  by (simp_all add: fields_ok_concat fields_flags_append fields_Cons encoding_field [OF assms(3)])

section \<open>The fields of the payload\<close>

text \<open>
  The codings of the Transfer-Encoding field besides chunked.  The fields may hold framing fields
  that an earlier payload left: any Content-Length, and one Transfer-Encoding with a well-formed list
  of codings in which chunked can only be the last, and with room for one more.
\<close>

definition other_codings :: "(string \<times> string) list \<Rightarrow> string list" where
  "other_codings xs =
     (case values_of encoding_name xs of [] \<Rightarrow> [] | v # vs \<Rightarrow> filter (\<lambda>t. \<not> iequals t ''chunked'') (tokens v))"

definition encodings_ok :: "(string \<times> string) list \<Rightarrow> bool" where
  "encodings_ok xs \<longleftrightarrow>
     (case values_of encoding_name xs of
        [] \<Rightarrow> True
      | [v] \<Rightarrow> validate_list v \<and> list_all (\<lambda>t. \<not> iequals t ''chunked'') (butlast (tokens v))
      | _ \<Rightarrow> False) \<and>
     chunked_length True xs \<le> 65533 \<and> chunked_length False xs \<le> 65533"

definition payload_ready :: "(string \<times> string) list \<Rightarrow> bool" where
  "payload_ready xs \<longleftrightarrow> list_all field_text_ok xs \<and> plain (drop_fields encoding_name (drop_fields length_name xs)) \<and>
     encodings_ok xs"

lemma codings_left:
  assumes "list_all (\<lambda>t. \<not> iequals t ''chunked'') (butlast ts)"
  shows "(if last_chunked ts then butlast ts else ts) = filter (\<lambda>t. \<not> iequals t ''chunked'') ts"
  using assms
proof (cases ts rule: rev_cases)
  case (snoc us t)
  then have "filter (\<lambda>t. \<not> iequals t ''chunked'') us = us"
    using assms by (simp add: list_all_iff filter_id_conv)
  then show ?thesis
    by (simp add: snoc last_chunked_def)
qed (simp add: last_chunked_def)

lemma encodings_cases:
  assumes "encodings_ok xs"
  obtains (none) "values_of encoding_name xs = []" "other_codings xs = []"
  | (one) v where "values_of encoding_name xs = [v]" "validate_list v"
      "list_all (\<lambda>t. \<not> iequals t ''chunked'') (butlast (tokens v))"
      "other_codings xs = filter (\<lambda>t. \<not> iequals t ''chunked'') (tokens v)"
proof (cases "values_of encoding_name xs")
  case Nil
  then show thesis
    using none by (simp add: other_codings_def)
next
  case (Cons v vs)
  then show thesis
    using assms one [of v] by (cases vs) (simp_all add: encodings_ok_def other_codings_def)
qed

lemma other_codings_ok: "list_all token_ok (other_codings xs)"
  using tokens_ok by (auto simp: other_codings_def list_all_iff split: list.split)

lemma length_fields_codings:
  "other_codings (length_fields n xs) = other_codings xs" "encodings_ok (length_fields n xs) = encodings_ok xs"
proof -
  have "values_of encoding_name (length_fields n xs) = values_of encoding_name xs"
    using values_other [OF names_distinct_lower [symmetric]] by (cases n) (simp_all only: length_fields_def option.case)
  then show "other_codings (length_fields n xs) = other_codings xs" "encodings_ok (length_fields n xs) = encodings_ok xs"
    by (simp_all add: other_codings_def encodings_ok_def chunked_length_def)
qed

lemma validate_join: "list_all token_ok ts \<Longrightarrow> validate_list (join ts)"
proof -
  assume ok: "list_all token_ok ts"
  have "list_all piece_ok (pieces (join ts))"
  proof (cases ts)
    case Nil
    then show ?thesis
      by (simp add: join_def piece_ok_def piece_rest_def)
  next
    case (Cons t us)
    then show ?thesis
      using ok token_no_comma [of t] token_piece [of t] token_piece(4)
      by (auto simp: join_def pieces_join list_all_iff)
  qed
  then show ?thesis
    by (simp add: validate_list_def opt_tokens_pieces)
qed

text \<open>Chunked as the last of the codings.\<close>

lemma chunked_last_iff:
  "chunked_last v \<longleftrightarrow> last_chunked (tokens v) \<and> list_all (\<lambda>t. \<not> iequals t ''chunked'') (butlast (tokens v))"
  unfolding chunked_last_def last_chunked_def iequals_sym [of "''chunked''"] by simp

lemma chunked_lasts:
  assumes "list_all (\<lambda>t. \<not> iequals t ''chunked'') (butlast (tokens v))"
  shows "last_chunked (tokens v) \<Longrightarrow> chunked_last v"
    and "validate_list v \<Longrightarrow> \<not> last_chunked (tokens v) \<Longrightarrow> chunked_last (v @ '', chunked'')"
proof -
  show "chunked_last v" if "last_chunked (tokens v)"
    using that assms by (simp only: chunked_last_iff simp_thms)
  show "chunked_last (v @ '', chunked'')" if "validate_list v" "\<not> last_chunked (tokens v)"
  proof -
    have "filter (\<lambda>t. \<not> iequals t ''chunked'') (tokens v) = tokens v"
      using codings_left [OF assms] that(2) by (simp only: if_False)
    then have "list_all (\<lambda>t. \<not> iequals t ''chunked'') (tokens v)"
      by (simp only: filter_id_conv list_all_iff)
    moreover have "tokens (v @ '', chunked'') = tokens v @ [''chunked'']"
      using tokens_append [OF literal_tokens(3), of v] that(1) by (simp only: if_True append_Cons append_Nil)
    ultimately show ?thesis
      by (simp only: chunked_last_iff butlast_snoc) (simp add: last_chunked_def)
  qed
qed

lemma chunked_last_chunked: "chunked_last ''chunked''"
proof -
  have "tokens ''chunked'' = [''chunked'']"
    using tokens_join [of "[''chunked'']"] literal_tokens by (simp add: join_def with_comma_def)
  then show ?thesis
    by (simp add: chunked_last_def)
qed

text \<open>
  The parser looks at the first chunked in the list, the container at the last coding: with chunked
  twice only the container takes the message for chunked.
\<close>

lemma chunked_twice: "\<not> chunked_last ''chunked, chunked''" "last_chunked (tokens ''chunked, chunked'')"
proof -
  have "list_all token_ok [''chunked'', ''chunked'']"
    using literal_tokens by simp
  from tokens_join [OF this] have t: "tokens ''chunked, chunked'' = [''chunked'', ''chunked'']"
    by (simp add: join_def with_comma_def)
  show "\<not> chunked_last ''chunked, chunked''" "last_chunked (tokens ''chunked, chunked'')"
    unfolding chunked_last_iff t by (simp_all add: last_chunked_def)
qed

text \<open>The characters of a list of codings.\<close>

lemma token_control: "is_token_char c \<Longrightarrow> \<not> is_control_char c"
  by (auto simp: token_char_iff tchar_code_def alpha_code_def digit_code_def is_control_char_def is_print_iff)

lemma comma_control: "\<not> is_control_char (CHR '','')" "\<not> is_control_char (CHR '' '')"
  by (simp_all add: is_control_char_def is_print_iff uchar_def)

lemma encoding_text:
  "list_all token_ok ts \<Longrightarrow> field_text_ok (encoding_name, join ts)"
  "list_all (\<lambda>c. \<not> is_control_char c) v \<Longrightarrow> field_text_ok (encoding_name, v @ '', chunked'')"
  "field_text_ok (encoding_name, ''chunked'')"
proof -
  have n: "encoding_name \<noteq> []" "list_all is_token_char encoding_name"
    by (simp_all add: token_char_iff tchar_code_def alpha_code_def digit_code_def uchar_def)
  have comma: "list_all (\<lambda>c. \<not> is_control_char c) (with_comma ts)" if "list_all token_ok ts" for ts
    using that comma_control by (induction ts) (auto simp: with_comma_def token_ok_def list_all_iff dest: token_control)
  then show "field_text_ok (encoding_name, join ts)" if "list_all token_ok ts" for ts
    using n that by (cases ts) (auto simp: field_text_ok_def join_def token_ok_def list_all_iff dest: token_control)
  show "field_text_ok (encoding_name, v @ '', chunked'')" if "list_all (\<lambda>c. \<not> is_control_char c) v"
    using n that comma [of "[''chunked'']"] literal_tokens(3) by (simp add: field_text_ok_def with_comma_def)
  show "field_text_ok (encoding_name, ''chunked'')"
    using n comma [of "[''chunked'']"] literal_tokens(3) by (simp add: field_text_ok_def with_comma_def)
qed

lemma drop_absent: "values_of n xs = [] \<Longrightarrow> drop_fields n xs = xs"
  by (auto simp: values_of_def drop_fields_def filter_empty_conv filter_id_conv)

lemma drop_append: "drop_fields n (xs @ ys) = drop_fields n xs @ drop_fields n ys"
  by (simp add: drop_fields_def)

lemma drop_other: "lower m \<noteq> lower n \<Longrightarrow> drop_fields n [(m, v)] = [(m, v)]"
  by (simp add: drop_fields_def)

lemma drop_commute: "drop_fields a (drop_fields b xs) = drop_fields b (drop_fields a xs)"
  by (simp add: drop_fields_def conj_commute)

lemma values_one:
  assumes "values_of n xs = [v]"
  obtains a m b where "xs = a @ (m, v) # b" "lower m = lower n" "drop_fields n xs = a @ b"
proof -
  obtain y where f: "filter (\<lambda>x. lower (fst x) = lower n) xs = [y]" "snd y = v"
    using assms unfolding values_of_def by (cases "filter (\<lambda>x. lower (fst x) = lower n) xs") auto
  then obtain a b where ab: "xs = a @ y # b" "\<forall>x\<in>set a. lower (fst x) \<noteq> lower n" "lower (fst y) = lower n"
    "[] = filter (\<lambda>x. lower (fst x) = lower n) b"
    by (auto simp: filter_eq_Cons_iff)
  then have "drop_fields n xs = a @ b"
    by (auto simp: drop_fields_def filter_id_conv filter_empty_conv [symmetric] eq_commute [of "[]"])
  then show thesis
    using that [of a "fst y" b] ab f(2) by (cases y) auto
qed

text \<open>
  The fields after preparation: those that say nothing of the framing, then a length, then the
  codings other than chunked.
\<close>

definition framed :: "u64 option \<Rightarrow> (string \<times> string) list \<Rightarrow> (string \<times> string) list" where
  "framed n xs = drop_fields encoding_name (drop_fields length_name xs) @
     (case n of None \<Rightarrow> [] | Some k \<Rightarrow> [(length_name, raw_to_string_unsigned (unat k))]) @
     (if other_codings xs = [] then [] else [(encoding_name, join (other_codings xs))])"

lemma chunked_false:
  assumes "encodings_ok xs"
  shows "chunked_fields False xs = put_tokens encoding_name (other_codings xs) xs"
  using assms
proof (cases rule: encodings_cases)
  case none
  then show ?thesis
    using drop_absent [OF none(1)] by (simp add: chunked_fields_def put_tokens_def)
next
  case (one v)
  then show ?thesis
    using codings_left [OF one(3)] by (simp add: chunked_fields_def)
qed

lemma with_length:
  assumes "encodings_ok xs"
  shows "chunked_fields False (length_fields (Some k) xs) = framed (Some k) xs"
proof -
  have l: "length_fields (Some k) xs = drop_fields length_name xs @ [(length_name, raw_to_string_unsigned (unat k))]"
    by (simp add: length_fields_def put_field_def)
  have "drop_fields encoding_name (length_fields (Some k) xs) =
      drop_fields encoding_name (drop_fields length_name xs) @ [(length_name, raw_to_string_unsigned (unat k))]"
    unfolding l drop_append drop_other [OF names_distinct_lower] ..
  moreover have "chunked_fields False (length_fields (Some k) xs) =
      put_tokens encoding_name (other_codings xs) (length_fields (Some k) xs)"
    using chunked_false [of "length_fields (Some k) xs"] assms by (simp only: length_fields_codings)
  ultimately show ?thesis
    by (simp add: put_tokens_def put_field_def framed_def)
qed

lemma without_length:
  assumes "encodings_ok xs"
  shows "length_fields None (chunked_fields False xs) = framed None xs"
proof -
  have "drop_fields length_name (put_tokens encoding_name ts xs) = drop_fields encoding_name (drop_fields length_name xs) @
      (if ts = [] then [] else [(encoding_name, join ts)])" for ts
  proof -
    have "drop_fields length_name [(encoding_name, join ts)] = [(encoding_name, join ts)]"
      by (rule drop_other [OF names_distinct_lower [symmetric]])
    then show ?thesis
      using drop_commute [of length_name encoding_name xs] by (simp add: put_tokens_def put_field_def drop_append)
  qed
  then show ?thesis
    using chunked_false [OF assms] by (simp add: length_fields_def framed_def)
qed

lemma with_chunked:
  assumes "encodings_ok xs" "list_all field_text_ok xs"
  shows "\<exists>a m v b. length_fields None (chunked_fields True xs) = a @ (m, v) # b \<and> lower m = lower encoding_name \<and>
      chunked_last v \<and> a @ b = drop_fields encoding_name (drop_fields length_name xs) \<and> field_text_ok (m, v)"
proof -
  have put: "drop_fields length_name (put_field encoding_name v xs) =
      drop_fields encoding_name (drop_fields length_name xs) @ [(encoding_name, v)]" for v
    using drop_commute [of length_name encoding_name xs] drop_other [OF names_distinct_lower [symmetric], of v]
    by (simp add: put_field_def drop_append)
  have last: "\<exists>a m u b. drop_fields length_name (put_field encoding_name v xs) = a @ (m, u) # b \<and>
      lower m = lower encoding_name \<and> chunked_last u \<and>
      a @ b = drop_fields encoding_name (drop_fields length_name xs) \<and> field_text_ok (m, u)"
    if "chunked_last v" "field_text_ok (encoding_name, v)" for v
    unfolding put using that
    by (intro exI [of _ "drop_fields encoding_name (drop_fields length_name xs)"] exI [of _ encoding_name] exI [of _ v] exI [of _ "[]"]) simp
  from assms(1) show ?thesis
  proof (cases rule: encodings_cases)
    case none
    show ?thesis
      using none last [OF chunked_last_chunked encoding_text(3)] by (simp add: chunked_fields_def length_fields_def)
  next
    case (one v)
    obtain a m c where x: "xs = a @ (m, v) # c" "lower m = lower encoding_name" "drop_fields encoding_name xs = a @ c"
      by (rule values_one [OF one(1)])
    have ok: "field_text_ok (m, v)"
      using assms(2) by (simp add: x(1))
    show ?thesis
    proof (cases "last_chunked (tokens v)")
      case True
      have m: "lower m \<noteq> lower length_name"
        using x(2) names_distinct_lower by simp
      have "length_fields None (chunked_fields True xs) = drop_fields length_name a @ (m, v) # drop_fields length_name c"
        using one(1) True m x(1) by (simp add: chunked_fields_def length_fields_def drop_fields_def)
      moreover have "drop_fields length_name a @ drop_fields length_name c = drop_fields encoding_name (drop_fields length_name xs)"
        by (simp only: drop_commute [of encoding_name] x(3) drop_append)
      ultimately show ?thesis
        using x(2) ok chunked_lasts(1) [OF one(3) True] by blast
    next
      case False
      have "list_all (\<lambda>c. \<not> is_control_char c) v"
        using ok by (simp add: field_text_ok_def)
      then show ?thesis
        using False one(1,2) last [of "v @ '', chunked''"] chunked_lasts(2) [OF one(3)] encoding_text(2) [of v]
        by (simp add: chunked_fields_def length_fields_def)
    qed
  qed
qed

section \<open>Reading what was prepared\<close>

definition has_framing :: "(string \<times> string) list \<Rightarrow> framing \<Rightarrow> bool" where
  "has_framing xs fr \<longleftrightarrow> list_all field_text_ok xs \<and> fields_ok {} xs \<and>
     (case fr of
        Length k \<Rightarrow> ContentLength \<in> fields_flags xs \<and> fields_len xs 0 = k
      | Chunks \<Rightarrow> ContentLength \<notin> fields_flags xs \<and> Chunked \<in> fields_flags xs
      | _ \<Rightarrow> ContentLength \<notin> fields_flags xs \<and> Chunked \<notin> fields_flags xs)"

lemma digits_ok:
  assumes "unat k < 18446744073709551610"
  shows "length_ok (raw_to_string_unsigned (unat (k :: u64)))" "field_text_ok (length_name, raw_to_string_unsigned (unat k))"
proof -
  let ?s = "raw_to_string_unsigned (unat k)"
  have k: "unat k < 2 ^ 64"
    using assms by simp
  have d: "\<forall>c\<in>set ?s. 48 \<le> uchar c \<and> uchar c \<le> 57"
    using digits_text(4) [OF k] by blast
  then show "length_ok ?s"
    using assms digits_text(1) [OF k] dec_value_unsigned [of "unat k"]
    by (auto simp: length_ok_def list_all_iff is_digit_iff digit_code_def)
  have "list_all is_token_char length_name"
    by (simp add: token_char_iff tchar_code_def alpha_code_def digit_code_def uchar_def)
  moreover have "\<not> is_control_char c" if "48 \<le> uchar c \<and> uchar c \<le> 57" for c
    using that by (simp add: is_control_char_def is_print_iff)
  then have "list_all (\<lambda>c. \<not> is_control_char c) ?s"
    using d by (auto simp: list_all_iff)
  ultimately show "field_text_ok (length_name, ?s)"
    by (simp add: field_text_ok_def)
qed

lemma dropped_ok:
  assumes "payload_ready xs"
  shows "list_all field_text_ok (drop_fields encoding_name (drop_fields length_name xs))"
  using assms by (auto simp: payload_ready_def drop_fields_def list_all_iff)

text \<open>A length next to another coding is what the parser refuses.\<close>

definition prepared :: "framing \<Rightarrow> bool \<Rightarrow> (string \<times> string) list \<Rightarrow> bool" where
  "prepared fr refuses xs \<longleftrightarrow>
     (if refuses then list_all field_text_ok xs \<and> \<not> fields_ok {} xs else has_framing xs fr)"

lemma framed_ok:
  assumes "payload_ready xs"
  shows "unat k < 18446744073709551610 \<Longrightarrow> prepared (Length k) (other_codings xs \<noteq> []) (framed (Some k) xs)"
    and "has_framing (framed None xs) No_body" "has_framing (framed None xs) Until_close"
proof -
  let ?D = "drop_fields encoding_name (drop_fields length_name xs)"
  let ?te = "(encoding_name, join (other_codings xs))"
  have plain: "plain ?D" and chars: "list_all field_text_ok ?D" "field_text_ok ?te"
    using assms dropped_ok encoding_text(1) [OF other_codings_ok] by (auto simp: payload_ready_def)
  have nil: "plain []"
    by (simp add: plain_def)
  have te: "field_flags ?te = {}"
  proof -
    have "tokens (join (other_codings xs)) = other_codings xs"
      by (rule tokens_join [OF other_codings_ok])
    moreover have "\<not> last_chunked (other_codings xs)"
    proof -
      have "\<not> iequals t ''chunked''" if "t \<in> set (other_codings xs)" for t
        using that by (cases "values_of encoding_name xs") (simp_all add: other_codings_def)
      then show ?thesis
        unfolding last_chunked_def by (metis last_in_set)
    qed
    ultimately show ?thesis
      unfolding encoding_field(2) [OF refl] chunked_last_iff by simp
  qed
  show "prepared (Length k) (other_codings xs \<noteq> []) (framed (Some k) xs)" if k: "unat k < 18446744073709551610"
  proof (cases "other_codings xs = []")
    case True
    then show ?thesis
      using one_length [OF plain nil refl digits_ok(1) [OF k]] chars(1) digits_ok(2) [OF k] dec_value_unsigned [of "unat k"]
      by (simp add: prepared_def framed_def has_framing_def)
  next
    case False
    have "\<not> fields_ok {} (framed (Some k) xs)"
      using False unfolding framed_def
      by (simp add: fields_ok_concat length_field [OF refl] encoding_field(1) [OF refl])
    then show ?thesis
      using False chars digits_ok(2) [OF k] by (simp add: prepared_def framed_def)
  qed
  show "has_framing (framed None xs) No_body" "has_framing (framed None xs) Until_close"
    using plain_fields [OF plain] chars te
    by (auto simp: framed_def has_framing_def fields_ok_concat fields_flags_append fields_Cons encoding_field(1) [OF refl])
      (simp_all add: fields_flags_def)
qed

lemma content_length_framing:
  assumes "searches_ok K" "holds_fields f xs" "payload_ready xs" "unat k < 18446744073709551610"
  shows "\<exists>f' xs'. content_length K (Some k) f = Inr f' \<and> holds_fields f' xs' \<and> same_start f f' \<and>
    prepared (Length k) (other_codings xs \<noteq> []) xs'"
proof -
  have enc: "encodings_ok xs"
    using assms(3) by (simp add: payload_ready_def)
  obtain f1 where f1: "set_content_length K (Some k) f = Inr f1" "holds_fields f1 (length_fields (Some k) xs)" "same_start f f1"
    using set_content_length_holds [OF assms(1,2), of "Some k"] by blast
  have "chunked_length False (length_fields (Some k) xs) \<le> 65533"
    using enc length_fields_codings(2) [of "Some k" xs] by (simp add: encodings_ok_def)
  then obtain f2 where f2: "set_chunked K False f1 = Inr f2" "holds_fields f2 (framed (Some k) xs)" "same_start f1 f2"
    using set_chunked_holds [OF assms(1) f1(2), of False] with_length [OF enc, of k] by auto
  have "same_start f f2"
    using f1(3) f2(3) by (simp add: same_start_def)
  then show ?thesis
    using f1(1) f2(1,2) framed_ok(1) [OF assms(3,4)] by (auto simp: content_length_def)
qed

lemma chunked_framing:
  assumes "searches_ok K" "holds_fields f xs" "payload_ready xs"
  shows "\<exists>f' xs'. chunked K True f = Inr f' \<and> holds_fields f' xs' \<and> same_start f f' \<and> has_framing xs' Chunks"
    and "\<exists>f' xs'. chunked K False f = Inr f' \<and> holds_fields f' xs' \<and> same_start f f' \<and> has_framing xs' No_body \<and>
      has_framing xs' Until_close"
proof -
  let ?D = "drop_fields encoding_name (drop_fields length_name xs)"
  have enc: "encodings_ok xs" and plain: "plain ?D" and chars: "list_all field_text_ok xs"
    using assms(3) by (simp_all add: payload_ready_def)
  have step: "\<exists>f'. chunked K b f = Inr f' \<and> holds_fields f' (length_fields None (chunked_fields b xs)) \<and> same_start f f'" for b
  proof -
    have "chunked_length b xs \<le> 65533"
      using enc by (cases b) (simp_all add: encodings_ok_def)
    then obtain f1 where f1: "set_chunked K b f = Inr f1" "holds_fields f1 (chunked_fields b xs)" "same_start f f1"
      using set_chunked_holds [OF assms(1,2), of b] by auto
    then show ?thesis
      using set_content_length_holds [OF assms(1) f1(2), of None] by (auto simp: chunked_def same_start_def)
  qed
  obtain a m v b where ab: "length_fields None (chunked_fields True xs) = a @ (m, v) # b" "lower m = lower encoding_name"
    "chunked_last v" "a @ b = ?D" "field_text_ok (m, v)"
    using with_chunked [OF enc chars] by blast
  have "plain a" "plain b"
    using plain unfolding ab(4) [symmetric] by (simp_all add: plain_def)
  from one_encoding [OF this ab(2,3)]
  have "has_framing (a @ (m, v) # b) Chunks"
    using dropped_ok [OF assms(3)] ab(5) unfolding ab(4) [symmetric] by (simp add: has_framing_def)
  then show "\<exists>f' xs'. chunked K True f = Inr f' \<and> holds_fields f' xs' \<and> same_start f f' \<and> has_framing xs' Chunks"
    using step [of True] ab(1) by auto
  show "\<exists>f' xs'. chunked K False f = Inr f' \<and> holds_fields f' xs' \<and> same_start f f' \<and> has_framing xs' No_body \<and>
      has_framing xs' Until_close"
    using step [of False] without_length [OF enc] framed_ok(2,3) [OF assms(3)] by auto
qed

text \<open>
  What the parser does with a written header, whatever limit on the header it is within, whatever
  limit on the body and whatever follows: it reads all of it and expects the body to be framed as
  \<open>fr\<close> says, or it refuses the header.
\<close>

definition read_as :: "start \<Rightarrow> framing \<Rightarrow> string \<Rightarrow> (string \<times> string) list \<Rightarrow> bool" where
  "read_as s fr text xs \<longleftrightarrow> (\<forall>h b rest. length text \<le> h \<longrightarrow>
     (\<exists>ec st'. put (is_request s) recorder (fresh (is_request s) b h False) (text @ rest) = Some (length text, ec, st') \<and>
       header_outcome fr ((fresh (is_request s) b h False)\<lparr>state := Fields, derived := start_event s # map field_event xs\<rparr>)
         (ec, st')))"

definition refused :: "start \<Rightarrow> string \<Rightarrow> bool" where
  "refused s text \<longleftrightarrow> (\<forall>h b rest. length text \<le> h \<longrightarrow>
     (\<exists>e\<in>{Bad_value, Bad_content_length, Bad_transfer_encoding}. \<exists>n st'.
       put (is_request s) recorder (fresh (is_request s) b h False) (text @ rest) = Some (n, Some e, st')))"

lemma written_read:
  assumes "holds_fields f xs" "start_wf s" "text = header_text s (map line_of xs)" "prepared fr refuses xs"
    "\<not> refuses \<Longrightarrow> body_framing False s xs = fr'"
  shows "if refuses then refused s text else read_as s fr' text xs"
proof -
  have "list_all field_text_ok xs"
    using assms(4) by (auto simp: prepared_def has_framing_def split: if_splits)
  then have wf: "list_all field_wf (map line_of xs)"
    using lines_wf [OF assms(1)] by blast
  have "length (start_text s) \<le> h" "length (fields_text (map line_of xs)) \<le> h" if "length text \<le> h" for h
    using that by (simp_all add: assms(3) header_text_def)
  note p = put_header [OF assms(2) wf this, where sk = False, unfolded content_lines, folded assms(3)]
  show ?thesis
  proof (cases refuses)
    case True
    then show ?thesis
      using p assms(4) by (simp add: refused_def prepared_def)
  next
    case False
    then show ?thesis
      using p assms(4,5) by (simp add: read_as_def prepared_def has_framing_def)
  qed
qed

section \<open>Prepared messages\<close>

text \<open>
  Whether a request is sent with a Content-Length, and how its body is framed.  The size of a body
  is unknown in \<open>None\<close>; a request of HTTP/1.0 with such a body has no framing at all.
\<close>

definition sends_length :: "u64 option \<Rightarrow> request \<Rightarrow> bool" where
  "sends_length n rq = (case n of Some k \<Rightarrow> k > 0 \<or> rq_method rq \<in> {V_options, V_put, V_post} | None \<Rightarrow> False)"

definition request_framing :: "u64 option \<Rightarrow> request \<Rightarrow> framing" where
  "request_framing n rq =
     (case n of
        Some k \<Rightarrow> if sends_length n rq then Length k else No_body
      | None \<Rightarrow> if rq_version rq = 11 then Chunks else No_body)"

definition response_framing :: "u64 option \<Rightarrow> response \<Rightarrow> framing" where
  "response_framing n rs =
     (if rs_result rs div 100 = 1 \<or> rs_result rs = 204 \<or> rs_result rs = 304 then No_body
      else case n of
        Some k \<Rightarrow> Length k
      | None \<Rightarrow> if rs_version rs = 11 then Chunks else Until_close)"

definition payload_fits :: "u64 option \<Rightarrow> bool" where
  "payload_fits n \<longleftrightarrow> (case n of Some k \<Rightarrow> unat k < 18446744073709551610 | None \<Rightarrow> True)"

lemma request_body_framing:
  assumes "has_framing xs fr" "fr \<noteq> Until_close"
  shows "body_framing False (Request m t v) xs = fr"
  using assms by (cases fr) (simp_all add: has_framing_def body_framing_def)

lemma response_body_framing:
  assumes "has_framing xs fr" "fr \<noteq> No_body"
  shows "body_framing False (Response c r v) xs = (if c div 100 = 1 \<or> c = 204 \<or> c = 304 then No_body else fr)"
  using assms by (cases fr) (simp_all add: has_framing_def body_framing_def)

lemma request_prepared:
  assumes "searches_ok K" "holds_fields (rq_fields rq) xs" "payload_ready xs" "payload_fits n"
    "rq_method rq = V_trace \<longrightarrow> n = Some 0"
  shows "\<exists>f' xs'. prepare_request K n rq = Inr (rq\<lparr>rq_fields := f'\<rparr>) \<and> holds_fields f' xs' \<and> same_start (rq_fields rq) f' \<and>
    prepared (request_framing n rq) (sends_length n rq \<and> other_codings xs \<noteq> []) xs'"
proof -
  define go where "go = (case n of
           Some k \<Rightarrow>
             if k > 0 \<or> rq_method rq = V_options \<or> rq_method rq = V_put \<or> rq_method rq = V_post
             then content_length K n (rq_fields rq)
             else chunked K False (rq_fields rq)
         | None \<Rightarrow>
             if rq_version rq = 11 then chunked K True (rq_fields rq) else chunked K False (rq_fields rq))"
  have "\<not> (rq_method rq = V_trace \<and> (n = None \<or> the n > 0))"
    using assms(5) by auto
  from if_not_P [OF this] have go: "prepare_request K n rq = map_sum Field_error (\<lambda>f. rq\<lparr>rq_fields := f\<rparr>) go"
    unfolding prepare_request_def go_def .
  have "\<exists>f' xs'. go = Inr f' \<and> holds_fields f' xs' \<and> same_start (rq_fields rq) f' \<and>
      prepared (request_framing n rq) (sends_length n rq \<and> other_codings xs \<noteq> []) xs'"
    using content_length_framing [OF assms(1-3)] chunked_framing [OF assms(1-3)] assms(4)
    by (cases n) (fastforce simp: go_def request_framing_def sends_length_def payload_fits_def prepared_def)+
  then show ?thesis
    using go by auto
qed

lemma response_prepared:
  assumes "searches_ok K" "holds_fields (rs_fields rs) xs" "payload_ready xs" "payload_fits n"
    "result rs \<in> {204, 304} \<longrightarrow> n = Some 0"
  defines "fr \<equiv> (case n of Some k \<Rightarrow> Length k | None \<Rightarrow> if rs_version rs = 11 then Chunks else Until_close)"
  shows "\<exists>f' xs'. prepare_response K n rs = Inr (rs\<lparr>rs_fields := f'\<rparr>) \<and> holds_fields f' xs' \<and> same_start (rs_fields rs) f' \<and>
    prepared fr (n \<noteq> None \<and> other_codings xs \<noteq> []) xs'"
proof -
  define go where "go = (case n of
           Some k \<Rightarrow> content_length K n (rs_fields rs)
         | None \<Rightarrow> if rs_version rs = 11 then chunked K True (rs_fields rs) else chunked K False (rs_fields rs))"
  have "result rs \<noteq> 1"
    by (simp add: result_def int_to_status_def known_status_def)
  then have "\<not> ((n = None \<or> the n > 0) \<and> (result rs = 1 \<or> result rs = 204 \<or> result rs = 304))"
    using assms(5) by auto
  from if_not_P [OF this] have go: "prepare_response K n rs = map_sum Field_error (\<lambda>f. rs\<lparr>rs_fields := f\<rparr>) go"
    unfolding prepare_response_def go_def .
  have "\<exists>f' xs'. go = Inr f' \<and> holds_fields f' xs' \<and> same_start (rs_fields rs) f' \<and>
      prepared fr (n \<noteq> None \<and> other_codings xs \<noteq> []) xs'"
    using content_length_framing [OF assms(1-3)] chunked_framing [OF assms(1-3)] assms(4)
    by (cases n) (fastforce simp: go_def fr_def payload_fits_def prepared_def)+
  then show ?thesis
    using go by auto
qed

text \<open>Responses of any status: those to which no body is allowed too.\<close>

lemma response_put:
  assumes "searches_ok K" "holds_fields (rs_fields rs) xs" "payload_ready xs" "rs_version rs \<in> {10, 11}"
    "rs_result rs < 1000" "list_all (\<lambda>c. \<not> is_control_char c) (reason rs)" "payload_fits n"
    "result rs \<in> {204, 304} \<longrightarrow> n = Some 0"
  shows "\<exists>f' xs'. prepare_response K n rs = Inr (rs\<lparr>rs_fields := f'\<rparr>) \<and> holds_fields f' xs' \<and>
    (if n \<noteq> None \<and> other_codings xs \<noteq> [] then refused (start_of_response rs) (write_response (rs\<lparr>rs_fields := f'\<rparr>))
     else read_as (start_of_response rs) (response_framing n rs) (write_response (rs\<lparr>rs_fields := f'\<rparr>)) xs')"
proof -
  let ?fr = "case n of Some k \<Rightarrow> Length k | None \<Rightarrow> if rs_version rs = 11 then Chunks else Until_close"
  obtain f' xs' where f': "prepare_response K n rs = Inr (rs\<lparr>rs_fields := f'\<rparr>)" "holds_fields f' xs'"
      "same_start (rs_fields rs) f'" "prepared ?fr (n \<noteq> None \<and> other_codings xs \<noteq> []) xs'"
    using response_prepared [OF assms(1-3,7,8)] by blast
  let ?rs = "rs\<lparr>rs_fields := f'\<rparr>"
  have same: "start_of_response ?rs = start_of_response rs"
    using f'(3) by (simp add: start_of_response_def reason_def same_start_def Let_def)
  have written: "write_response ?rs = header_text (start_of_response rs) (map line_of xs')"
    using write_response_text [of ?rs xs'] f'(2) assms(4) by (simp add: same)
  have wf: "start_wf (start_of_response rs)"
    using assms(5,6) by (simp add: start_of_response_def)
  have "body_framing False (start_of_response rs) xs' = response_framing n rs"
    if "\<not> (n \<noteq> None \<and> other_codings xs \<noteq> [])"
  proof -
    have "has_framing xs' ?fr"
      using f'(4) that by (simp only: prepared_def if_False)
    from response_body_framing [OF this] show ?thesis
      by (simp add: start_of_response_def response_framing_def split: option.split)
  qed
  from written_read [OF f'(2) wf written f'(4) this] show ?thesis
    using f'(1,2) by blast
qed

section \<open>Properties\<close>

text \<open>
  C1: a request that \<open>prepare_payload\<close> has prepared and whose header is then written is read
  by the parser as it was meant: the method, the target, the version and all fields in their order
  arrive, nothing behind the header is touched, and the parser expects a body of that length, chunks
  for a size that is not known, or no body, whatever framing fields an earlier payload had left in the
  message.  There are two exceptions.  A request that is sent with a Content-Length and whose
  Transfer-Encoding names another coding than chunked keeps that coding next to the length, and the
  parser refuses it.  And a request of HTTP/1.0 with a body of unknown size is sent without any
  framing, so that the parser expects no body.
\<close>

theorem request_written_read:
  assumes "searches_ok K" "holds_fields (rq_fields rq) xs" "payload_ready xs" "rq_version rq \<in> {10, 11}"
    "f_target (rq_fields rq) = realloc_target t" "t \<noteq> []" "list_all is_pathchar t" "token_ok (method_string rq)"
    "payload_fits n" "rq_method rq = V_trace \<longrightarrow> n = Some 0"
  shows "\<exists>rq' xs'. prepare_request K n rq = Inr rq' \<and> holds_fields (rq_fields rq') xs' \<and>
    (if sends_length n rq \<and> other_codings xs \<noteq> [] then refused (start_of_request rq) (write_request rq')
     else read_as (start_of_request rq) (request_framing n rq) (write_request rq') xs')"
proof -
  let ?refuses = "sends_length n rq \<and> other_codings xs \<noteq> []"
  obtain f' xs' where f': "prepare_request K n rq = Inr (rq\<lparr>rq_fields := f'\<rparr>)" "holds_fields f' xs'"
      "same_start (rq_fields rq) f'" "prepared (request_framing n rq) ?refuses xs'"
    using request_prepared [OF assms(1-3,9,10)] by blast
  let ?rq = "rq\<lparr>rq_fields := f'\<rparr>"
  have same: "start_of_request ?rq = start_of_request rq"
    using f'(3) by (simp add: start_of_request_def method_string_def get_target_def same_start_def)
  have written: "write_request ?rq = header_text (start_of_request rq) (map line_of xs')"
    using write_request_text [of ?rq xs' t] f'(2,3) assms(4-6) by (simp add: same same_start_def)
  have wf: "start_wf (start_of_request rq)"
    using assms(5-8) by (simp add: start_of_request_def get_target_def realloc_target_def token_ok_def)
  have "body_framing False (start_of_request rq) xs' = request_framing n rq" if "\<not> ?refuses"
  proof -
    have "has_framing xs' (request_framing n rq)"
      using f'(4) that by (simp only: prepared_def if_False)
    from request_body_framing [OF this] show ?thesis
      by (simp add: start_of_request_def request_framing_def split: option.split)
  qed
  from written_read [OF f'(2) wf written f'(4) this] show ?thesis
    using f'(1,2) by (intro exI [of _ ?rq] exI [of _ xs']) simp
qed

theorem request_written_read_witness:
  "(\<exists>rq' xs'. prepare_request linear (Some 5) \<lparr>rq_fields = three_fields, rq_version = 11, rq_method = V_post\<rparr> = Inr rq' \<and>
      holds_fields (rq_fields rq') xs' \<and> read_as (Request ''POST'' ''/'' True) (Length 5) (write_request rq') xs') \<and>
   (\<exists>f rq'. set_field linear field_transfer_encoding ''deflate, chunked'' three_fields = Inr f \<and>
      prepare_request linear (Some 5) \<lparr>rq_fields = f, rq_version = 11, rq_method = V_post\<rparr> = Inr rq' \<and>
      refused (Request ''POST'' ''/'' True) (write_request rq'))"
proof -
  let ?rq = "\<lambda>f. \<lparr>rq_fields = f, rq_version = 11, rq_method = V_post\<rparr>"
  let ?xs = "[(''Set-Cookie'', ''a''), (''set-cookie'', ''b''), (''Host'', ''x'')]"
  let ?te = "?xs @ [(encoding_name, ''deflate, chunked'')]"
  note chars = token_char_iff tchar_code_def alpha_code_def digit_code_def pathchar_iff vchar_code_def uchar_def
    is_control_char_def is_print_iff
  have list: "list_all token_ok [''deflate'', ''chunked'']" "''deflate, chunked'' = join [''deflate'', ''chunked'']"
    by (simp_all add: token_ok_def chars join_def with_comma_def)
  have te: "tokens ''deflate, chunked'' = [''deflate'', ''chunked'']" "validate_list ''deflate, chunked''"
    using tokens_join [OF list(1)] validate_join [OF list(1)] unfolding list(2) [symmetric] .
  have vals: "values_of encoding_name ?xs = []" "values_of encoding_name ?te = [''deflate, chunked'']"
      "iequals ''deflate'' ''chunked'' = False" "iequals ''chunked'' ''chunked''"
    by code_simp+
  have "plain (drop_fields encoding_name (drop_fields length_name ?xs))"
      "plain (drop_fields encoding_name (drop_fields length_name ?te))"
    by code_simp+
  moreover have "encodings_ok ?xs" "encodings_ok ?te"
    unfolding encodings_ok_def chunked_length_def vals list.case te(1) last_chunked_def
    using te(2) by (simp_all only: vals simp_thms) (simp_all add: vals join_def with_comma_def)
  moreover have "list_all field_text_ok ?te"
    by (simp add: field_text_ok_def chars)
  ultimately have ready: "payload_ready ?xs" "payload_ready ?te"
    by (simp_all add: payload_ready_def)
  have codings: "other_codings ?xs = []" "other_codings ?te = [''deflate'']"
    unfolding other_codings_def vals list.case te by (simp_all add: vals)
  have target: "f_target three_fields = realloc_target ''/''"
    by (simp add: three_fields_def realloc_target_def)
  have start: "list_all is_pathchar ''/''" "token_ok (method_string (?rq f))" for f
    by (simp_all add: chars token_ok_def method_string_def)
  have fits: "payload_fits (Some 5)"
    by (simp add: payload_fits_def)
  have sends: "sends_length (Some 5) (?rq f)" "request_framing (Some 5) (?rq f) = Length 5"
      "f_target f = realloc_target ''/'' \<Longrightarrow> start_of_request (?rq f) = Request ''POST'' ''/'' True" for f
    by (simp_all add: sends_length_def request_framing_def start_of_request_def method_string_def get_target_def realloc_target_def)
  have "trim ''deflate, chunked'' = ''deflate, chunked''"
    unfolding list(2) by (rule trim_join [OF list(1)])
  moreover have "field_fits encoding_name ''deflate, chunked''"
    by (simp add: field_fits_def)
  moreover have "put_field encoding_name ''deflate, chunked'' ?xs = ?te"
    by code_simp
  ultimately obtain f where f: "set_field linear field_transfer_encoding ''deflate, chunked'' three_fields = Inr f"
      "holds_fields f ?te" "same_start three_fields f"
    using set_field_holds(1) [OF linear_ok three_fields_hold, of field_transfer_encoding "''deflate, chunked''"] by auto
  have target_f: "f_target f = realloc_target ''/''"
    using f(3) target by (simp add: same_start_def)
  show ?thesis
    using request_written_read [OF linear_ok _ ready(1) _ _ _ start(1) start(2) fits, of three_fields]
      request_written_read [OF linear_ok _ ready(2) _ _ _ start(1) start(2) fits, of f]
      three_fields_hold target f(1,2) target_f sends codings by fastforce
qed

text \<open>
  C2: the same for a response with a body that its status allows, or with an empty one: the parser
  expects a body of that length, chunks, a body up to the end of the connection, or none when the
  status is that of a response without a body.  The exception is again a Content-Length next to
  another coding than chunked, which is written and which the parser refuses.
\<close>

theorem response_written_read:
  assumes "searches_ok K" "holds_fields (rs_fields rs) xs" "payload_ready xs" "rs_version rs \<in> {10, 11}"
    "rs_result rs < 1000" "list_all (\<lambda>c. \<not> is_control_char c) (reason rs)" "payload_fits n"
    "rs_result rs div 100 = 1 \<or> rs_result rs \<in> {204, 304} \<longrightarrow> n = Some 0"
  shows "\<exists>rs' xs'. prepare_response K n rs = Inr rs' \<and> holds_fields (rs_fields rs') xs' \<and>
    (if n \<noteq> None \<and> other_codings xs \<noteq> [] then refused (start_of_response rs) (write_response rs')
     else read_as (start_of_response rs) (response_framing n rs) (write_response rs') xs')"
proof -
  have "result rs \<in> {204, 304} \<longrightarrow> rs_result rs \<in> {204, 304}"
    by (auto simp: result_def int_to_status_def split: if_splits)
  then have "result rs \<in> {204, 304} \<longrightarrow> n = Some 0"
    using assms(8) by blast
  from response_put [OF assms(1-7) this] show ?thesis
    by fastforce
qed

theorem response_written_read_witness:
  "\<exists>rs' xs'. prepare_response linear None \<lparr>rs_fields = no_fields, rs_version = 11, rs_result = 200\<rparr> = Inr rs' \<and>
    holds_fields (rs_fields rs') xs' \<and> read_as (Response 200 ''OK'' True) Chunks (write_response rs') xs'"
proof -
  let ?rs = "\<lparr>rs_fields = no_fields, rs_version = 11, rs_result = 200\<rparr>"
  have "holds_fields no_fields []"
    by (simp add: holds_fields_def fields_inv_def no_fields_def key_sorted_def)
  moreover have "payload_ready []"
    by (simp add: payload_ready_def plain_def drop_fields_def encodings_ok_def chunked_length_def values_of_def)
  moreover have r: "reason ?rs = ''OK''"
    by (simp add: reason_def no_fields_def) code_simp
  moreover have "list_all (\<lambda>c. \<not> is_control_char c) ''OK''"
    by (simp add: is_control_char_def is_print_iff uchar_def)
  moreover have "result ?rs \<notin> {204, 304}"
    by (simp add: result_def int_to_status_def known_status_def)
  ultimately have "\<exists>rs' xs'. prepare_response linear None ?rs = Inr rs' \<and> holds_fields (rs_fields rs') xs' \<and>
      read_as (start_of_response ?rs) (response_framing None ?rs) (write_response rs') xs'"
    using response_written_read [of linear ?rs "[]" None] by (simp add: payload_fits_def linear_ok)
  then show ?thesis
    using r by (simp add: response_framing_def start_of_response_def)
qed

text \<open>
  C33: a response to which no body is allowed gets one: \<open>prepare_payload\<close> means to refuse a
  body for an informational result, but compares the status code itself with the number of that
  class, so it announces the body, of which the parser at the other end knows nothing: it takes
  the octets for the next message.  (With another coding than chunked the parser refuses it.)
\<close>

theorem informational_body:
  assumes "searches_ok K" "holds_fields (rs_fields rs) xs" "payload_ready xs" "other_codings xs = []" "rs_version rs \<in> {10, 11}"
    "rs_result rs div 100 = 1" "list_all (\<lambda>c. \<not> is_control_char c) (reason rs)" "0 < k" "unat k < 18446744073709551610"
  shows "\<exists>rs'. prepare_response K (Some k) rs = Inr rs' \<and> has_content_length K (rs_fields rs') \<and>
    (\<exists>xs'. read_as (start_of_response rs) No_body (write_response rs') xs')"
proof -
  have c: "rs_result rs < 1000" "rs_result rs \<noteq> 204" "rs_result rs \<noteq> 304"
    using assms(6) by auto
  then have "result rs \<notin> {204, 304}"
    by (simp add: result_def int_to_status_def)
  moreover have fits: "payload_fits (Some k)"
    using assms(9) by (simp add: payload_fits_def)
  ultimately obtain f' xs' where r: "prepare_response K (Some k) rs = Inr (rs\<lparr>rs_fields := f'\<rparr>)" "holds_fields f' xs'"
      "read_as (start_of_response rs) (response_framing (Some k) rs) (write_response (rs\<lparr>rs_fields := f'\<rparr>)) xs'"
    using response_put [OF assms(1-3,5) c(1) assms(7), of "Some k"] assms(4) by auto
  moreover have "response_framing (Some k) rs = No_body"
    using assms(6) by (simp add: response_framing_def)
  moreover have "has_content_length K f'"
  proof -
    obtain f'' xs'' where f'': "content_length K (Some k) (rs_fields rs) = Inr f''" "holds_fields f'' xs''" "has_framing xs'' (Length k)"
      using content_length_framing [OF assms(1-3,9)] assms(4) by (auto simp: prepared_def)
    have "f' = f''"
      using r(1) f''(1) by (cases rs) (auto simp: prepare_response_def split: if_splits)
    moreover have "values_of length_name xs'' \<noteq> []"
    proof
      assume "values_of length_name xs'' = []"
      then have no: "\<forall>x\<in>set xs''. lower (fst x) \<noteq> lower length_name"
        by (auto simp: values_of_def filter_empty_conv)
      have "ContentLength \<notin> field_flags (n, v)" if "lower n \<noteq> lower length_name" for n v
        using that list_flags_framing by (auto simp: field_flags_def iequals_lower)
      then show False
        using f''(3) no by (auto simp: has_framing_def fields_flags_def)
    qed
    ultimately show ?thesis
      using has_content_length_holds [OF assms(1) f''(2)] by simp
  qed
  ultimately show ?thesis
    by auto
qed

theorem informational_body_witness:
  "\<exists>rs'. prepare_response linear (Some 5) \<lparr>rs_fields = no_fields, rs_version = 11, rs_result = 100\<rparr> = Inr rs' \<and>
    has_content_length linear (rs_fields rs')"
proof -
  let ?rs = "\<lparr>rs_fields = no_fields, rs_version = 11, rs_result = 100\<rparr>"
  have "holds_fields no_fields []"
    by (simp add: holds_fields_def fields_inv_def no_fields_def key_sorted_def)
  moreover have "payload_ready []"
    by (simp add: payload_ready_def plain_def drop_fields_def encodings_ok_def chunked_length_def values_of_def)
  moreover have "reason ?rs = ''Continue''"
    by (simp add: reason_def no_fields_def) code_simp
  moreover have "list_all (\<lambda>c. \<not> is_control_char c) ''Continue''"
    by (simp add: is_control_char_def is_print_iff uchar_def)
  ultimately show ?thesis
    using informational_body [of linear ?rs "[]" 5] by (auto simp: other_codings_def values_of_def linear_ok)
qed

end
