(* ===== verification/Pmd_Extension.thy ===== *)
theory Pmd_Extension
  imports Fields_Options
begin

text \<open>
  The negotiation of the compression of messages, \<open>beast/websocket/detail/pmd_extension.hpp\<close>,
  with the options of \<open>beast/websocket/option.hpp\<close>.  An offer and the answer to it are
  texts of the Sec-WebSocket-Extensions field.  An operation on the fields returns, throws, or
  strays where the code would overflow an integer.
\<close>

section \<open>Offers and options\<close>

record pmd_offer =
  accept :: bool
  server_max_window_bits :: int
  client_max_window_bits :: int
  server_no_context_takeover :: bool
  client_no_context_takeover :: bool

record permessage_deflate =
  server_enable :: bool
  client_enable :: bool
  opt_server_max_window_bits :: int
  opt_client_max_window_bits :: int
  opt_server_no_context_takeover :: bool
  opt_client_no_context_takeover :: bool
  compLevel :: int
  memLevel :: int

definition default_options :: permessage_deflate where
  "default_options = \<lparr>server_enable = False, client_enable = False, opt_server_max_window_bits = 15,
     opt_client_max_window_bits = 15, opt_server_no_context_takeover = False,
     opt_client_no_context_takeover = False, compLevel = 8, memLevel = 4\<rparr>"

section \<open>Reading\<close>

text \<open>The loop of \<open>parse_bits\<close>, with \<open>unsigned\<close> the 32 bits it is.\<close>

fun parse_bits_loop :: "string \<Rightarrow> 32 word \<Rightarrow> int" where
  "parse_bits_loop [] i = sint i"
| "parse_bits_loop (c # s) i =
     (if uchar c < 48 \<or> uchar c > 57 then -1
      else let i' = 10 * i + of_nat (uchar c - 48) in if i' < i then -1 else parse_bits_loop s i')"

definition parse_bits :: "string \<Rightarrow> int" where
  "parse_bits s =
     (if length s = 0 then -1
      else if length s > 2 then -1
      else if uchar (hd s) < 49 \<or> uchar (hd s) > 57 then -1
      else parse_bits_loop s 0)"

text \<open>One parameter: the offer after it, and whether the loop goes on.\<close>

definition pmd_param :: "string \<times> string \<Rightarrow> pmd_offer \<Rightarrow> pmd_offer \<times> bool" where
  "pmd_param param offer =
     (let (name, val) = param in
      if iequals name ''server_max_window_bits'' then
        (if server_max_window_bits offer \<noteq> 0 then (offer, False)
         else if val = [] then (offer, False)
         else let offer = offer\<lparr>server_max_window_bits := parse_bits val\<rparr> in
           if server_max_window_bits offer < 8 \<or> server_max_window_bits offer > 15 then (offer, False)
           else (offer, True))
      else if iequals name ''client_max_window_bits'' then
        (if client_max_window_bits offer \<noteq> 0 then (offer, False)
         else if val \<noteq> [] then
           (let offer = offer\<lparr>client_max_window_bits := parse_bits val\<rparr> in
            if client_max_window_bits offer < 8 \<or> client_max_window_bits offer > 15 then (offer, False)
            else (offer, True))
         else (offer\<lparr>client_max_window_bits := -1\<rparr>, True))
      else if iequals name ''server_no_context_takeover'' then
        (if server_no_context_takeover offer then (offer, False)
         else if val \<noteq> [] then (offer, False)
         else (offer\<lparr>server_no_context_takeover := True\<rparr>, True))
      else if iequals name ''client_no_context_takeover'' then
        (if client_no_context_takeover offer then (offer, False)
         else if val \<noteq> [] then (offer, False)
         else (offer\<lparr>client_no_context_takeover := True\<rparr>, True))
      else (offer, False))"

text \<open>\<open>None\<close> is a read past the end of a quoted value.\<close>

function pmd_params :: "param_iter \<Rightarrow> pmd_offer \<Rightarrow> pmd_offer option" where
  "pmd_params pi offer =
     (case param_list_increment pi of
        None \<Rightarrow> None
      | Some pi' \<Rightarrow>
          if pi_it pi' = [] \<and> pi_first pi' = [] then Some (offer\<lparr>accept := True\<rparr>)
          else let (offer, go_on) = pmd_param (pi_name pi', pi_value pi') offer in
            if go_on then pmd_params pi' offer else Some offer)"
  by auto
termination by (relation "measure (length \<circ> pi_it \<circ> fst)") (auto dest: param_list_increment_shrinks)

declare pmd_params.simps [simp del]

fun pmd_exts :: "(string \<times> string) list \<Rightarrow> pmd_offer \<Rightarrow> pmd_offer option" where
  "pmd_exts [] offer = Some offer"
| "pmd_exts ((name, ps) # es) offer =
     (if iequals name ''permessage-deflate''
      then pmd_params \<lparr>pi_it = ps, pi_first = ps, pi_name = [], pi_value = []\<rparr> offer
      else pmd_exts es offer)"

definition no_offer :: pmd_offer where
  "no_offer = \<lparr>accept = False, server_max_window_bits = 0, client_max_window_bits = 0,
     server_no_context_takeover = False, client_no_context_takeover = False\<rparr>"

definition pmd_read :: "searches \<Rightarrow> fields \<Rightarrow> pmd_offer option" where
  "pmd_read K f = pmd_exts (exts (lookup_named K ''Sec-WebSocket-Extensions'' f)) no_offer"

section \<open>Writing\<close>

text \<open>\<open>operator+=\<close> of the string of at most 512 characters.\<close>

definition add_text :: "string \<Rightarrow> string \<Rightarrow> string outcome" where
  "add_text t s = (if length s + length t > 512 then Throws Length_error else Returns (s @ t))"

definition add_bits :: "string \<Rightarrow> int \<Rightarrow> string \<Rightarrow> string outcome" where
  "add_bits name bits s =
     and_then (add_text (name @ ''='') s) (\<lambda>s. and_then (raw_to_string_signed 32 bits) (\<lambda>d. add_text d s))"

definition set_extensions :: "searches \<Rightarrow> string \<Rightarrow> fields \<Rightarrow> fields outcome" where
  "set_extensions K s f =
     (case set_field K field_sec_websocket_extensions s f of Inl e \<Rightarrow> Throws e | Inr f' \<Rightarrow> Returns f')"

definition offer_text :: "pmd_offer \<Rightarrow> string outcome" where
  "offer_text offer =
     and_then (add_text ''permessage-deflate'' []) (\<lambda>s.
     and_then
       (if server_max_window_bits offer \<noteq> 0 then
          (if server_max_window_bits offer \<noteq> -1
           then add_bits ''; server_max_window_bits'' (server_max_window_bits offer) s
           else add_text ''; server_max_window_bits'' s)
        else Returns s) (\<lambda>s.
     and_then
       (if client_max_window_bits offer \<noteq> 0 then
          (if client_max_window_bits offer \<noteq> -1
           then add_bits ''; client_max_window_bits'' (client_max_window_bits offer) s
           else add_text ''; client_max_window_bits'' s)
        else Returns s) (\<lambda>s.
     and_then
       (if server_no_context_takeover offer then add_text ''; server_no_context_takeover'' s else Returns s) (\<lambda>s.
       if client_no_context_takeover offer then add_text ''; client_no_context_takeover'' s else Returns s))))"

definition pmd_write :: "searches \<Rightarrow> fields \<Rightarrow> pmd_offer \<Rightarrow> fields outcome" where
  "pmd_write K f offer = and_then (offer_text offer) (\<lambda>s. set_extensions K s f)"

section \<open>Negotiation\<close>

text \<open>The answer, in the order the code writes it: its text and the configuration so far.\<close>

definition answer_takeover :: "pmd_offer \<Rightarrow> permessage_deflate \<Rightarrow> pmd_offer \<Rightarrow> (string \<times> pmd_offer) outcome" where
  "answer_takeover offer opt config =
     (let config = config\<lparr>server_no_context_takeover :=
            server_no_context_takeover offer \<or> opt_server_no_context_takeover opt\<rparr> in
      and_then (add_text ''permessage-deflate'' []) (\<lambda>s.
      and_then (if server_no_context_takeover config then add_text ''; server_no_context_takeover'' s else Returns s) (\<lambda>s.
      let config = config\<lparr>client_no_context_takeover :=
            opt_client_no_context_takeover opt \<or> client_no_context_takeover offer\<rparr> in
      and_then (if client_no_context_takeover config then add_text ''; client_no_context_takeover'' s else Returns s) (\<lambda>s.
      Returns (s, config)))))"

definition answer_server_bits :: "pmd_offer \<Rightarrow> permessage_deflate \<Rightarrow> string \<times> pmd_offer \<Rightarrow> (string \<times> pmd_offer) outcome" where
  "answer_server_bits offer opt = (\<lambda>(s, config).
     let config = config\<lparr>server_max_window_bits :=
           (if server_max_window_bits offer \<noteq> 0
            then min (server_max_window_bits offer) (opt_server_max_window_bits opt)
            else opt_server_max_window_bits opt)\<rparr> in
     if server_max_window_bits config < 15 then
       let config = (if server_max_window_bits config < 9 then config\<lparr>server_max_window_bits := 9\<rparr> else config) in
       and_then (add_bits ''; server_max_window_bits'' (server_max_window_bits config) s) (\<lambda>s. Returns (s, config))
     else Returns (s, config))"

definition answer_client_bits :: "pmd_offer \<Rightarrow> permessage_deflate \<Rightarrow> string \<times> pmd_offer \<Rightarrow> (string \<times> pmd_offer) outcome" where
  "answer_client_bits offer opt = (\<lambda>(s, config).
     if client_max_window_bits offer = -1 then
       (let config = config\<lparr>client_max_window_bits := opt_client_max_window_bits opt\<rparr> in
        if client_max_window_bits config < 15
        then and_then (add_bits ''; client_max_window_bits'' (client_max_window_bits config) s) (\<lambda>s. Returns (s, config))
        else Returns (s, config))
     else if client_max_window_bits offer = 0 then
       (if opt_client_max_window_bits opt = 15 then Returns (s, config\<lparr>client_max_window_bits := 15\<rparr>)
        else Returns (s, config\<lparr>accept := False\<rparr>))
     else
       (let config = config\<lparr>client_max_window_bits :=
              min (opt_client_max_window_bits opt) (client_max_window_bits offer)\<rparr> in
        and_then (add_bits ''; client_max_window_bits'' (client_max_window_bits config) s) (\<lambda>s. Returns (s, config))))"

definition pmd_negotiate ::
  "searches \<Rightarrow> fields \<Rightarrow> pmd_offer \<Rightarrow> pmd_offer \<Rightarrow> permessage_deflate \<Rightarrow> (fields \<times> pmd_offer) outcome" where
  "pmd_negotiate K f config offer opt =
     (if \<not> (accept offer \<and> server_enable opt) then Returns (f, config\<lparr>accept := False\<rparr>)
      else
        and_then (answer_takeover offer opt (config\<lparr>accept := True\<rparr>)) (\<lambda>sc.
        and_then (answer_server_bits offer opt sc) (\<lambda>sc.
        and_then (answer_client_bits offer opt sc) (\<lambda>(s, config).
        if accept config then and_then (set_extensions K s f) (\<lambda>f. Returns (f, config))
        else Returns (f, config)))))"

definition pmd_normalize :: "pmd_offer \<Rightarrow> pmd_offer" where
  "pmd_normalize offer =
     (if accept offer then
        let offer = (if server_max_window_bits offer = 0 then offer\<lparr>server_max_window_bits := 15\<rparr> else offer) in
        if client_max_window_bits offer = 0 \<or> client_max_window_bits offer = -1
        then offer\<lparr>client_max_window_bits := 15\<rparr> else offer
      else offer)"

section \<open>Values in quotes\<close>

lemma quoted_end_split: "quoted_end t = Some g \<Longrightarrow> \<exists>v w. t = v @ CHR 0x22 # g \<and> unquote_loop v = Some w"
proof (induction t arbitrary: g rule: quoted_end.induct)
  case (2 c s)
  show ?case
  proof (cases "c = CHR 0x22")
    case True
    then show ?thesis
      using 2(3) by simp
  next
    case c: False
    show ?thesis
    proof (cases "is_qdchar c")
      case True
      then obtain v w where "s = v @ CHR 0x22 # g" "unquote_loop v = Some w"
        using 2(1) [OF c True, of g] 2(3) c by auto
      moreover have "c \<noteq> CHR 0x5C"
        using True not_qdchar by auto
      ultimately have "c # s = (c # v) @ CHR 0x22 # g \<and> unquote_loop (c # v) = Some (c # w)"
        by simp
      then show ?thesis
        by blast
    next
      case False
      then obtain d s' where s: "c = CHR 0x5C" "s = d # s'" "is_qpchar d" "quoted_end s' = Some g"
        using 2(3) c by (auto split: if_splits list.splits)
      then obtain v w where "s' = v @ CHR 0x22 # g" "unquote_loop v = Some w"
        using 2(2) [OF c False, of d s' g] by auto
      then show ?thesis
        using s by (intro exI [where x = "c # d # v"] exI [where x = "d # w"]) simp
    qed
  qed
qed simp

lemma param_increment_value:
  "pi_value (param_increment pi) = [] \<or>
   (\<exists>t g. pi_value (param_increment pi) = upto_iter (CHR 0x22 # t) g \<and> quoted_end t = Some g) \<or>
   (\<exists>c t. pi_value (param_increment pi) = upto_iter (c # t) (skip_token t) \<and> is_token_char c)"
proof -
  define a where "a = skip_ows (pi_it pi)"
  define b where "b = skip_ows (tl a)"
  define d where "d = skip_ows (skip_token (tl b))"
  define e where "e = skip_ows (tl d)"
  have "pi_value (param_increment pi) = [] \<or>
      e \<noteq> [] \<and> (if hd e = CHR 0x22
        then (case quoted_end (tl e) of None \<Rightarrow> pi_value (param_increment pi) = []
          | Some g \<Rightarrow> pi_value (param_increment pi) = upto_iter e g)
        else is_token_char (hd e) \<and> pi_value (param_increment pi) = upto_iter e (skip_token (tl e)))"
    unfolding param_increment_def Let_def a_def [symmetric] b_def [symmetric] d_def [symmetric] e_def [symmetric]
    by (simp split: option.split)
  then show ?thesis
    by (cases e) (auto split: if_splits option.splits)
qed

text \<open>So a loop over the parameters never reads past the end.\<close>

lemma param_list_increment_total: "\<exists>pi'. param_list_increment pi = Some pi'"
proof -
  let ?q = "param_increment pi"
  have "unquote (pi_value ?q) \<noteq> None" if ne: "pi_value ?q \<noteq> []" and quoted: "hd (pi_value ?q) = CHR 0x22"
  proof -
    consider t g where "pi_value ?q = upto_iter (CHR 0x22 # t) g" "quoted_end t = Some g"
      | c t where "pi_value ?q = upto_iter (c # t) (skip_token t)" "is_token_char c"
      using ne param_increment_value [of pi] by blast
    then show ?thesis
    proof cases
      case 1
      then obtain v w where "t = v @ CHR 0x22 # g" "unquote_loop v = Some w"
        using quoted_end_split by blast
      then show ?thesis
        using 1 upto_iter_append [of "CHR 0x22 # v @ [CHR 0x22]" g] by (simp add: unquote_def butlast_append)
    next
      case 2
      then have "hd (pi_value ?q) = c"
        using length_skip_token [of t] by (simp add: upto_iter_def Suc_diff_le)
      then show ?thesis
        using 2 quoted not_token by auto
    qed
  qed
  then show ?thesis
    by (auto simp: param_list_increment_def Let_def)
qed

lemma params_from_total: "\<exists>ps. params_from pi = Some ps"
proof (induction pi rule: measure_induct_rule [of "length \<circ> pi_it"])
  case (less pi)
  obtain pi' where p: "param_list_increment pi = Some pi'"
    using param_list_increment_total by blast
  show ?case
    using less.IH [of pi'] param_list_increment_shrinks [OF p] p by (subst params_from.simps) auto
qed


section \<open>Reading a list of parameters\<close>

fun pmd_list :: "(string \<times> string) list \<Rightarrow> pmd_offer \<Rightarrow> pmd_offer" where
  "pmd_list [] offer = offer\<lparr>accept := True\<rparr>"
| "pmd_list (p # ps) offer = (let (offer, go_on) = pmd_param p offer in if go_on then pmd_list ps offer else offer)"

lemma pmd_params_list: "params_from pi = Some ps \<Longrightarrow> pmd_params pi offer = Some (pmd_list ps offer)"
proof (induction pi arbitrary: ps offer rule: measure_induct_rule [of "length \<circ> pi_it"])
  case (less pi)
  obtain pi' where p: "param_list_increment pi = Some pi'"
    using param_list_increment_total by blast
  show ?case
  proof (cases "pi_it pi' = [] \<and> pi_first pi' = []")
    case True
    then have "ps = []"
      using less.prems p by (subst (asm) params_from.simps) simp
    then show ?thesis
      using p True by (subst pmd_params.simps) simp
  next
    case False
    then obtain qs where q: "params_from pi' = Some qs" "ps = (pi_name pi', pi_value pi') # qs"
      using less.prems p by (subst (asm) params_from.simps) auto
    then show ?thesis
      using less.IH [OF _ q(1)] param_list_increment_shrinks [OF p False] p False
      by (subst pmd_params.simps) (auto split: prod.split)
  qed
qed

lemma pmd_exts_eq:
  "pmd_exts es offer =
     (case find (\<lambda>(n, t). iequals n ''permessage-deflate'') es of
        None \<Rightarrow> Some offer | Some (n, t) \<Rightarrow> Some (pmd_list (the (params t)) offer))"
proof (induction es offer rule: pmd_exts.induct)
  case (2 name t es offer)
  obtain ps where "params t = Some ps"
    unfolding params_def using params_from_total by blast
  then show ?case
    using 2 pmd_params_list by (simp add: params_def)
qed simp

text \<open>
  The offer that a list of parameters makes, and the parameters that are valid: the four names
  in any case, a number from 8 to 15 without leading zeros or no value where that is allowed.
\<close>

abbreviation lower_name :: "string \<times> string \<Rightarrow> string" where
  "lower_name p \<equiv> lower (fst p)"

definition bits_of :: "string \<Rightarrow> (string \<times> string) list \<Rightarrow> int" where
  "bits_of name ps =
     (case map_of (map (\<lambda>(n, v). (lower n, v)) ps) name of
        None \<Rightarrow> 0 | Some v \<Rightarrow> if v = [] then -1 else int (dec_value v))"

definition offer_of :: "(string \<times> string) list \<Rightarrow> pmd_offer" where
  "offer_of ps = \<lparr>accept = False,
     server_max_window_bits = bits_of ''server_max_window_bits'' ps,
     client_max_window_bits = bits_of ''client_max_window_bits'' ps,
     server_no_context_takeover = (''server_no_context_takeover'' \<in> lower_name ` set ps),
     client_no_context_takeover = (''client_no_context_takeover'' \<in> lower_name ` set ps)\<rparr>"

definition bits_texts :: "string list" where
  "bits_texts = [''8'', ''9'', ''10'', ''11'', ''12'', ''13'', ''14'', ''15'']"

definition param_valid :: "string \<times> string \<Rightarrow> bool" where
  "param_valid = (\<lambda>(n, v).
     lower n = ''server_max_window_bits'' \<and> v \<in> set bits_texts \<or>
     lower n = ''client_max_window_bits'' \<and> (v = [] \<or> v \<in> set bits_texts) \<or>
     lower n = ''server_no_context_takeover'' \<and> v = [] \<or>
     lower n = ''client_no_context_takeover'' \<and> v = [])"

lemma lower_names:
  "lower ''server_max_window_bits'' = ''server_max_window_bits''"
  "lower ''client_max_window_bits'' = ''client_max_window_bits''"
  "lower ''server_no_context_takeover'' = ''server_no_context_takeover''"
  "lower ''client_no_context_takeover'' = ''client_no_context_takeover''"
  "lower ''permessage-deflate'' = ''permessage-deflate''"
  by code_simp+

lemma parse_bits_texts: "v \<in> set bits_texts \<Longrightarrow> parse_bits v = int (dec_value v) \<and> v \<noteq> [] \<and> 8 \<le> parse_bits v \<and> parse_bits v \<le> 15"
proof -
  have "list_all (\<lambda>v. parse_bits v = int (dec_value v) \<and> v \<noteq> [] \<and> 8 \<le> parse_bits v \<and> parse_bits v \<le> 15) bits_texts"
    by code_simp
  then show "v \<in> set bits_texts \<Longrightarrow> parse_bits v = int (dec_value v) \<and> v \<noteq> [] \<and> 8 \<le> parse_bits v \<and> parse_bits v \<le> 15"
    unfolding list_all_iff by blast
qed

lemma digit_listed: "48 \<le> uchar c \<Longrightarrow> uchar c \<le> 57 \<Longrightarrow> c \<in> set ''0123456789''"
proof -
  assume "48 \<le> uchar c" "uchar c \<le> 57"
  then have "uchar c \<in> set [48..<58]"
    unfolding set_upt atLeastLessThan_iff by linarith
  moreover have "list_all (\<lambda>n. n \<in> set (map uchar ''0123456789'')) [48..<58]"
    by code_simp
  ultimately have "uchar c \<in> set (map uchar ''0123456789'')"
    unfolding list_all_iff by blast
  then show ?thesis
    unfolding set_map by (metis imageE uchar_inj)
qed

lemma parse_bits_range:
  assumes "8 \<le> parse_bits v" "parse_bits v \<le> 15"
  shows "v \<in> set bits_texts"
proof -
  have digits: "\<forall>c\<in>set v. 48 \<le> uchar c \<and> uchar c \<le> 57"
    if "parse_bits_loop v i \<noteq> -1" for i
    using that by (induction v i rule: parse_bits_loop.induct) (auto simp: Let_def split: if_splits)
  have "parse_bits_loop v 0 \<noteq> -1" "v \<noteq> []" "length v \<le> 2"
    using assms by (auto simp: parse_bits_def split: if_splits)
  then have "(\<exists>c. v = [c]) \<or> (\<exists>c d. v = [c, d])" "\<forall>c\<in>set v. 48 \<le> uchar c \<and> uchar c \<le> 57"
    using digits [of 0] by (cases v; cases "tl v"; simp)+
  then have "(\<exists>c. v = [c]) \<or> (\<exists>c d. v = [c, d])" "\<forall>c\<in>set v. c \<in> set ''0123456789''"
    using digit_listed by blast+
  then consider c where "v = [c]" "c \<in> set ''0123456789''"
    | c d where "v = [c, d]" "c \<in> set ''0123456789''" "d \<in> set ''0123456789''"
    by (metis list.set_intros)
  then show ?thesis
  proof cases
    case 1
    have "list_all (\<lambda>c. 8 \<le> parse_bits [c] \<longrightarrow> [c] \<in> set bits_texts) ''0123456789''"
      by code_simp
    then show ?thesis
      using 1 assms unfolding list_all_iff by blast
  next
    case 2
    have "list_all (\<lambda>c. list_all (\<lambda>d. 8 \<le> parse_bits [c, d] \<and> parse_bits [c, d] \<le> 15 \<longrightarrow> [c, d] \<in> set bits_texts)
        ''0123456789'') ''0123456789''"
      by code_simp
    then show ?thesis
      using 2 assms unfolding list_all_iff by blast
  qed
qed

lemma bits_of_snoc:
  "name \<notin> lower_name ` set qs \<Longrightarrow> bits_of name (qs @ [(n, v)]) =
     (if lower n = name then if v = [] then -1 else int (dec_value v) else bits_of name qs)"
  "name \<notin> lower_name ` set qs \<Longrightarrow> bits_of name qs = 0"
proof -
  assume a: "name \<notin> lower_name ` set qs"
  then have "map_of (map (\<lambda>(n, v). (lower n, v)) qs) name = None"
    by (force simp: map_of_eq_None_iff)
  then show "bits_of name (qs @ [(n, v)]) =
     (if lower n = name then if v = [] then -1 else int (dec_value v) else bits_of name qs)" "bits_of name qs = 0"
    by (simp_all add: bits_of_def map_of_append map_add_def)
qed

lemma bits_of_other: "lower n \<noteq> name \<Longrightarrow> bits_of name (qs @ [(n, v)]) = bits_of name qs"
  by (simp add: bits_of_def map_of_append map_add_def split: option.splits)

lemma bits_of_nonzero:
  assumes "list_all param_valid qs" "name \<in> lower_name ` set qs" "name = ''server_max_window_bits'' \<or> name = ''client_max_window_bits''"
  shows "bits_of name qs \<noteq> 0"
proof -
  obtain v where v: "map_of (map (\<lambda>(n, v). (lower n, v)) qs) name = Some v"
    using assms(2) by (cases "map_of (map (\<lambda>(n, v). (lower n, v)) qs) name") (force simp: map_of_eq_None_iff)+
  then obtain n where "(n, v) \<in> set qs" "lower n = name"
    using map_of_SomeD [OF v] by auto
  then have "param_valid (n, v)" "lower n = name"
    using assms(1) by (auto simp: list_all_iff)
  then have "v = [] \<or> v \<in> set bits_texts"
    by (auto simp: param_valid_def)
  then show ?thesis
    using v parse_bits_texts [of v] by (auto simp: bits_of_def)
qed

lemma iequals_names:
  "iequals n ''server_max_window_bits'' \<longleftrightarrow> lower n = ''server_max_window_bits''"
  "iequals n ''client_max_window_bits'' \<longleftrightarrow> lower n = ''client_max_window_bits''"
  "iequals n ''server_no_context_takeover'' \<longleftrightarrow> lower n = ''server_no_context_takeover''"
  "iequals n ''client_no_context_takeover'' \<longleftrightarrow> lower n = ''client_no_context_takeover''"
  "iequals n ''permessage-deflate'' \<longleftrightarrow> lower n = ''permessage-deflate''"
  unfolding iequals_iff lower_names by (rule refl)+

lemma param_valid_name: "param_valid p \<Longrightarrow> lower_name p \<in> {''server_max_window_bits'', ''client_max_window_bits'',
    ''server_no_context_takeover'', ''client_no_context_takeover''}"
  by (auto simp: param_valid_def split: prod.splits)

lemma no_alternative:
  "\<not> (m = a \<and> P \<or> m = b \<and> (E \<or> P) \<or> m = c \<and> E \<or> m = d \<and> E) \<Longrightarrow>
    m = a \<and> \<not> P \<or> m = b \<and> \<not> E \<and> \<not> P \<or> m = c \<and> \<not> E \<or> m = d \<and> \<not> E \<or> m \<notin> {a, b, c, d}"
  by blast

lemma pmd_param_step:
  assumes "list_all param_valid qs"
  shows "param_valid p \<Longrightarrow> lower_name p \<notin> lower_name ` set qs \<Longrightarrow> pmd_param p (offer_of qs) = (offer_of (qs @ [p]), True)"
    "\<not> (param_valid p \<and> lower_name p \<notin> lower_name ` set qs) \<Longrightarrow>
      \<not> snd (pmd_param p (offer_of qs)) \<and> \<not> accept (fst (pmd_param p (offer_of qs)))"
proof -
  obtain n v where p: "p = (n, v)"
    by (cases p)
  note simps = p pmd_param_def offer_of_def iequals_names bits_of_snoc bits_of_other Let_def
  show "pmd_param p (offer_of qs) = (offer_of (qs @ [p]), True)"
    if ok: "param_valid p" and new: "lower_name p \<notin> lower_name ` set qs"
  proof -
    consider "lower n = ''server_max_window_bits''" "v \<in> set bits_texts"
      | "lower n = ''client_max_window_bits''" "v \<in> set bits_texts"
      | "lower n = ''client_max_window_bits''" "v = []"
      | "lower n = ''server_no_context_takeover''" "v = []"
      | "lower n = ''client_no_context_takeover''" "v = []"
      using ok by (auto simp: p param_valid_def)
    then show ?thesis
      using new parse_bits_texts [of v] by cases (simp_all add: simps)
  qed
  show "\<not> snd (pmd_param p (offer_of qs)) \<and> \<not> accept (fst (pmd_param p (offer_of qs)))"
    if bad: "\<not> (param_valid p \<and> lower_name p \<notin> lower_name ` set qs)"
  proof (cases "lower n \<in> lower_name ` set qs")
    case True
    then obtain q where "q \<in> set qs" "lower_name q = lower n"
      by auto
    then have "lower n \<in> {''server_max_window_bits'', ''client_max_window_bits'',
        ''server_no_context_takeover'', ''client_no_context_takeover''}"
      using assms param_valid_name [of q] by (auto simp: list_all_iff)
    then consider "lower n = ''server_max_window_bits''" | "lower n = ''client_max_window_bits''"
      | "lower n = ''server_no_context_takeover''" | "lower n = ''client_no_context_takeover''"
      by blast
    then show ?thesis
      using True bits_of_nonzero [OF assms True] by cases (simp_all add: simps)
  next
    case False
    then have "\<not> param_valid (n, v)"
      using bad by (simp add: p)
    from no_alternative [OF this [unfolded param_valid_def prod.case]]
    consider "lower n = ''server_max_window_bits''" "v \<notin> set bits_texts"
      | "lower n = ''client_max_window_bits''" "v \<noteq> []" "v \<notin> set bits_texts"
      | "lower n = ''server_no_context_takeover''" "v \<noteq> []" | "lower n = ''client_no_context_takeover''" "v \<noteq> []"
      | "lower n \<notin> {''server_max_window_bits'', ''client_max_window_bits'',
          ''server_no_context_takeover'', ''client_no_context_takeover''}"
      by (elim disjE conjE) simp_all
    moreover have "parse_bits v < 8 \<or> parse_bits v > 15" if "v \<notin> set bits_texts"
      using parse_bits_range [of v] that by linarith
    ultimately show ?thesis
      by cases (simp_all add: simps)
  qed
qed

lemma pmd_list_offer:
  "list_all param_valid qs \<Longrightarrow> distinct (map lower_name qs) \<Longrightarrow>
    (if list_all param_valid ps \<and> distinct (map lower_name (qs @ ps))
     then pmd_list ps (offer_of qs) = (offer_of (qs @ ps))\<lparr>accept := True\<rparr>
     else \<not> accept (pmd_list ps (offer_of qs)))"
proof (induction ps arbitrary: qs)
  case (Cons p ps)
  show ?case
  proof (cases "param_valid p \<and> lower_name p \<notin> lower_name ` set qs")
    case True
    then have "distinct (map lower_name (qs @ [p]))" "list_all param_valid (qs @ [p])"
      using Cons.prems by auto
    then show ?thesis
      using Cons.IH [of "qs @ [p]"] True pmd_param_step(1) [OF Cons.prems(1), of p] by simp
  next
    case False
    then have no: "\<not> (list_all param_valid (p # ps) \<and> distinct (map lower_name (qs @ p # ps)))"
      by auto
    show ?thesis
      using pmd_param_step(2) [OF Cons.prems(1) False] unfolding if_not_P [OF no] by (simp add: split_beta Let_def)
  qed
qed simp

lemma offer_of_Nil: "offer_of [] = no_offer"
  by (simp add: offer_of_def no_offer_def bits_of_def)

lemma pmd_list_read:
  "if list_all param_valid ps \<and> distinct (map lower_name ps)
   then pmd_list ps no_offer = (offer_of ps)\<lparr>accept := True\<rparr> else \<not> accept (pmd_list ps no_offer)"
  using pmd_list_offer [of "[]" ps] unfolding offer_of_Nil append_Nil by simp

end
