(* ===== verification/Pmd_Negotiation.thy ===== *)
theory Pmd_Negotiation
  imports Pmd_Extension
begin

text \<open>
  What the negotiation of \<open>Pmd_Extension\<close> achieves: the text of an offer or an answer is read
  as what was written, an offer is accepted exactly when its parameters are valid, and the two ends
  come to the same configuration.
\<close>

section \<open>The text of an extension with its parameters\<close>

definition option_text :: "string \<times> string \<Rightarrow> string" where
  "option_text = (\<lambda>(n, v). ''; '' @ n @ (if v = [] then [] else CHR ''='' # v))"

definition option_ok :: "string \<times> string \<Rightarrow> bool" where
  "option_ok = (\<lambda>(n, v). n \<noteq> [] \<and> list_all is_token_char n \<and> list_all is_token_char v)"

abbreviation options_text :: "(string \<times> string) list \<Rightarrow> string" where
  "options_text ps \<equiv> concat (map option_text ps)"

lemma param_increment_option:
  assumes ok: "option_ok (n, v)" and r: "r = [] \<or> hd r = CHR '';''"
  shows "param_increment \<lparr>pi_it = option_text (n, v) @ r, pi_first = f, pi_name = n0, pi_value = v0\<rparr> =
    \<lparr>pi_it = r, pi_first = option_text (n, v) @ r, pi_name = n, pi_value = v\<rparr>"
proof -
  obtain c n' where n: "n = c # n'" "is_token_char c" "list_all is_token_char n'"
    using ok by (cases n) (auto simp: option_ok_def)
  have c: "\<not> is_ows c"
    using token_not_special [OF n(2)] by auto
  have r': "skip_ows r = r" "r = [] \<or> \<not> is_token_char (hd r)"
    using r not_token(2) by (cases r; auto)+
  show ?thesis
  proof (cases v)
    case Nil
    have "skip_token (n' @ r) = r"
      using skip_token_all [OF n(3) r'(2)] .
    then show ?thesis
      using n c r r' upto_iter_append [of "c # n'" r]
      by (auto simp: Nil option_text_def param_increment_def Let_def)
  next
    case (Cons d w)
    have d: "is_token_char d" "list_all is_token_char w" "\<not> is_ows d" "d \<noteq> CHR 0x22"
      using ok token_not_special [of d] by (auto simp: Cons option_ok_def)
    have "skip_token (n' @ CHR ''='' # d # w @ r) = CHR ''='' # d # w @ r"
      using skip_token_all [OF n(3), of "CHR ''='' # d # w @ r"] not_token(1) by simp
    moreover have "skip_token (w @ r) = r"
      using skip_token_all [OF d(2) r'(2)] .
    ultimately show ?thesis
      using n c d upto_iter_append [of "c # n'" "CHR ''='' # d # w @ r"] upto_iter_append [of "d # w" r]
      by (auto simp: Cons option_text_def param_increment_def Let_def)
  qed
qed

lemma options_start: "options_text ps = [] \<or> hd (options_text ps) = CHR '';''"
  by (cases ps) (auto simp: option_text_def)

lemma params_options: "list_all option_ok ps \<Longrightarrow> pi_it pi = options_text ps \<Longrightarrow> params_from pi = Some ps"
proof (induction ps arbitrary: pi)
  case Nil
  then have "param_increment pi = \<lparr>pi_it = [], pi_first = [], pi_name = [], pi_value = []\<rparr>"
    by (simp add: param_increment_def)
  then show ?case
    by (subst params_from.simps) (simp add: param_list_increment_def param_empty_def)
next
  case (Cons nv ps)
  obtain n v where nv: "nv = (n, v)"
    by (cases nv)
  have ok: "option_ok (n, v)" "list_all option_ok ps"
    using Cons.prems(1) nv by simp_all
  have "param_increment pi = \<lparr>pi_it = options_text ps, pi_first = option_text (n, v) @ options_text ps, pi_name = n, pi_value = v\<rparr>"
    (is "_ = ?pi")
    using param_increment_option [OF ok(1) options_start, of ps "pi_first pi" "pi_name pi" "pi_value pi"] Cons.prems(2) nv
    by (cases pi) simp
  moreover have "v = [] \<or> hd v \<noteq> CHR 0x22"
    using ok(1) not_token(3) by (cases v) (auto simp: option_ok_def)
  ultimately have "param_list_increment pi = Some ?pi"
    by (auto simp: param_list_increment_def param_empty_def option_text_def)
  then show ?case
    using Cons.IH [OF ok(2), of ?pi] nv by (subst params_from.simps) (simp add: option_text_def)
qed

lemma param_end_options: "list_all option_ok ps \<Longrightarrow> pi_it pi = options_text ps \<Longrightarrow> pi_it (param_end pi) = []"
proof (induction ps arbitrary: pi)
  case Nil
  then have "param_increment pi = \<lparr>pi_it = [], pi_first = [], pi_name = [], pi_value = []\<rparr>"
    by (simp add: param_increment_def)
  then show ?case
    by (subst param_end.simps) (simp add: param_empty_def)
next
  case (Cons nv ps)
  obtain n v where nv: "nv = (n, v)"
    by (cases nv)
  have ok: "option_ok (n, v)" "list_all option_ok ps"
    using Cons.prems(1) nv by simp_all
  have "param_increment pi = \<lparr>pi_it = options_text ps, pi_first = option_text (n, v) @ options_text ps, pi_name = n, pi_value = v\<rparr>"
    (is "_ = ?pi")
    using param_increment_option [OF ok(1) options_start, of ps "pi_first pi" "pi_name pi" "pi_value pi"] Cons.prems(2) nv
    by (cases pi) simp
  then show ?case
    using Cons.IH [OF ok(2), of ?pi] by (subst param_end.simps) (simp add: param_empty_def option_text_def)
qed

lemma exts_options:
  assumes "list_all is_token_char n" "n \<noteq> []" "list_all option_ok ps"
  shows "exts (n @ options_text ps) = [(n, options_text ps)]"
proof -
  obtain c n' where n: "n = c # n'" "is_token_char c" "list_all is_token_char n'"
    using assms(1,2) by (cases n) auto
  let ?t = "options_text ps"
  have c: "\<not> is_ows c" "c \<noteq> CHR '',''"
    using token_not_special [OF n(2)] by auto
  have "?t = [] \<or> \<not> is_token_char (hd ?t)"
    using options_start [of ps] not_token(2) by auto
  then have "skip_token (n' @ ?t) = ?t"
    using skip_token_all [OF n(3)] by blast
  moreover have "next_element False (n @ ?t) = Scan_token (n @ ?t)"
    using n c by (simp add: next_element.simps [of False])
  moreover have "pi_it (param_end \<lparr>pi_it = ?t, pi_first = ?t, pi_name = [], pi_value = []\<rparr>) = []"
    using param_end_options [OF assms(3)] by simp
  ultimately have "ext_increment (n @ ?t) (n @ ?t) = Some ((n, ?t), [])"
    using n(1) upto_iter_append [of n ?t] by (simp add: ext_increment_def upto_iter_def)
  moreover have "ext_increment s [] = None" for s
    by (simp add: ext_increment_def next_element.simps [of _ "[]"])
  ultimately show ?thesis
    by (simp add: exts_def exts_from.simps)
qed

section \<open>The text of an offer\<close>

definition bits_value :: "int \<Rightarrow> string" where
  "bits_value b = (if b = -1 then [] else raw_digits (nat b) [])"

definition bits_option :: "string \<Rightarrow> int \<Rightarrow> (string \<times> string) list" where
  "bits_option name b = (if b = 0 then [] else [(name, bits_value b)])"

definition flag_option :: "string \<Rightarrow> bool \<Rightarrow> (string \<times> string) list" where
  "flag_option name b = (if b then [(name, [])] else [])"

definition offer_options :: "pmd_offer \<Rightarrow> (string \<times> string) list" where
  "offer_options offer =
     bits_option ''server_max_window_bits'' (server_max_window_bits offer) @
     bits_option ''client_max_window_bits'' (client_max_window_bits offer) @
     flag_option ''server_no_context_takeover'' (server_no_context_takeover offer) @
     flag_option ''client_no_context_takeover'' (client_no_context_takeover offer)"

definition bits_ok :: "int \<Rightarrow> bool" where
  "bits_ok b \<longleftrightarrow> b = -1 \<or> b = 0 \<or> 8 \<le> b \<and> b \<le> 15"

lemma bits_cases: "8 \<le> (b::int) \<Longrightarrow> b \<le> 15 \<Longrightarrow> b \<in> {8, 9, 10, 11, 12, 13, 14, 15}"
  by auto

lemma bits_digits:
  assumes "8 \<le> b" "b \<le> 15"
  shows "raw_digits (nat b) [] \<in> set bits_texts" "dec_value (raw_digits (nat b) []) = nat b"
    "raw_to_string_signed 32 b = Returns (raw_digits (nat b) [])" "bits_value b = raw_digits (nat b) []"
proof -
  have "list_all (\<lambda>b. raw_digits (nat b) [] \<in> set bits_texts) [8, 9, 10, 11, 12, 13, 14, 15]"
    by code_simp
  then show "raw_digits (nat b) [] \<in> set bits_texts"
    using bits_cases [OF assms] by (auto simp: list_all_iff)
  show "dec_value (raw_digits (nat b) []) = nat b"
    by (rule dec_value_digits)
  show "raw_to_string_signed 32 b = Returns (raw_digits (nat b) [])" "bits_value b = raw_digits (nat b) []"
    using assms by (simp_all add: raw_to_string_signed_def bits_value_def)
qed

lemma bits_texts_ok: "v \<in> set bits_texts \<Longrightarrow> list_all is_token_char v \<and> length v \<le> 2 \<and> v \<noteq> []"
proof -
  have "list_all (\<lambda>v. list_all is_token_char v \<and> length v \<le> 2 \<and> v \<noteq> []) bits_texts"
    by code_simp
  then show "v \<in> set bits_texts \<Longrightarrow> list_all is_token_char v \<and> length v \<le> 2 \<and> v \<noteq> []"
    unfolding list_all_iff by blast
qed

lemma add_bits_returns:
  assumes "8 \<le> b" "b \<le> 15" "length s + length n \<le> 500"
  shows "add_bits n b s = Returns (s @ n @ CHR ''='' # bits_value b)"
  using assms bits_digits [OF assms(1,2)] bits_texts_ok [of "bits_value b"] by (simp add: add_bits_def add_text_def)

lemma name_tokens:
  "list_all is_token_char ''server_max_window_bits''" "list_all is_token_char ''client_max_window_bits''"
  "list_all is_token_char ''server_no_context_takeover''" "list_all is_token_char ''client_no_context_takeover''"
  "list_all is_token_char ''permessage-deflate''"
  by code_simp+

lemma bits_option_ok: "bits_ok b \<Longrightarrow> n \<noteq> [] \<Longrightarrow> list_all is_token_char n \<Longrightarrow> list_all option_ok (bits_option n b)"
  using bits_digits [of b] bits_texts_ok [of "bits_value b"] by (auto simp: bits_ok_def bits_option_def option_ok_def bits_value_def)

lemma flag_option_ok: "n \<noteq> [] \<Longrightarrow> list_all is_token_char n \<Longrightarrow> list_all option_ok (flag_option n b)"
  by (simp add: flag_option_def option_ok_def)

text \<open>One step of the code that writes a text, and what it adds.\<close>

lemma flag_step:
  assumes "length s + length n \<le> 498"
  shows "and_then (if b then add_text (CHR '';'' # CHR '' '' # n) s else Returns s) g = g (s @ options_text (flag_option n b))"
  using assms by (simp add: add_text_def flag_option_def option_text_def)

lemma bits_step:
  assumes "length s + length n \<le> 498" "bits_ok b"
  shows "and_then (if b \<noteq> 0 then if b \<noteq> -1 then add_bits (CHR '';'' # CHR '' '' # n) b s
      else add_text (CHR '';'' # CHR '' '' # n) s else Returns s) g = g (s @ options_text (bits_option n b))"
proof -
  have "bits_value b \<noteq> []" if "8 \<le> b" "b \<le> 15"
    using that bits_digits [OF that] bits_texts_ok [of "bits_value b"] by simp
  then show ?thesis
    using assms add_bits_returns [of b s "CHR '';'' # CHR '' '' # n"]
    by (auto simp: bits_ok_def add_text_def bits_option_def option_text_def bits_value_def)
qed

lemma options_length:
  "length (options_text (flag_option n b)) \<le> length n + 2"
  "bits_ok b' \<Longrightarrow> length (options_text (bits_option n b')) \<le> length n + 5"
  using bits_digits [of b'] bits_texts_ok [of "bits_value b'"]
  by (auto simp: flag_option_def bits_option_def option_text_def bits_ok_def bits_value_def)

lemma offer_text_eq:
  assumes "bits_ok (server_max_window_bits offer)" "bits_ok (client_max_window_bits offer)"
  shows "offer_text offer = Returns (''permessage-deflate'' @ options_text (offer_options offer))"
proof -
  let ?s = "options_text (bits_option ''server_max_window_bits'' (server_max_window_bits offer))"
  let ?c = "options_text (bits_option ''client_max_window_bits'' (client_max_window_bits offer))"
  let ?f = "options_text (flag_option ''server_no_context_takeover'' (server_no_context_takeover offer))"
  have len: "length ?s \<le> 27" "length ?c \<le> 27" "length ?f \<le> 28"
    using options_length(2) [OF assms(1), of "''server_max_window_bits''"]
      options_length(2) [OF assms(2), of "''client_max_window_bits''"]
      options_length(1) [of "''server_no_context_takeover''" "server_no_context_takeover offer"] by simp_all
  have last: "(if b then add_text (CHR '';'' # CHR '' '' # n) s else Returns s) = Returns (s @ options_text (flag_option n b))"
    if "length s + length n \<le> 498" for s n b
    using that by (simp add: add_text_def flag_option_def option_text_def)
  have start: "and_then (add_text ''permessage-deflate'' []) g = g ''permessage-deflate''" for g :: "string \<Rightarrow> string outcome"
    by (simp add: add_text_def)
  have "offer_text offer = and_then
      (if client_max_window_bits offer \<noteq> 0 then
          (if client_max_window_bits offer \<noteq> -1
           then add_bits ''; client_max_window_bits'' (client_max_window_bits offer) (''permessage-deflate'' @ ?s)
           else add_text ''; client_max_window_bits'' (''permessage-deflate'' @ ?s))
        else Returns (''permessage-deflate'' @ ?s)) (\<lambda>s.
     and_then
       (if server_no_context_takeover offer then add_text ''; server_no_context_takeover'' s else Returns s) (\<lambda>s.
       if client_no_context_takeover offer then add_text ''; client_no_context_takeover'' s else Returns s))"
    unfolding offer_text_def start by (subst bits_step) (use assms(1) in simp_all)
  also have "\<dots> = and_then
       (if server_no_context_takeover offer then add_text ''; server_no_context_takeover'' ((''permessage-deflate'' @ ?s) @ ?c)
        else Returns ((''permessage-deflate'' @ ?s) @ ?c)) (\<lambda>s.
       if client_no_context_takeover offer then add_text ''; client_no_context_takeover'' s else Returns s)"
    by (subst bits_step) (use assms(2) len in simp_all)
  also have "\<dots> = Returns ((((''permessage-deflate'' @ ?s) @ ?c) @ ?f) @
      options_text (flag_option ''client_no_context_takeover'' (client_no_context_takeover offer)))"
    by (subst flag_step, use len in simp, subst last) (use len in simp_all)
  finally show ?thesis
    by (simp add: offer_options_def)
qed

text \<open>The field as it is set, and as it is read.\<close>

lemma trim_options:
  assumes "n \<noteq> []" "list_all is_token_char n" "list_all option_ok ps"
  shows "trim (n @ options_text ps) = n @ options_text ps"
proof (rule trim_fix)
  have ows: "\<not> is_ows c" if "is_token_char c" for c
    using token_not_special [OF that] by auto
  have "is_token_char (hd n)"
    using assms(1,2) by (cases n) auto
  moreover have "is_token_char (last (n @ options_text ps))"
  proof (cases ps rule: rev_cases)
    case Nil
    then show ?thesis
      using assms(1,2) by (simp add: list_all_iff)
  next
    case (snoc qs q)
    obtain m v where q: "q = (m, v)"
      by (cases q)
    have "last (option_text q) \<in> set m \<union> set v \<and> option_text q \<noteq> []"
      using assms(3) by (cases v) (auto simp: snoc q option_text_def option_ok_def)
    then show ?thesis
      using assms(3) by (auto simp: snoc q option_ok_def list_all_iff)
  qed
  ultimately show "n @ options_text ps = [] \<or> \<not> is_ows (hd (n @ options_text ps)) \<and> \<not> is_ows (last (n @ options_text ps))"
    using ows assms(1) by simp
qed

abbreviation extensions_name :: string where
  "extensions_name \<equiv> ''Sec-WebSocket-Extensions''"

lemma extensions_field [simp]: "field_to_string field_sec_websocket_extensions = extensions_name"
  by code_simp

lemma lookup_named_holds:
  assumes "searches_ok K" "holds_fields f xs"
  shows "lookup_named K n f = (case values_of n xs of [] \<Rightarrow> [] | v # vs \<Rightarrow> v)"
  using assms lookup_named_eq(1) [OF assms(1), of f n] by (simp add: holds_fields_def)

lemma set_extensions_holds:
  assumes "searches_ok K" "holds_fields f xs" "list_all option_ok ps" "length (options_text ps) \<le> 494"
  shows "\<exists>f'. set_extensions K (''permessage-deflate'' @ options_text ps) f = Returns f' \<and>
    holds_fields f' (put_field extensions_name (''permessage-deflate'' @ options_text ps) xs) \<and> same_start f f'"
proof -
  let ?v = "''permessage-deflate'' @ options_text ps"
  have t: "trim ?v = ?v"
    by (rule trim_options [OF _ name_tokens(5) assms(3)]) simp
  have "field_fits extensions_name ?v"
    using assms(4) t by (simp add: field_fits_def)
  then show ?thesis
    using set_field_holds(1) [OF assms(1,2), of field_sec_websocket_extensions ?v] t
    by (auto simp: set_extensions_def)
qed

lemma pmd_read_options:
  assumes "searches_ok K" "holds_fields f xs" "list_all option_ok ps"
    "values_of extensions_name xs = (''permessage-deflate'' @ options_text ps) # vs"
  shows "pmd_read K f = Some (pmd_list ps no_offer)"
proof -
  have "exts (''permessage-deflate'' @ options_text ps) = [(''permessage-deflate'', options_text ps)]"
    by (rule exts_options [OF name_tokens(5) _ assms(3)]) simp
  moreover have "params (options_text ps) = Some ps"
    unfolding params_def using params_options [OF assms(3)] by simp
  ultimately show ?thesis
    using lookup_named_holds [OF assms(1,2), of extensions_name] assms(4)
    by (simp only: pmd_read_def pmd_exts_eq list.case find.simps prod.case iequals_names lower_names simp_thms(6) if_True option.case prod.case option.sel)
qed

section \<open>Reading what was written\<close>

lemma bits_of_options:
  "bits_of name (bits_option n b @ ps) = (if b \<noteq> 0 \<and> lower n = name then if bits_value b = [] then -1 else int (dec_value (bits_value b)) else bits_of name ps)"
  "bits_of name (flag_option n b' @ ps) = (if b' \<and> lower n = name then -1 else bits_of name ps)"
  "bits_of name [] = 0"
  by (auto simp: bits_of_def bits_option_def flag_option_def)

lemma bits_value_back: "bits_ok b \<Longrightarrow> b \<noteq> 0 \<Longrightarrow> (if bits_value b = [] then -1 else int (dec_value (bits_value b))) = b"
  using bits_digits [of b] bits_texts_ok [of "bits_value b"] by (auto simp: bits_ok_def bits_value_def)

lemma names_of_options:
  "lower_name ` set (bits_option n b) = (if b = 0 then {} else {lower n})"
  "lower_name ` set (flag_option n b') = (if b' then {lower n} else {})"
  "map lower_name (bits_option n b) = (if b = 0 then [] else [lower n])"
  "map lower_name (flag_option n b') = (if b' then [lower n] else [])"
  by (auto simp: bits_option_def flag_option_def)

text \<open>The same four parameters, in the order of an offer or of an answer.\<close>

definition answer_options :: "pmd_offer \<Rightarrow> (string \<times> string) list" where
  "answer_options offer =
     flag_option ''server_no_context_takeover'' (server_no_context_takeover offer) @
     flag_option ''client_no_context_takeover'' (client_no_context_takeover offer) @
     bits_option ''server_max_window_bits'' (server_max_window_bits offer) @
     bits_option ''client_max_window_bits'' (client_max_window_bits offer)"

lemma offer_of_options:
  assumes "bits_ok (server_max_window_bits offer)" "bits_ok (client_max_window_bits offer)"
  shows "offer_of (offer_options offer) = offer\<lparr>accept := False\<rparr>" "offer_of (answer_options offer) = offer\<lparr>accept := False\<rparr>"
proof -
  note append = append_Nil2 [of "flag_option a b" for a b, symmetric] append_Nil2 [of "bits_option a b" for a b, symmetric]
  have bits: "bits_of name (flag_option n b) = bits_of name (flag_option n b @ [])"
    "bits_of name (bits_option n c) = bits_of name (bits_option n c @ [])" for name n b c
    by simp_all
  show "offer_of (offer_options offer) = offer\<lparr>accept := False\<rparr>"
    unfolding offer_of_def offer_options_def set_append image_Un names_of_options lower_names bits(1)
      bits_of_options bits_of_options(3)
    using bits_value_back [OF assms(1)] bits_value_back [OF assms(2)] by (cases offer) (auto split: if_splits)
  show "offer_of (answer_options offer) = offer\<lparr>accept := False\<rparr>"
    unfolding offer_of_def answer_options_def set_append image_Un names_of_options lower_names bits(2)
      bits_of_options bits_of_options(3)
    using bits_value_back [OF assms(1)] bits_value_back [OF assms(2)] by (cases offer) (auto split: if_splits)
qed

lemma bits_option_valid:
  assumes "bits_ok b"
  shows "list_all param_valid (bits_option ''client_max_window_bits'' b)"
    "list_all param_valid (bits_option ''server_max_window_bits'' b) \<longleftrightarrow> b \<noteq> -1"
proof -
  have v: "b = 0 \<or> b = -1 \<or> bits_value b \<in> set bits_texts"
    using assms bits_digits [of b] by (auto simp: bits_ok_def)
  have "[] \<notin> set bits_texts"
    using bits_texts_ok by blast
  then show "list_all param_valid (bits_option ''client_max_window_bits'' b)"
    "list_all param_valid (bits_option ''server_max_window_bits'' b) \<longleftrightarrow> b \<noteq> -1"
    using v assms unfolding bits_option_def param_valid_def bits_ok_def
    by (auto simp: lower_names bits_value_def simp del: list.map)
qed

lemma flag_option_valid:
  "list_all param_valid (flag_option ''server_no_context_takeover'' b)" "list_all param_valid (flag_option ''client_no_context_takeover'' b)"
  by (simp_all add: flag_option_def param_valid_def lower_names del: list.map)

lemma options_distinct:
  "distinct (map lower_name (offer_options offer))" "distinct (map lower_name (answer_options offer))"
  by (simp_all add: offer_options_def answer_options_def names_of_options lower_names del: list.map)

lemma options_ok:
  assumes "bits_ok (server_max_window_bits offer)" "bits_ok (client_max_window_bits offer)"
  shows "list_all option_ok (offer_options offer)" "list_all option_ok (answer_options offer)"
    "length (options_text (offer_options offer)) \<le> 120" "length (options_text (answer_options offer)) \<le> 120"
proof -
  have "list_all option_ok (bits_option ''server_max_window_bits'' (server_max_window_bits offer))"
    "list_all option_ok (bits_option ''client_max_window_bits'' (client_max_window_bits offer))"
    "list_all option_ok (flag_option ''server_no_context_takeover'' (server_no_context_takeover offer))"
    "list_all option_ok (flag_option ''client_no_context_takeover'' (client_no_context_takeover offer))"
    by (rule bits_option_ok [OF assms(1) _ name_tokens(1)] bits_option_ok [OF assms(2) _ name_tokens(2)]
      flag_option_ok [OF _ name_tokens(3)] flag_option_ok [OF _ name_tokens(4)], simp)+
  then show "list_all option_ok (offer_options offer)" "list_all option_ok (answer_options offer)"
    by (simp_all add: offer_options_def answer_options_def)
  show "length (options_text (offer_options offer)) \<le> 120" "length (options_text (answer_options offer)) \<le> 120"
    using options_length(2) [OF assms(1), of "''server_max_window_bits''"]
      options_length(2) [OF assms(2), of "''client_max_window_bits''"]
      options_length(1) [of "''server_no_context_takeover''" "server_no_context_takeover offer"]
      options_length(1) [of "''client_no_context_takeover''" "client_no_context_takeover offer"]
    by (simp_all add: offer_options_def answer_options_def)
qed

text \<open>The result of reading four parameters that were written, in either order.\<close>

lemma pmd_list_options:
  assumes "bits_ok (server_max_window_bits offer)" "bits_ok (client_max_window_bits offer)"
    "ps = offer_options offer \<or> ps = answer_options offer"
  shows "server_max_window_bits offer \<noteq> -1 \<Longrightarrow> pmd_list ps no_offer = offer\<lparr>accept := True\<rparr>"
    "server_max_window_bits offer = -1 \<Longrightarrow> \<not> accept (pmd_list ps no_offer)"
proof -
  have "list_all param_valid (offer_options offer) \<longleftrightarrow> server_max_window_bits offer \<noteq> -1"
    "list_all param_valid (answer_options offer) \<longleftrightarrow> server_max_window_bits offer \<noteq> -1"
    by (simp_all only: offer_options_def answer_options_def list_all_append flag_option_valid
      bits_option_valid(2) [OF assms(1)] bits_option_valid(1) [OF assms(2)] simp_thms)
  then have v: "list_all param_valid ps \<longleftrightarrow> server_max_window_bits offer \<noteq> -1" and d: "distinct (map lower_name ps)"
    and o: "offer_of ps = offer\<lparr>accept := False\<rparr>"
    using assms(3) options_distinct [of offer] offer_of_options [OF assms(1,2)] by metis+
  show "pmd_list ps no_offer = offer\<lparr>accept := True\<rparr>" if "server_max_window_bits offer \<noteq> -1"
    using pmd_list_read [of ps] v d o that by simp
  show "\<not> accept (pmd_list ps no_offer)" if "server_max_window_bits offer = -1"
    using pmd_list_read [of ps] v that by simp
qed

section \<open>The outcome of a negotiation\<close>

definition options_valid :: "permessage_deflate \<Rightarrow> bool" where
  "options_valid opt \<longleftrightarrow> 9 \<le> opt_server_max_window_bits opt \<and> opt_server_max_window_bits opt \<le> 15 \<and>
     9 \<le> opt_client_max_window_bits opt \<and> opt_client_max_window_bits opt \<le> 15"

text \<open>The values that an accepted offer can have.\<close>

definition offered :: "pmd_offer \<Rightarrow> bool" where
  "offered offer \<longleftrightarrow> bits_ok (server_max_window_bits offer) \<and> server_max_window_bits offer \<noteq> -1 \<and>
     bits_ok (client_max_window_bits offer)"

definition agreed :: "pmd_offer \<Rightarrow> permessage_deflate \<Rightarrow> pmd_offer" where
  "agreed offer opt = \<lparr>accept = True,
     server_max_window_bits =
       (if server_max_window_bits offer = 0 then opt_server_max_window_bits opt
        else max 9 (min (server_max_window_bits offer) (opt_server_max_window_bits opt))),
     client_max_window_bits =
       (if client_max_window_bits offer \<le> 0 then opt_client_max_window_bits opt
        else min (client_max_window_bits offer) (opt_client_max_window_bits opt)),
     server_no_context_takeover = (server_no_context_takeover offer \<or> opt_server_no_context_takeover opt),
     client_no_context_takeover = (client_no_context_takeover offer \<or> opt_client_no_context_takeover opt)\<rparr>"

definition agrees :: "pmd_offer \<Rightarrow> permessage_deflate \<Rightarrow> bool" where
  "agrees offer opt \<longleftrightarrow> accept offer \<and> server_enable opt \<and>
     (client_max_window_bits offer \<noteq> 0 \<or> opt_client_max_window_bits opt = 15)"

text \<open>The parameters of the answer: a size of 15 goes without saying, except in answer to a number.\<close>

definition said :: "pmd_offer \<Rightarrow> permessage_deflate \<Rightarrow> pmd_offer" where
  "said offer opt = (let c = agreed offer opt in c\<lparr>
     server_max_window_bits := (if server_max_window_bits c < 15 then server_max_window_bits c else 0),
     client_max_window_bits :=
       (if client_max_window_bits offer \<le> 0 \<and> client_max_window_bits c = 15 then 0 else client_max_window_bits c)\<rparr>)"

lemma said_bits:
  assumes "options_valid opt" "offered offer"
  shows "bits_ok (server_max_window_bits (said offer opt))" "bits_ok (client_max_window_bits (said offer opt))"
    "server_max_window_bits (said offer opt) \<noteq> -1" "accept (said offer opt)" "pmd_normalize (said offer opt) = agreed offer opt"
proof -
  show "bits_ok (server_max_window_bits (said offer opt))" "bits_ok (client_max_window_bits (said offer opt))"
    "server_max_window_bits (said offer opt) \<noteq> -1" "accept (said offer opt)"
    using assms by (auto simp: said_def agreed_def options_valid_def offered_def bits_ok_def min_def max_def Let_def)
  show "pmd_normalize (said offer opt) = agreed offer opt"
    using assms by (auto simp: pmd_normalize_def said_def agreed_def options_valid_def offered_def bits_ok_def min_def max_def Let_def)
qed

lemma answer_takeover_eq:
  "answer_takeover offer opt config = Returns
     (''permessage-deflate'' @ options_text (flag_option ''server_no_context_takeover'' (server_no_context_takeover (said offer opt)) @
        flag_option ''client_no_context_takeover'' (client_no_context_takeover (said offer opt))),
      config\<lparr>server_no_context_takeover := server_no_context_takeover (agreed offer opt),
        client_no_context_takeover := client_no_context_takeover (agreed offer opt)\<rparr>)"
  by (auto simp: answer_takeover_def add_text_def flag_option_def option_text_def said_def agreed_def Let_def)

lemma answer_server_bits_eq:
  assumes "options_valid opt" "offered offer" "length s \<le> 400"
  shows "answer_server_bits offer opt (s, config) = Returns
     (s @ options_text (bits_option ''server_max_window_bits'' (server_max_window_bits (said offer opt))),
      config\<lparr>server_max_window_bits := server_max_window_bits (agreed offer opt)\<rparr>)"
proof -
  have "add_bits ''; server_max_window_bits'' b s = Returns (s @ options_text (bits_option ''server_max_window_bits'' b))"
    if "9 \<le> b" "b < 15" for b
    using that assms(3) bits_digits [of b] bits_texts_ok [of "bits_value b"]
    by (simp add: add_bits_returns bits_option_def option_text_def)
  then show ?thesis
    using assms(1,2)
    by (auto simp: answer_server_bits_def said_def agreed_def options_valid_def offered_def bits_ok_def bits_option_def
      min_def max_def Let_def)
qed

lemma answer_client_bits_eq:
  assumes "options_valid opt" "offered offer" "length s \<le> 400"
    "client_max_window_bits offer \<noteq> 0 \<or> opt_client_max_window_bits opt = 15"
  shows "answer_client_bits offer opt (s, config) = Returns
     (s @ options_text (bits_option ''client_max_window_bits'' (client_max_window_bits (said offer opt))),
      config\<lparr>client_max_window_bits := client_max_window_bits (agreed offer opt)\<rparr>)"
proof -
  have "add_bits ''; client_max_window_bits'' b s = Returns (s @ options_text (bits_option ''client_max_window_bits'' b))"
    if "8 \<le> b" "b \<le> 15" for b
    using that assms(3) bits_digits [of b] bits_texts_ok [of "bits_value b"]
    by (simp add: add_bits_returns bits_option_def option_text_def)
  then show ?thesis
    using assms(1,2,4)
    by (auto simp: answer_client_bits_def said_def agreed_def options_valid_def offered_def bits_ok_def bits_option_def
      min_def Let_def)
qed

lemma pmd_negotiate_eq:
  assumes "searches_ok K" "holds_fields f xs" "options_valid opt" "offered offer"
  shows "agrees offer opt \<Longrightarrow> \<exists>f'. pmd_negotiate K f config offer opt = Returns (f', agreed offer opt) \<and>
      holds_fields f' (put_field extensions_name (''permessage-deflate'' @ options_text (answer_options (said offer opt))) xs) \<and>
      same_start f f'"
    "\<not> agrees offer opt \<Longrightarrow> \<exists>config'. pmd_negotiate K f config offer opt = Returns (f, config') \<and> \<not> accept config'"
proof -
  let ?said = "said offer opt"
  note said = said_bits [OF assms(3,4)]
  define s where "s = ''permessage-deflate'' @ options_text (flag_option ''server_no_context_takeover'' (server_no_context_takeover ?said) @
        flag_option ''client_no_context_takeover'' (client_no_context_takeover ?said))"
  define s' where "s' = s @ options_text (bits_option ''server_max_window_bits'' (server_max_window_bits ?said))"
  have len: "length s \<le> 100" "length s' \<le> 200"
    using options_length(1) [of "''server_no_context_takeover''" "server_no_context_takeover ?said"]
      options_length(1) [of "''client_no_context_takeover''" "client_no_context_takeover ?said"]
      options_length(2) [OF said(1), of "''server_max_window_bits''"] by (simp_all add: s_def s'_def)
  have neg: "pmd_negotiate K f config offer opt =
      and_then (answer_client_bits offer opt (s', config\<lparr>accept := True,
        server_no_context_takeover := server_no_context_takeover (agreed offer opt),
        client_no_context_takeover := client_no_context_takeover (agreed offer opt),
        server_max_window_bits := server_max_window_bits (agreed offer opt)\<rparr>)) (\<lambda>(s, config).
        if accept config then and_then (set_extensions K s f) (\<lambda>f. Returns (f, config)) else Returns (f, config))"
    if "accept offer" "server_enable opt"
  proof -
    have "answer_takeover offer opt (config\<lparr>accept := True\<rparr>) = Returns (s, config\<lparr>accept := True,
        server_no_context_takeover := server_no_context_takeover (agreed offer opt),
        client_no_context_takeover := client_no_context_takeover (agreed offer opt)\<rparr>)"
      by (simp only: answer_takeover_eq s_def)
    moreover have "length s \<le> 400"
      using len by simp
    ultimately show ?thesis
      using that answer_server_bits_eq [OF assms(3,4), of s] by (simp add: pmd_negotiate_def s'_def)
  qed
  show "\<exists>f'. pmd_negotiate K f config offer opt = Returns (f', agreed offer opt) \<and>
      holds_fields f' (put_field extensions_name (''permessage-deflate'' @ options_text (answer_options ?said)) xs) \<and>
      same_start f f'" if a: "agrees offer opt"
  proof -
    have "s' @ options_text (bits_option ''client_max_window_bits'' (client_max_window_bits ?said)) =
        ''permessage-deflate'' @ options_text (answer_options ?said)"
      by (simp add: s'_def s_def answer_options_def)
    moreover have "length s' \<le> 400"
      using len by simp
    moreover have "config\<lparr>accept := True,
        server_no_context_takeover := server_no_context_takeover (agreed offer opt),
        client_no_context_takeover := client_no_context_takeover (agreed offer opt),
        server_max_window_bits := server_max_window_bits (agreed offer opt),
        client_max_window_bits := client_max_window_bits (agreed offer opt)\<rparr> = agreed offer opt"
      by (cases config) (simp add: agreed_def)
    moreover have "accept (agreed offer opt)"
      by (simp add: agreed_def)
    ultimately show ?thesis
      using a answer_client_bits_eq [OF assms(3,4)] set_extensions_holds [OF assms(1,2) options_ok(2) [OF said(1,2)]]
        options_ok(4) [OF said(1,2)] neg
      by (auto simp: agrees_def)
  qed
  show "\<exists>config'. pmd_negotiate K f config offer opt = Returns (f, config') \<and> \<not> accept config'" if a: "\<not> agrees offer opt"
  proof (cases "accept offer \<and> server_enable opt")
    case True
    then show ?thesis
      using a neg by (simp add: agrees_def answer_client_bits_def)
  next
    case False
    then show ?thesis
      by (auto simp: pmd_negotiate_def)
  qed
qed

section \<open>Properties\<close>

definition first_value :: "string \<Rightarrow> (string \<times> string) list \<Rightarrow> string" where
  "first_value n xs = (case values_of n xs of [] \<Rightarrow> [] | v # vs \<Rightarrow> v)"

definition pmd_element :: "(string \<times> string) list \<Rightarrow> (string \<times> string) option" where
  "pmd_element xs = find (\<lambda>(n, t). iequals n ''permessage-deflate'') (exts (first_value extensions_name xs))"

lemma pmd_read_eq:
  assumes "searches_ok K" "holds_fields f xs"
  shows "pmd_read K f = Some (case pmd_element xs of None \<Rightarrow> no_offer | Some (n, t) \<Rightarrow> pmd_list (the (params t)) no_offer)"
  using lookup_named_holds [OF assms, of extensions_name]
  by (simp add: pmd_read_def pmd_exts_eq pmd_element_def first_value_def split: option.split)

lemma dec_bits: "v \<in> set bits_texts \<Longrightarrow> v \<noteq> [] \<and> 8 \<le> dec_value v \<and> dec_value v \<le> 15"
  using parse_bits_texts [of v] by simp

lemma offer_of_offered:
  assumes "list_all param_valid ps"
  shows "offered (offer_of ps)"
proof -
  have v: "v = [] \<and> name \<noteq> ''server_max_window_bits'' \<or> v \<in> set bits_texts"
    if found: "map_of (map (\<lambda>(n, v). (lower n, v)) ps) name = Some v" and name: "name \<in> {''server_max_window_bits'', ''client_max_window_bits''}"
    for name v
  proof -
    obtain n where "(n, v) \<in> set ps" "lower n = name"
      using map_of_SomeD [OF found] by auto
    then have "param_valid (n, v)" "lower n = name"
      using assms by (auto simp: list_all_iff)
    moreover have "name = ''server_max_window_bits'' \<or> name = ''client_max_window_bits''"
      using name by blast
    ultimately show ?thesis
      by (elim disjE) (simp_all add: param_valid_def)
  qed
  have "bits_of name ps = 0 \<or> 8 \<le> bits_of name ps \<and> bits_of name ps \<le> 15 \<or>
      bits_of name ps = -1 \<and> name \<noteq> ''server_max_window_bits''"
    if "name \<in> {''server_max_window_bits'', ''client_max_window_bits''}" for name
    using v [of name] that dec_bits by (auto simp: bits_of_def split: option.split)
  from this [of "''server_max_window_bits''"] this [of "''client_max_window_bits''"] show ?thesis
    by (auto simp: offered_def offer_of_def bits_ok_def)
qed

lemma pmd_read_offered:
  assumes "searches_ok K" "holds_fields f xs" "pmd_read K f = Some offer"
  shows "accept offer \<Longrightarrow> offered offer"
proof -
  assume a: "accept offer"
  then obtain n t where "pmd_element xs = Some (n, t)" "offer = pmd_list (the (params t)) no_offer"
    using assms pmd_read_eq [OF assms(1,2)] by (auto simp: no_offer_def split: option.splits)
  then show "offered offer"
    using a pmd_list_read [of "the (params t)"] offer_of_offered [of "the (params t)"]
    by (auto simp: offered_def split: if_splits)
qed

text \<open>
  C18: an offer is read from the first Sec-WebSocket-Extensions field, from its first element
  permessage-deflate.  It is accepted exactly when its parameters are valid and no two have the same
  name in any case, whatever else the field holds, and then the offer is the one its
  parameters make.  No text makes the reader read past its end.
\<close>

theorem pmd_read_exact:
  assumes "searches_ok K" "holds_fields f xs"
  shows "\<exists>offer. pmd_read K f = Some offer \<and>
    (case pmd_element xs of
       None \<Rightarrow> offer = no_offer
     | Some (n, t) \<Rightarrow> \<exists>ps. params t = Some ps \<and>
         (accept offer \<longleftrightarrow> list_all param_valid ps \<and> distinct (map lower_name ps)) \<and>
         (accept offer \<longrightarrow> offer = (offer_of ps)\<lparr>accept := True\<rparr>))"
proof (cases "pmd_element xs")
  case None
  then show ?thesis
    using pmd_read_eq [OF assms] by simp
next
  case (Some nt)
  obtain n t ps where "nt = (n, t)" "params t = Some ps"
    unfolding params_def using params_from_total by (cases nt) blast
  then show ?thesis
    using Some pmd_read_eq [OF assms] pmd_list_read [of ps] by (auto split: if_splits)
qed

text \<open>
  C19: an offer that is written is read back as it is, with either window size absent, present
  without a number, or from 8 to 15; a server size without a number is written by
  \<open>pmd_write\<close> and declined by \<open>pmd_read\<close>.  Nothing else in the fields changes.
\<close>

theorem pmd_roundtrip:
  assumes "searches_ok K" "holds_fields f xs"
    and "bits_ok (server_max_window_bits offer)" "bits_ok (client_max_window_bits offer)"
  shows "\<exists>f' v. pmd_write K f offer = Returns f' \<and> holds_fields f' (put_field extensions_name v xs) \<and> same_start f f' \<and>
    (if server_max_window_bits offer = -1 then \<exists>read. pmd_read K f' = Some read \<and> \<not> accept read
     else pmd_read K f' = Some (offer\<lparr>accept := True\<rparr>))"
proof -
  let ?v = "''permessage-deflate'' @ options_text (offer_options offer)"
  obtain f' where f': "set_extensions K ?v f = Returns f'" "holds_fields f' (put_field extensions_name ?v xs)" "same_start f f'"
    using set_extensions_holds [OF assms(1,2) options_ok(1) [OF assms(3,4)]] options_ok(3) [OF assms(3,4)] by auto
  have "pmd_read K f' = Some (pmd_list (offer_options offer) no_offer)"
    by (rule pmd_read_options [OF assms(1) f'(2) options_ok(1) [OF assms(3,4)] values_put])
  then show ?thesis
    using f' pmd_list_options [OF assms(3,4)] offer_text_eq [OF assms(3,4)] by (auto simp: pmd_write_def)
qed

text \<open>
  C17: for any offer in any fields and valid options, the server either declines and writes
  nothing, or its answer, read by either end and normalized, is the agreed configuration.  The
  takeover flags are those that either end asks for, and no window is larger than an end allows,
  but for an offered server window of 8, which is answered with 9.
\<close>

theorem pmd_agreement:
  assumes "searches_ok K" "holds_fields rq ys" "holds_fields rs xs" "options_valid opt"
    and "pmd_read K rq = Some offer"
  shows "if agrees offer opt
    then \<exists>rs' answer v. pmd_negotiate K rs config offer opt = Returns (rs', agreed offer opt) \<and>
      holds_fields rs' (put_field extensions_name v xs) \<and> same_start rs rs' \<and>
      pmd_read K rs' = Some answer \<and> pmd_normalize answer = agreed offer opt
    else \<exists>config'. pmd_negotiate K rs config offer opt = Returns (rs, config') \<and> \<not> accept config'"
proof (cases "agrees offer opt")
  case True
  let ?v = "''permessage-deflate'' @ options_text (answer_options (said offer opt))"
  have o: "offered offer"
    using True pmd_read_offered [OF assms(1,2,5)] by (simp add: agrees_def)
  note said = said_bits [OF assms(4) o]
  obtain rs' where rs': "pmd_negotiate K rs config offer opt = Returns (rs', agreed offer opt)"
    "holds_fields rs' (put_field extensions_name ?v xs)" "same_start rs rs'"
    using pmd_negotiate_eq(1) [OF assms(1,3,4) o True, of config] by auto
  have "pmd_read K rs' = Some (pmd_list (answer_options (said offer opt)) no_offer)"
    by (rule pmd_read_options [OF assms(1) rs'(2) options_ok(2) [OF said(1,2)] values_put])
  moreover have "pmd_list (answer_options (said offer opt)) no_offer = said offer opt"
    using pmd_list_options(1) [OF said(1,2) _ said(3)] said(4) by (cases "said offer opt") simp
  ultimately show ?thesis
    using True rs' said(5) by auto
next
  case False
  show ?thesis
  proof (cases "accept offer")
    case True
    then show ?thesis
      using False pmd_negotiate_eq(2) [OF assms(1,3,4) pmd_read_offered [OF assms(1,2,5) True] False, of config] by simp
  next
    case decline: False
    then show ?thesis
      using False by (simp add: pmd_negotiate_def)
  qed
qed

text \<open>A container with one offer, and what is read from it.\<close>

definition an_offer_options :: "(string \<times> string) list" where
  "an_offer_options = [(''Server_max_window_bits'', ''8''), (''client_no_context_takeover'', []), (''client_max_window_bits'', [])]"

definition an_offer :: string where
  "an_offer = ''permessage-deflate'' @ options_text an_offer_options"

definition an_offer_read :: pmd_offer where
  "an_offer_read = \<lparr>accept = True, server_max_window_bits = 8, client_max_window_bits = -1,
     server_no_context_takeover = False, client_no_context_takeover = True\<rparr>"

lemma no_fields_hold: "holds_fields no_fields []"
  by (simp add: holds_fields_def fields_inv_def no_fields_def key_sorted_def)

lemma an_offer_ok: "list_all option_ok an_offer_options" "list_all param_valid an_offer_options"
    "distinct (map lower_name an_offer_options)" "length (options_text an_offer_options) \<le> 494"
    "(offer_of an_offer_options)\<lparr>accept := True\<rparr> = an_offer_read"
  by code_simp+

lemma an_offer_held: "\<exists>f. holds_fields f [(extensions_name, an_offer)] \<and> pmd_read linear f = Some an_offer_read"
proof -
  obtain f where "holds_fields f (put_field extensions_name an_offer [])"
    using set_extensions_holds [OF linear_ok no_fields_hold an_offer_ok(1,4)] by (auto simp: an_offer_def)
  then have f: "holds_fields f [(extensions_name, an_offer)]"
    by (simp add: put_field_def drop_fields_def)
  have "values_of extensions_name [(extensions_name, an_offer)] = [an_offer]"
    by (simp add: values_of_def)
  then have "pmd_read linear f = Some (pmd_list an_offer_options no_offer)"
    using pmd_read_options [OF linear_ok f an_offer_ok(1)] by (simp only: an_offer_def)
  moreover have "pmd_list an_offer_options no_offer = an_offer_read"
    using pmd_list_read [of an_offer_options] an_offer_ok(2,3,5) by simp
  ultimately show ?thesis
    using f by auto
qed

theorem pmd_read_exact_witness:
  "\<exists>f offer. holds_fields f [(extensions_name, an_offer)] \<and> pmd_read linear f = Some offer \<and> accept offer \<and>
    server_max_window_bits offer = 8 \<and> client_max_window_bits offer = -1"
proof -
  have el: "pmd_element [(extensions_name, an_offer)] = Some (''permessage-deflate'', options_text an_offer_options)"
  proof -
    have "first_value extensions_name [(extensions_name, an_offer)] = ''permessage-deflate'' @ options_text an_offer_options"
      by (simp add: first_value_def values_of_def an_offer_def)
    then show ?thesis
      unfolding pmd_element_def
      by (simp only: exts_options [OF name_tokens(5) _ an_offer_ok(1)] list.distinct not_False_eq_True find.simps prod.case
        iequals_names lower_names simp_thms(6) if_True)
  qed
  have "params (options_text an_offer_options) = Some an_offer_options"
    unfolding params_def using params_options [OF an_offer_ok(1)] by simp
  then have "(offer_of an_offer_options)\<lparr>accept := True\<rparr> = an_offer_read" "server_max_window_bits an_offer_read = 8"
    "client_max_window_bits an_offer_read = -1" "params (options_text an_offer_options) = Some an_offer_options"
    using an_offer_ok(5) by (simp_all add: an_offer_read_def)
  moreover obtain f where f: "holds_fields f [(extensions_name, an_offer)]"
    using an_offer_held by blast
  ultimately show ?thesis
    using pmd_read_exact [OF linear_ok f] an_offer_ok(2,3) unfolding el option.case prod.case by auto
qed

theorem pmd_roundtrip_witness:
  "\<exists>f'. pmd_write linear three_fields an_offer_read = Returns f' \<and> pmd_read linear f' = Some an_offer_read"
  using pmd_roundtrip [OF linear_ok three_fields_hold, of an_offer_read] by (auto simp: an_offer_read_def bits_ok_def)

text \<open>A server that takes at least nine bits answers the offer of eight with nine.\<close>

definition server_options :: permessage_deflate where
  "server_options = default_options\<lparr>server_enable := True, opt_client_max_window_bits := 12\<rparr>"

theorem pmd_agreement_witness:
  "\<exists>rq rs' answer. pmd_read linear rq = Some an_offer_read \<and>
    pmd_negotiate linear three_fields no_offer an_offer_read server_options = Returns (rs', agreed an_offer_read server_options) \<and>
    pmd_read linear rs' = Some answer \<and> pmd_normalize answer = agreed an_offer_read server_options \<and>
    server_max_window_bits (agreed an_offer_read server_options) = 9"
proof -
  obtain rq where rq: "holds_fields rq [(extensions_name, an_offer)]" "pmd_read linear rq = Some an_offer_read"
    using an_offer_held by blast
  have "options_valid server_options" "agrees an_offer_read server_options"
    "server_max_window_bits (agreed an_offer_read server_options) = 9"
    by code_simp+
  then show ?thesis
    using pmd_agreement [OF linear_ok rq(1) three_fields_hold _ rq(2), of server_options no_offer] rq(2) by auto
qed

end
