(* ===== verification/Spec2Isabelle.thy ===== *)
theory Spec2Isabelle
  imports Base64 Chacha Sha1 Strings Flat_Buffer Static_Buffer Frame Http_Names Http_Read Http_Edges Http_Message Pmd_Negotiation
begin

text \<open>
  A verification library for Beast, the HTTP and WebSocket library under
  \<open>src/include/beast\<close>.  Paths below are relative to that directory.

  \<^bold>\<open>The program.\<close>  Beast is a header-only library in four layers.  \<open>core\<close> has the
  buffers that the protocols read from and write to, string comparison, base64, SHA-1, a random
  generator and small number formats.  \<open>http\<close> has the character classes, names and grammar of
  RFC 7230, an incremental parser (\<open>basic_parser\<close>) that calls a derived class with what it
  recognises, and the operations that read a message from a stream.  \<open>websocket\<close> has the
  frames of RFC 6455, with masking, close reasons and the UTF-8 validation of text.  \<open>zlib\<close>
  is a port of the deflate algorithm.  The parser is fed by \<open>http/impl/read.ipp\<close>
  from a stream through a DynamicBuffer; the frame reader of a WebSocket stream uses the same
  buffers, the mask and the UTF-8 checker; the handshake uses base64 and SHA-1.

  \<^bold>\<open>Conventions.\<close>  A byte is an \<open>8 word\<close>, a character of protocol text a HOL
  \<open>char\<close>.  An integer whose wrap-around can be seen is a word of its width
  (\<open>u16\<close>, \<open>u32\<close>, \<open>u64\<close>), a position in memory or a size a
  \<open>nat\<close>.  A pointer into the input is the rest of the input from there on.  An operation
  that can fail returns a sum or a pair with the error, in the order of the C++ code; a failed
  \<open>BOOST_ASSERT\<close> is an error value of its own (\<open>Assertion_failed\<close>).  A load past the
  memory a caller gave is a value as well, where the code can make one.  Loops are structural
  or well-founded recursion; the loops of \<open>put\<close>, \<open>read_some\<close> and
  \<open>read\<close>, whose termination depends on the callbacks and the stream, are
  \<open>partial_function (option)\<close>, \<open>None\<close> when they do not return, and their
  properties state that they do.  No fuel is used.

  \<^bold>\<open>Parameters.\<close>  Code that is not Beast's own is an argument: the allocator of
  \<open>flat_buffer\<close> (\<open>alloc\<close>, the contents of a new area), the derived class of the
  HTTP parser (the record \<open>impl\<close> of its callbacks), the native byte order used by the
  masks and the frames (\<open>big16\<close>, \<open>big64\<close>), the memory behind a string view, the stream
  and the buffer of the readers, and the searches of the ordered Boost.Intrusive set in the field container
  (\<open>searches\<close>; \<open>searches_ok\<close> states what its documentation says of them, and
  \<open>linear\<close> is an instance).

  \<^bold>\<open>Theories.\<close>
  \<^item> \<open>Prelude\<close>: types of machine integers, characters and bytes, and lemmas on
    them and on lists.
  \<^item> \<open>Varint\<close> (\<open>core/detail/varint.hpp\<close>, \<open>clamp.hpp\<close>): round trip;
    comparison of sums that wrap.
  \<^item> \<open>Strings\<close> (\<open>core/string.hpp\<close>): comparison without case, against the order of
    the lower-cased strings, and where the loop reads past its views.
  \<^item> \<open>Base64\<close>, \<open>Sha1\<close>, \<open>Chacha\<close> (\<open>core/detail\<close>): round trip and
    bounds of base64; the unrolled SHA-1 against FIPS 180-4, for any division of the input;
    the block function of the generator.
  \<^item> \<open>Dynamic_Buffer\<close>: the DynamicBuffer concept as a locale, refined by a bounded
    queue of bytes; \<open>Flat_Buffer\<close>, \<open>Flat_Static_Buffer\<close>, \<open>Static_Buffer\<close>
    (\<open>core\<close>) model the three buffers with their positions and interpret it.
  \<^item> \<open>Static_String\<close> (\<open>core/static_string.hpp\<close>): a string in an array of fixed size,
    every read and write tested against the array, refines a bounded \<open>std::string\<close> in every
    operation that modifies it; where it differs, and the arguments that make it write outside the array.
  \<^item> \<open>Mask\<close>, \<open>Utf8_Checker\<close>, \<open>Frame\<close> (\<open>websocket/detail\<close>,
    \<open>websocket/impl/stream.ipp\<close>): masking over buffers, UTF-8 validation with its fast
    path and every load and store tested against its buffer, headers of frames, their parser with all its error paths, and close frames.
  \<^item> \<open>Http_Chars\<close>, \<open>Http_Names\<close>, \<open>Http_Fields\<close>, \<open>Rfc7230\<close>
    (\<open>http\<close>): character tables, methods and status codes, the table of field names, the
    lists and parameters of header fields.
  \<^item> \<open>Http_Parser_Base\<close> (\<open>http/detail/basic_parser.hpp\<close>): the elements of the
    grammar, and that none of them decides before it has seen enough.
  \<^item> \<open>Http_Parser\<close> (\<open>http/basic_parser.hpp\<close>, \<open>http/impl/basic_parser.ipp\<close>):
    the parser, every state and every operation.  \<open>Http_Parsing\<close>: \<open>put\<close> returns.
    \<open>Http_Header\<close>: what it makes of a well-formed header.  \<open>Http_Resume\<close>: the
    same for a header in pieces.
  \<^item> \<open>Sync_Stream\<close>: the SyncReadStream concept as a locale; \<open>Test_Stream\<close>
    (\<open>experimental/test\<close>) models the stream in memory and interprets it.
  \<^item> \<open>Http_Read\<close> (\<open>http/impl/read.ipp\<close>): the readers of messages, proved for
    every DynamicBuffer and SyncReadStream in the locale \<open>message_reader\<close>, which extends
    the two, and interpreted for \<open>flat_buffer\<close> and \<open>test::stream\<close>.
  \<^item> \<open>Http_Edges\<close>: what the parser does at the edges: an error of \<open>on_header\<close> that is
    dropped, stale characters behind a sequence of buffers, an assertion that input can reach.
  \<^item> \<open>Chunk_Extensions\<close>, \<open>Chunk_Encode\<close> (\<open>http/chunk_encode.hpp\<close>):
    chunk extensions in their two representations, and the encoding of a chunked body, which the parser
    reads back whole.
  \<^item> \<open>Basic_Fields\<close> (\<open>http/fields.hpp\<close>): the container of header fields as an
    ordered set and a list of elements that have to agree, refined by a list of names and values;
    \<open>Fields_Options\<close> (\<open>http/impl/fields.ipp\<close>): the Connection, Transfer-Encoding and
    Content-Length fields; \<open>Http_Message\<close> (\<open>http/message.hpp\<close>): the header of a message,
    its payload fields and the writer, whose text the parser reads as what was written, unless a
    length stands next to another coding than chunked, which it refuses.
  \<^item> \<open>Pmd_Extension\<close> (\<open>websocket/detail/pmd_extension.hpp\<close>): the negotiation of
    compression; \<open>Pmd_Negotiation\<close>: which offers are accepted, the round trip of an offer, and
    that both ends come to the same configuration.

  \<^bold>\<open>Not modelled.\<close>  Asynchronous operations: they are composed operations on
  Boost.Asio, which is not part of the sources, over the loops modelled here.  The deflate
  algorithms of \<open>zlib\<close>.  Message bodies and the serializer, which call the bodies'
  readers and writers.  The file classes, which call the operating system.  The adaptors of buffer
  sequences and \<open>multi_buffer\<close>, which iterate over types of Boost.Asio.  The synchronous
  operations of a WebSocket stream beyond its frames and the negotiation of compression: the handshake,
  and the reading, writing and closing of messages.  Examples, tests and build files.
\<close>

end
